(* ===== verification/Prelude.thy ===== *)
theory Prelude
  imports Main "HOL-Library.Word" "HOL-Library.Signed_Division"
begin

text \<open>
  Shared vocabulary of the development: the fixed-width integer types of the C++ sources, the
  little-endian byte accessors of \<^verbatim>\<open>src/src/crypto/common.h\<close>, and generic facts on words, bits
  and lists that the component theories use. The collection \<open>word_nat\<close> moves word arithmetic to
  \<^typ>\<open>nat\<close>; \<open>trunc_div\<close> facts are about the C++ division on signed integers, which truncates
  towards zero and is written with \<open>sdiv\<close>.
\<close>

unbundle bit_operations_syntax

named_theorems word_nat \<open>facts that read word operations as operations on natural numbers\<close>

type_synonym u8 = "8 word"
type_synonym u16 = "16 word"
type_synonym u32 = "32 word"
type_synonym u64 = "64 word"
type_synonym bytes = "u8 list"
type_synonym uint256 = bytes

definition uint256_null :: uint256 where
  "uint256_null = replicate 32 0"

subsection \<open>Little-endian access to bytes\<close>

definition ReadLE32 :: "bytes \<Rightarrow> u32" where
  "ReadLE32 p = ucast (p ! 0) OR push_bit 8 (ucast (p ! 1)) OR push_bit 16 (ucast (p ! 2))
                OR push_bit 24 (ucast (p ! 3))"

definition WriteLE32 :: "u32 \<Rightarrow> bytes" where
  "WriteLE32 x = [ucast x, ucast (drop_bit 8 x), ucast (drop_bit 16 x), ucast (drop_bit 24 x)]"

subsection \<open>Words as natural numbers\<close>

lemma unat_lt_32: "unat (x :: u32) < 4294967296"
  using unsigned_less [of x] by simp

lemma unat_lt_64: "unat (x :: u64) < 18446744073709551616"
  using unsigned_less [of x] by simp

lemma unat_lt_8: "unat (x :: u8) < 256"
  using unsigned_less [of x] by simp

lemma unat_ucast_32_64 [simp]: "unat (ucast (x :: u32) :: u64) = unat x"
  by (simp add: unsigned_ucast_eq take_bit_nat_eq_self order_less_trans [OF unat_lt_32])

lemma unat_ucast_64_32: "unat (ucast (x :: u64) :: u32) = unat x mod 4294967296"
  by (simp add: unsigned_ucast_eq take_bit_eq_mod)

lemma unat_mask32: "unat (x AND 0xffffffff :: u64) = unat x mod 4294967296"
proof -
  have "x AND 0xffffffff = take_bit 32 x"
    by (simp add: take_bit_eq_mask mask_eq_exp_minus_1)
  then have "unat (x AND 0xffffffff) = unat (take_bit 32 x)" by (rule arg_cong)
  also have "\<dots> = take_bit 32 (unat x)" by (rule unsigned_take_bit_eq)
  finally show ?thesis by (simp add: take_bit_eq_mod)
qed

lemma unat_drop32: "unat (drop_bit 32 x :: u64) = unat x div 4294967296"
  by (subst unsigned_drop_bit_eq)
    (simp add: drop_bit_eq_div take_bit_eq_mod unat_lt_64 [THEN mod_less])

lemma unat_add_64: "unat a + unat b < 18446744073709551616 \<Longrightarrow> unat (a + b :: u64) = unat a + unat b"
  by (simp add: unat_word_ariths)

lemma unat_mult_64: "unat a * unat b < 18446744073709551616 \<Longrightarrow> unat (a * b :: u64) = unat a * unat b"
  by (simp add: unat_word_ariths)

lemma unat_drop_bit: "unat (drop_bit n (w :: 'a::len word)) = unat w div 2 ^ n"
  by (subst unsigned_drop_bit_eq) (simp add: drop_bit_eq_div take_bit_nat_eq_self)

lemma unat_take_bit: "unat (take_bit n (w :: 'a::len word)) = unat w mod 2 ^ n"
  by (subst unsigned_take_bit_eq) (simp add: take_bit_eq_mod)

lemma unat_push_bit:
  "unat w * 2 ^ n < 2 ^ LENGTH('a) \<Longrightarrow> unat (push_bit n (w :: 'a::len word)) = unat w * 2 ^ n"
  by (subst unsigned_push_bit_eq) (simp add: push_bit_eq_mult take_bit_nat_eq_self)

lemma unat_or_disjoint:
  assumes "unat (x :: 'a::len word) < 2 ^ n"
  shows "unat (x OR push_bit n y) = unat x + unat (push_bit n y)"
proof -
  have "x AND push_bit n y = 0"
  proof (rule bit_word_eqI)
    fix p
    have "bit x p \<Longrightarrow> p < n"
    proof (rule ccontr)
      assume "bit x p" "\<not> p < n"
      then have "bit (unat x) p" by (simp add: bit_unsigned_iff)
      then have "2 ^ p \<le> unat x" by (metis bit_iff_odd div_less even_zero not_less)
      moreover have "(2::nat) ^ n \<le> 2 ^ p" using \<open>\<not> p < n\<close> by (intro power_increasing) simp_all
      ultimately show False using assms by simp
    qed
    then show "bit (x AND push_bit n y) p = bit 0 p" by (auto simp: bit_and_iff bit_push_bit_iff)
  qed
  then have "unat x AND unat (push_bit n y) = 0"
    by (simp only: unsigned_and_eq [symmetric]) simp
  then show ?thesis by (simp only: unsigned_or_eq disjunctive_add_eq_or)
qed

lemmas [word_nat] = unat_ucast_64_32 unat_mask32 unat_drop32

lemma sdiv_nonneg: "0 \<le> a \<Longrightarrow> 0 < b \<Longrightarrow> a sdiv b = a div (b :: int)"
  by (simp add: signed_divide_int_def sgn_if)

lemma smod_nonneg: "0 \<le> a \<Longrightarrow> 0 < b \<Longrightarrow> a smod b = a mod (b :: int)"
  using minus_sdiv_mult_eq_smod[of a b] by (simp add: sdiv_nonneg minus_div_mult_eq_mod)

lemma unat_word_of_int_64: "0 \<le> x \<Longrightarrow> x < 2 ^ 64 \<Longrightarrow> unat (word_of_int x :: u64) = nat x"
  by (simp add: unsigned_of_int take_bit_eq_mod)

lemma unat_word_of_int_32: "0 \<le> x \<Longrightarrow> x < 2 ^ 32 \<Longrightarrow> unat (word_of_int x :: u32) = nat x"
  by (simp add: unsigned_of_int take_bit_eq_mod)

lemma length_WriteLE32 [simp]: "length (WriteLE32 x) = 4"
  by (simp add: WriteLE32_def)

lemma bit_byte0: "bit (ucast (ucast (x :: u32) :: u8) :: u32) p \<longleftrightarrow> p < 8 \<and> bit x p"
  by (auto simp: bit_ucast_iff dest: bit_imp_le_length)

lemma ReadLE32_WriteLE32: "ReadLE32 (WriteLE32 x @ rest) = x"
proof (rule bit_word_eqI)
  fix p assume "p < LENGTH(32)"
  then consider "p < 8" | "8 \<le> p" "p < 16" | "16 \<le> p" "p < 24" | "24 \<le> p" "p < 32" by fastforce
  then show "bit (ReadLE32 (WriteLE32 x @ rest)) p = bit x p"
    by cases (auto simp: ReadLE32_def WriteLE32_def bit_or_iff bit_push_bit_iff bit_byte0 bit_drop_bit_eq)
qed

end
