(* ===== verification/Arith_Uint256.thy ===== *)
theory Arith_Uint256
  imports Prelude
begin

text \<open>
  The unsigned big integers of \<^verbatim>\<open>src/src/arith_uint256.h\<close> and \<^verbatim>\<open>src/src/arith_uint256.cpp\<close>. A
  \<open>base_uint\<close> is the array \<open>pn\<close> of 32-bit limbs, least significant first; \<open>WIDTH\<close> is the length of
  the list, 8 for \<open>arith_uint256\<close>. Every operator is the loop of the source over the limbs, with
  the 64-bit accumulator and the carries at their widths. \<open>bu_val\<close> reads a limb array as a natural
  number, and each operator is proved to compute the corresponding operation on numbers modulo
  \<open>2 ^ (32 * WIDTH)\<close>. The last part is the compact encoding of difficulty targets.
\<close>

type_synonym base_uint = "u32 list"

definition WIDTH :: nat where
  "WIDTH = 256 div 32"

subsection \<open>Constructors and unary operators\<close>

definition bu_zero :: base_uint where
  "bu_zero = replicate WIDTH 0"

definition bu_of_u64 :: "u64 \<Rightarrow> base_uint" where
  "bu_of_u64 b = ucast b # ucast (drop_bit 32 b) # replicate (WIDTH - 2) 0"

fun bu_is_zero :: "base_uint \<Rightarrow> bool" where
  "bu_is_zero [] = True"
| "bu_is_zero (x # xs) = (if x \<noteq> 0 then False else bu_is_zero xs)"

definition bu_not :: "base_uint \<Rightarrow> base_uint" where
  "bu_not a = map (\<lambda>x. NOT x) a"

fun bu_inc :: "base_uint \<Rightarrow> base_uint" where
  "bu_inc [] = []"
| "bu_inc (x # xs) = (let y = x + 1 in if y = 0 then y # bu_inc xs else y # xs)"

fun bu_dec :: "base_uint \<Rightarrow> base_uint" where
  "bu_dec [] = []"
| "bu_dec (x # xs) = (let y = x - 1 in if y = -1 then y # bu_dec xs else y # xs)"

definition bu_neg :: "base_uint \<Rightarrow> base_uint" where
  "bu_neg a = bu_inc (bu_not a)"

subsection \<open>Bitwise operators\<close>

definition bu_xor :: "base_uint \<Rightarrow> base_uint \<Rightarrow> base_uint" where
  "bu_xor a b = map2 (\<lambda>x y. x XOR y) a b"

definition bu_and :: "base_uint \<Rightarrow> base_uint \<Rightarrow> base_uint" where
  "bu_and a b = map2 (\<lambda>x y. x AND y) a b"

definition bu_or :: "base_uint \<Rightarrow> base_uint \<Rightarrow> base_uint" where
  "bu_or a b = map2 (\<lambda>x y. x OR y) a b"

subsection \<open>Addition, subtraction, multiplication\<close>

fun bu_add_loop :: "u64 \<Rightarrow> base_uint \<Rightarrow> base_uint \<Rightarrow> base_uint" where
  "bu_add_loop carry (x # xs) (y # ys) =
     (let n = carry + ucast x + ucast y
      in ucast (n AND 0xffffffff) # bu_add_loop (drop_bit 32 n) xs ys)"
| "bu_add_loop carry xs ys = xs"

definition bu_add :: "base_uint \<Rightarrow> base_uint \<Rightarrow> base_uint" where
  "bu_add a b = bu_add_loop 0 a b"

definition bu_sub :: "base_uint \<Rightarrow> base_uint \<Rightarrow> base_uint" where
  "bu_sub a b = bu_add a (bu_neg b)"

fun bu_mul32_loop :: "u64 \<Rightarrow> u32 \<Rightarrow> base_uint \<Rightarrow> base_uint" where
  "bu_mul32_loop carry b32 [] = []"
| "bu_mul32_loop carry b32 (x # xs) =
     (let n = carry + ucast b32 * ucast x
      in ucast (n AND 0xffffffff) # bu_mul32_loop (drop_bit 32 n) b32 xs)"

definition bu_mul32 :: "base_uint \<Rightarrow> u32 \<Rightarrow> base_uint" where
  "bu_mul32 a b32 = bu_mul32_loop 0 b32 a"

text \<open>The inner loop over \<open>i\<close> of the full product works on the limbs \<open>pn[j]\<close>, \<open>pn[j + 1]\<close>, \dots\<close>

fun bu_mul_row :: "u64 \<Rightarrow> u32 \<Rightarrow> base_uint \<Rightarrow> base_uint \<Rightarrow> base_uint" where
  "bu_mul_row carry aj (p # ps) (b # bs) =
     (let n = carry + ucast p + ucast aj * ucast b
      in ucast (n AND 0xffffffff) # bu_mul_row (drop_bit 32 n) aj ps bs)"
| "bu_mul_row carry aj ps bs = ps"

definition bu_mul :: "base_uint \<Rightarrow> base_uint \<Rightarrow> base_uint" where
  "bu_mul a b =
     fold (\<lambda>j pn. take j pn @ bu_mul_row 0 (a ! j) (drop j pn) b)
       [0..<length a] (replicate (length a) 0)"

subsection \<open>Shifts\<close>

definition bu_shl_step :: "base_uint \<Rightarrow> nat \<Rightarrow> nat \<Rightarrow> nat \<Rightarrow> base_uint \<Rightarrow> base_uint" where
  "bu_shl_step a k s i pn =
     (let pn1 = (if i + k + 1 < length a \<and> s \<noteq> 0
                 then pn[i + k + 1 := pn ! (i + k + 1) OR drop_bit (32 - s) (a ! i)] else pn)
      in if i + k < length a then pn1[i + k := pn1 ! (i + k) OR push_bit s (a ! i)] else pn1)"

definition bu_shl :: "base_uint \<Rightarrow> nat \<Rightarrow> base_uint" where
  "bu_shl a shift =
     fold (bu_shl_step a (shift div 32) (shift mod 32)) [0..<length a] (replicate (length a) 0)"

definition bu_shr_step :: "base_uint \<Rightarrow> nat \<Rightarrow> nat \<Rightarrow> nat \<Rightarrow> base_uint \<Rightarrow> base_uint" where
  "bu_shr_step a k s i pn =
     (let pn1 = (if k + 1 \<le> i \<and> s \<noteq> 0
                 then pn[i - k - 1 := pn ! (i - k - 1) OR push_bit (32 - s) (a ! i)] else pn)
      in if k \<le> i then pn1[i - k := pn1 ! (i - k) OR drop_bit s (a ! i)] else pn1)"

definition bu_shr :: "base_uint \<Rightarrow> nat \<Rightarrow> base_uint" where
  "bu_shr a shift =
     fold (bu_shr_step a (shift div 32) (shift mod 32)) [0..<length a] (replicate (length a) 0)"

subsection \<open>Comparison and bit length\<close>

fun compare_loop :: "base_uint \<Rightarrow> base_uint \<Rightarrow> int" where
  "compare_loop (x # xs) (y # ys) =
     (if x < y then -1 else if x > y then 1 else compare_loop xs ys)"
| "compare_loop xs ys = 0"

definition CompareTo :: "base_uint \<Rightarrow> base_uint \<Rightarrow> int" where
  "CompareTo a b = compare_loop (rev a) (rev b)"

definition EqualTo :: "base_uint \<Rightarrow> u64 \<Rightarrow> bool" where
  "EqualTo a b =
     (if \<not> bu_is_zero (rev (drop 2 a)) then False
      else if ucast (a ! 1) \<noteq> drop_bit 32 b then False
      else if ucast (a ! 0) \<noteq> b AND 0xffffffff then False
      else True)"

text \<open>The source scans the limbs from the top one and, in the first non-zero limb, the bits from
  31 down to 1; bit 0 is the only one left if none of them is set.\<close>

fun limb_bits_loop :: "u32 \<Rightarrow> nat \<Rightarrow> nat" where
  "limb_bits_loop x 0 = 1"
| "limb_bits_loop x (Suc n) =
     (if x AND push_bit (Suc n) 1 \<noteq> 0 then Suc n + 1 else limb_bits_loop x n)"

fun bits_loop :: "base_uint \<Rightarrow> nat" where
  "bits_loop [] = 0"
| "bits_loop (x # xs) = (if x \<noteq> 0 then 32 * length xs + limb_bits_loop x 31 else bits_loop xs)"

definition bu_bits :: "base_uint \<Rightarrow> nat" where
  "bu_bits a = bits_loop (rev a)"

definition GetLow64 :: "base_uint \<Rightarrow> u64" where
  "GetLow64 a = ucast (a ! 0) OR push_bit 32 (ucast (a ! 1))"

subsection \<open>Division\<close>

datatype uint_error = Division_by_zero

text \<open>The loop runs for \<open>shift\<close>, \<open>shift - 1\<close>, \dots, 0; \<open>pn\<close> is the quotient under construction.\<close>

fun bu_div_loop :: "nat \<Rightarrow> base_uint \<Rightarrow> base_uint \<Rightarrow> base_uint \<Rightarrow> base_uint" where
  "bu_div_loop shift num dv pn =
     (let (num', pn') =
            (if CompareTo num dv \<ge> 0
             then (bu_sub num dv, pn[shift div 32 := pn ! (shift div 32) OR push_bit (shift mod 32) 1])
             else (num, pn))
      in case shift of
           0 \<Rightarrow> pn'
         | Suc s \<Rightarrow> bu_div_loop s num' (bu_shr dv 1) pn')"

definition bu_div :: "base_uint \<Rightarrow> base_uint \<Rightarrow> uint_error + base_uint" where
  "bu_div a b =
     (let num_bits = bu_bits a; div_bits = bu_bits b; quot = replicate (length a) 0
      in if div_bits = 0 then Inl Division_by_zero
         else if div_bits > num_bits then Inr quot
         else let shift = num_bits - div_bits
              in Inr (bu_div_loop shift a (bu_shl b shift) quot))"

declare bu_div_loop.simps [simp del]

subsection \<open>The compact format of difficulty targets\<close>

definition SetCompact :: "u32 \<Rightarrow> base_uint \<times> bool \<times> bool" where
  "SetCompact nCompact =
     (let nSize = unat (drop_bit 24 nCompact);
          nWord0 = nCompact AND 0x007fffff;
          nWord = (if nSize \<le> 3 then drop_bit (8 * (3 - nSize)) nWord0 else nWord0);
          this = (if nSize \<le> 3 then bu_of_u64 (ucast nWord)
                  else bu_shl (bu_of_u64 (ucast nWord)) (8 * (nSize - 3)));
          fNegative = (nWord \<noteq> 0 \<and> nCompact AND 0x00800000 \<noteq> 0);
          fOverflow = (nWord \<noteq> 0 \<and> (nSize > 34 \<or> (nWord > 0xff \<and> nSize > 33)
                                    \<or> (nWord > 0xffff \<and> nSize > 32)))
      in (this, fNegative, fOverflow))"

text \<open>\<open>None\<close> is a failed assertion of \<open>GetCompact\<close>.\<close>

definition GetCompact :: "base_uint \<Rightarrow> bool \<Rightarrow> u32 option" where
  "GetCompact a fNegative =
     (let nSize0 = (bu_bits a + 7) div 8;
          nCompact0 = (if nSize0 \<le> 3 then ucast (push_bit (8 * (3 - nSize0)) (GetLow64 a))
                       else ucast (GetLow64 (bu_shr a (8 * (nSize0 - 3)))));
          sgn = (nCompact0 AND 0x00800000 \<noteq> 0);
          nCompact1 = (if sgn then drop_bit 8 nCompact0 else nCompact0) :: u32;
          nSize = (if sgn then nSize0 + 1 else nSize0)
      in if nCompact1 AND NOT 0x007fffff \<noteq> 0 then None
         else if \<not> nSize < 256 then None
         else let nCompact2 = nCompact1 OR push_bit 24 (of_nat nSize)
              in Some (nCompact2 OR
                       (if fNegative \<and> nCompact2 AND 0x007fffff \<noteq> 0 then 0x00800000 else 0)))"

subsection \<open>Conversion to and from the opaque 256-bit blob\<close>

fun ArithToUint256 :: "base_uint \<Rightarrow> bytes" where
  "ArithToUint256 [] = []"
| "ArithToUint256 (x # xs) = WriteLE32 x @ ArithToUint256 xs"

definition UintToArith256 :: "bytes \<Rightarrow> base_uint" where
  "UintToArith256 a = map (\<lambda>x. ReadLE32 (drop (x * 4) a)) [0..<WIDTH]"

subsection \<open>The number a limb array stands for\<close>

fun bu_val :: "base_uint \<Rightarrow> nat" where
  "bu_val [] = 0"
| "bu_val (x # xs) = unat x + 4294967296 * bu_val xs"

subsection \<open>Limb arithmetic on numbers\<close>

lemma limb_step:
  fixes n r :: nat
  shows "n mod b + b * ((n div b + r) mod c) = (n + b * r) mod (b * c)"
proof (cases "b = 0")
  case False
  then show ?thesis by (simp add: mod_mult2_eq div_add1_eq algebra_simps)
qed simp

lemma unat_low_limb: "unat (ucast (n AND 0xffffffff :: u64) :: u32) = unat n mod 4294967296"
  by (simp only: unat_ucast_64_32 unat_mask32) simp

lemma bu_val_less: "bu_val xs < 2 ^ (32 * length xs)"
proof (induction xs)
  case (Cons x xs)
  have "unat x + 4294967296 * bu_val xs < 4294967296 * (bu_val xs + 1)"
    using unat_lt_32 [of x] by simp
  also have "\<dots> \<le> 4294967296 * 2 ^ (32 * length xs)"
    using Cons.IH by (intro mult_le_mono) auto
  finally show ?case by (simp add: power_add)
qed simp

lemma pow32_Suc: "(2::nat) ^ (32 * Suc n) = 4294967296 * 2 ^ (32 * n)"
  by (simp add: power_add)

text \<open>One step of every carry chain: the low half of \<open>n\<close> is stored, the high half carried on.\<close>

lemma bu_val_carry_step:
  assumes "bu_val zs = (unat (drop_bit 32 n) + r) mod 2 ^ (32 * k)"
  shows "bu_val (ucast (n AND 0xffffffff :: u64) # zs) = (unat n + 4294967296 * r) mod 2 ^ (32 * Suc k)"
  by (simp only: bu_val.simps assms unat_low_limb unat_drop32 limb_step pow32_Suc)

lemma length_bu_add_loop [simp]: "length (bu_add_loop c xs ys) = length xs"
  by (induction c xs ys rule: bu_add_loop.induct) (auto simp: Let_def)

lemma bu_val_add_loop:
  assumes "length xs = length ys" and "unat c \<le> 1"
  shows "bu_val (bu_add_loop c xs ys) = (unat c + bu_val xs + bu_val ys) mod 2 ^ (32 * length xs)"
  using assms
proof (induction xs ys arbitrary: c rule: list_induct2)
  case (Cons x xs y ys)
  define n where "n = c + ucast x + ucast y"
  have un: "unat n = unat c + unat x + unat y"
    using Cons.prems unat_lt_32 [of x] unat_lt_32 [of y]
    by (simp add: n_def unat_add_64)
  have le: "unat (drop_bit 32 n) \<le> 1"
    using un Cons.prems unat_lt_32 [of x] unat_lt_32 [of y] by (simp add: unat_drop32)
  have "bu_add_loop c (x # xs) (y # ys) = ucast (n AND 0xffffffff) # bu_add_loop (drop_bit 32 n) xs ys"
    by (simp add: n_def Let_def)
  with bu_val_carry_step [OF Cons.IH [OF le, unfolded add.assoc]]
  show ?case by (simp only: un length_Cons) (simp only: bu_val.simps distrib_left add_ac)
qed simp

lemma length_bu_add [simp]: "length (bu_add a b) = length a"
  by (simp add: bu_add_def)

lemma bu_val_add:
  "length a = length b \<Longrightarrow> bu_val (bu_add a b) = (bu_val a + bu_val b) mod 2 ^ (32 * length a)"
  by (simp add: bu_add_def bu_val_add_loop)

lemma length_bu_not [simp]: "length (bu_not a) = length a"
  by (simp add: bu_not_def)

lemma unat_not_32: "unat (NOT x :: u32) = 4294967295 - unat x"
proof -
  have "NOT x = -1 - x" by (simp add: not_eq_complement)
  moreover have "x \<le> -1" by (simp add: word_order.extremum)
  ultimately show ?thesis by (simp add: unat_sub unsigned_minus_1_eq_mask mask_eq_exp_minus_1)
qed

lemma bu_val_not: "bu_val (bu_not a) = 2 ^ (32 * length a) - 1 - bu_val a"
proof (induction a)
  case (Cons x a)
  have "unat (NOT x) + unat x = 4294967295"
    using unat_lt_32 [of x] by (simp add: unat_not_32)
  moreover have "bu_val (bu_not a) + bu_val a + 1 = 2 ^ (32 * length a)"
    using Cons.IH bu_val_less [of a] by simp
  ultimately have "bu_val (bu_not (x # a)) + bu_val (x # a) + 1 = 2 ^ (32 * length (x # a))"
    by (simp only: bu_not_def list.map bu_val.simps length_Cons pow32_Suc)
  then show ?case by simp
qed (simp add: bu_not_def)

lemma length_bu_inc [simp]: "length (bu_inc a) = length a"
  by (induction a) (auto simp: Let_def)

lemma unat_inc_32: "unat (x + 1 :: u32) = (if x + 1 = 0 then 0 else unat x + 1)"
proof (cases "x + 1 = 0")
  case False
  then have "1 + x \<noteq> 0" by (simp add: add.commute [of 1 x])
  then have "unat (1 + x) = Suc (unat x)" by (rule unatSuc)
  with False show ?thesis by (simp only: add.commute [of 1 x]) simp
qed simp

lemma bu_val_inc: "bu_val (bu_inc a) = (bu_val a + 1) mod 2 ^ (32 * length a)"
proof (induction a)
  case (Cons x a)
  show ?case
  proof (cases "x + 1 = 0")
    case True
    then have "x = -1" by (simp add: eq_neg_iff_add_eq_0)
    then have ux: "unat x = 4294967295"
      by (simp add: unsigned_minus_1_eq_mask mask_eq_exp_minus_1)
    then have "(bu_val (x # a) + 1) mod 2 ^ (32 * length (x # a)) =
        (4294967296 * (bu_val a + 1)) mod (4294967296 * 2 ^ (32 * length a))"
      by (simp only: length_Cons pow32_Suc) simp
    also have "\<dots> = 4294967296 * ((bu_val a + 1) mod 2 ^ (32 * length a))"
      by (rule mult_mod_right [symmetric])
    finally show ?thesis using True Cons.IH by simp
  next
    case False
    then have "bu_val (bu_inc (x # a)) = bu_val (x # a) + 1"
      by (simp add: Let_def unat_inc_32)
    moreover have "bu_val (bu_inc (x # a)) < 2 ^ (32 * length (x # a))"
      using bu_val_less [of "bu_inc (x # a)"] by (simp only: length_bu_inc)
    ultimately show ?thesis by simp
  qed
qed simp

lemma bu_val_neg: "bu_val (bu_neg a) = (2 ^ (32 * length a) - bu_val a) mod 2 ^ (32 * length a)"
  using bu_val_less [of a] by (simp add: bu_neg_def bu_val_inc bu_val_not Suc_diff_Suc)

lemma length_bu_neg [simp]: "length (bu_neg a) = length a"
  by (simp add: bu_neg_def)

lemma length_bu_sub [simp]: "length (bu_sub a b) = length a"
  by (simp add: bu_sub_def)

lemma bu_val_sub:
  assumes "length a = length b"
  shows "bu_val (bu_sub a b) = (bu_val a + (2 ^ (32 * length a) - bu_val b)) mod 2 ^ (32 * length a)"
  using assms by (simp add: bu_sub_def bu_val_add bu_val_neg mod_add_right_eq)

lemma bu_val_sub_le:
  assumes "length a = length b" and "bu_val b \<le> bu_val a"
  shows "bu_val (bu_sub a b) = bu_val a - bu_val b"
proof -
  have "bu_val a + (2 ^ (32 * length a) - bu_val b) = 2 ^ (32 * length a) + (bu_val a - bu_val b)"
    using assms bu_val_less [of b] by simp
  moreover have "bu_val a - bu_val b < 2 ^ (32 * length a)"
    using bu_val_less [of a] by simp
  ultimately show ?thesis by (simp add: bu_val_sub assms(1))
qed

lemma length_bu_dec [simp]: "length (bu_dec a) = length a"
  by (induction a) (auto simp: Let_def)

lemma bu_dec_inc: "bu_dec (bu_inc a) = a"
  by (induction a) (auto simp: Let_def eq_neg_iff_add_eq_0 [symmetric])

lemma bu_inc_dec: "bu_inc (bu_dec a) = a"
  by (induction a) (auto simp: Let_def)

lemma length_bu_mul32_loop [simp]: "length (bu_mul32_loop c b xs) = length xs"
  by (induction xs arbitrary: c) (auto simp: Let_def)

lemma mul_limb_bound:
  fixes a b c d :: nat
  assumes "a < 4294967296" "b < 4294967296" "c < 4294967296" "d < 4294967296"
  shows "a + b + c * d < 18446744073709551616"
proof -
  have "c * d \<le> 4294967295 * 4294967295" using assms by (intro mult_le_mono) auto
  with assms show ?thesis by simp
qed

lemma bu_val_mul32_loop:
  assumes "unat c < 4294967296"
  shows "bu_val (bu_mul32_loop c b xs) = (unat c + unat b * bu_val xs) mod 2 ^ (32 * length xs)"
  using assms
proof (induction xs arbitrary: c)
  case (Cons x xs)
  define n where "n = c + ucast b * ucast x"
  have bd: "unat c + unat b * unat x < 18446744073709551616"
    using mul_limb_bound [of "unat c" 0 "unat b" "unat x"] Cons.prems unat_lt_32 by simp
  then have un: "unat n = unat c + unat b * unat x"
    by (simp add: n_def unat_add_64 unat_mult_64)
  have lt: "unat (drop_bit 32 n) < 4294967296"
    using unat_lt_64 [of n] by (simp add: unat_drop32 less_mult_imp_div_less)
  have "bu_mul32_loop c b (x # xs) = ucast (n AND 0xffffffff) # bu_mul32_loop (drop_bit 32 n) b xs"
    by (simp add: n_def Let_def)
  with bu_val_carry_step [OF Cons.IH [OF lt]]
  show ?case
    by (simp only: un length_Cons) (simp only: bu_val.simps distrib_left add_ac mult_ac)
qed simp

lemma length_bu_mul32 [simp]: "length (bu_mul32 a b) = length a"
  by (simp add: bu_mul32_def)

lemma bu_val_mul32: "bu_val (bu_mul32 a b) = (bu_val a * unat b) mod 2 ^ (32 * length a)"
  by (simp add: bu_mul32_def bu_val_mul32_loop mult.commute)

lemma length_bu_mul_row [simp]: "length (bu_mul_row c a ps bs) = length ps"
  by (induction c a ps bs rule: bu_mul_row.induct) (auto simp: Let_def)

lemma bu_val_mul_row:
  assumes "unat c < 4294967296" and "length ps \<le> length bs"
  shows "bu_val (bu_mul_row c a ps bs) = (unat c + bu_val ps + unat a * bu_val bs) mod 2 ^ (32 * length ps)"
  using assms
proof (induction c a ps bs rule: bu_mul_row.induct)
  case (1 c a p ps b bs)
  define n where "n = c + ucast p + ucast a * ucast b"
  have bd: "unat c + unat p + unat a * unat b < 18446744073709551616"
    using mul_limb_bound "1.prems" unat_lt_32 by blast
  then have un: "unat n = unat c + unat p + unat a * unat b"
    by (simp add: n_def unat_add_64 unat_mult_64)
  have lt: "unat (drop_bit 32 n) < 4294967296"
    using unat_lt_64 [of n] by (simp add: unat_drop32 less_mult_imp_div_less)
  have row: "bu_mul_row c a (p # ps) (b # bs) = ucast (n AND 0xffffffff) # bu_mul_row (drop_bit 32 n) a ps bs"
    by (simp add: n_def Let_def)
  have "bu_val (bu_mul_row (drop_bit 32 n) a ps bs) =
      (unat (drop_bit 32 n) + (bu_val ps + unat a * bu_val bs)) mod 2 ^ (32 * length ps)"
    using "1.IH" [OF n_def lt] "1.prems" by (simp add: add.assoc)
  from bu_val_carry_step [OF this] show ?case
    by (simp only: row un length_Cons) (simp only: bu_val.simps distrib_left distrib_right add_ac mult_ac)
qed auto

lemma bu_val_append: "bu_val (xs @ ys) = bu_val xs + 2 ^ (32 * length xs) * bu_val ys"
  by (induction xs) (simp_all add: pow32_Suc algebra_simps power_add)

lemma bu_val_replicate_0 [simp]: "bu_val (replicate n 0) = 0"
  by (induction n) simp_all

lemma bu_val_take_drop: "bu_val (take j pn) + 2 ^ (32 * j) * bu_val (drop j pn) = bu_val pn"
  if "j \<le> length pn"
  using that bu_val_append [of "take j pn" "drop j pn"] by simp

lemma bu_val_take_Suc:
  "j < length a \<Longrightarrow> bu_val (take (Suc j) a) = bu_val (take j a) + 2 ^ (32 * j) * unat (a ! j)"
  by (simp add: take_Suc_conv_app_nth bu_val_append)

lemma mod_pow_mult:
  fixes p q x y :: nat
  assumes "x < p"
  shows "x + p * (y mod q) = (x + p * y) mod (p * q)"
proof -
  have "p > 0" using assms by simp
  then have "(x + p * y) div p = y" "(x + p * y) mod p = x" using assms by simp_all
  then show ?thesis by (simp add: mod_mult2_eq)
qed

lemma bu_mul_fold:
  assumes len: "length a = length b" and "j \<le> length a"
  defines "step \<equiv> (\<lambda>j pn. take j pn @ bu_mul_row 0 (a ! j) (drop j pn) b)"
  shows "length (fold step [0..<j] (replicate (length a) 0)) = length a \<and>
    bu_val (fold step [0..<j] (replicate (length a) 0)) =
      (bu_val (take j a) * bu_val b) mod 2 ^ (32 * length a)"
  using assms(2)
proof (induction j)
  case (Suc j)
  define pn where "pn = fold step [0..<j] (replicate (length a) 0)"
  have IH: "length pn = length a" "bu_val pn = (bu_val (take j a) * bu_val b) mod 2 ^ (32 * length a)"
    using Suc by (simp_all add: pn_def)
  have pw: "(2::nat) ^ (32 * length a) = 2 ^ (32 * j) * 2 ^ (32 * (length a - j))"
    using Suc.prems by (simp add: power_add [symmetric])
  have "bu_val (step j pn) = bu_val (take j pn) +
      2 ^ (32 * j) * ((bu_val (drop j pn) + unat (a ! j) * bu_val b) mod 2 ^ (32 * (length a - j)))"
    using Suc.prems IH(1) len by (simp add: step_def bu_val_append bu_val_mul_row min_def)
  also have "\<dots> = (bu_val (take j pn) + 2 ^ (32 * j) * (bu_val (drop j pn) + unat (a ! j) * bu_val b))
      mod 2 ^ (32 * length a)"
    using bu_val_less [of "take j pn"] Suc.prems IH(1) by (subst mod_pow_mult) (simp_all add: pw min_def)
  also have "bu_val (take j pn) + 2 ^ (32 * j) * (bu_val (drop j pn) + unat (a ! j) * bu_val b) =
      bu_val pn + 2 ^ (32 * j) * unat (a ! j) * bu_val b"
    using bu_val_take_drop [of j pn] Suc.prems IH(1) by (simp add: distrib_left)
  also have "\<dots> mod 2 ^ (32 * length a) = (bu_val (take (Suc j) a) * bu_val b) mod 2 ^ (32 * length a)"
    using Suc.prems by (simp add: IH(2) bu_val_take_Suc mod_add_left_eq distrib_right)
  finally have "bu_val (step j pn) = (bu_val (take (Suc j) a) * bu_val b) mod 2 ^ (32 * length a)" .
  moreover have "length (step j pn) = length a" using IH(1) Suc.prems by (simp add: step_def)
  ultimately show ?case by (simp add: pn_def)
qed simp

lemma length_bu_mul [simp]: "length a = length b \<Longrightarrow> length (bu_mul a b) = length a"
  using bu_mul_fold [of a b "length a"] by (simp add: bu_mul_def)

lemma bu_val_mul:
  "length a = length b \<Longrightarrow> bu_val (bu_mul a b) = (bu_val a * bu_val b) mod 2 ^ (32 * length a)"
  using bu_mul_fold [of a b "length a"] by (simp add: bu_mul_def)

subsection \<open>Shifts on numbers\<close>

lemma bit_add_pow2:
  fixes a v :: nat
  assumes "a < 2 ^ n"
  shows "bit (a + 2 ^ n * v) p \<longleftrightarrow> (if p < n then bit a p else bit v (p - n))"
proof (cases "p < n")
  case True
  then have "(2::nat) ^ n = 2 ^ p * 2 ^ (n - p)" by (simp add: power_add [symmetric])
  then have "(a + 2 ^ n * v) div 2 ^ p = a div 2 ^ p + 2 ^ (n - p) * v"
    by (simp add: mult.assoc)
  with True show ?thesis by (simp add: bit_iff_odd)
next
  case False
  then have "(2::nat) ^ p = 2 ^ n * 2 ^ (p - n)" by (simp add: power_add [symmetric])
  with assms False show ?thesis by (simp add: bit_iff_odd div_mult2_eq)
qed

lemma bit_bu_val:
  "bit (bu_val xs) p \<longleftrightarrow> p div 32 < length xs \<and> bit (xs ! (p div 32)) (p mod 32)"
proof (induction xs arbitrary: p)
  case (Cons x xs)
  have b: "bit (unat x + 4294967296 * bu_val xs) p \<longleftrightarrow>
      (if p < 32 then bit (unat x) p else bit (bu_val xs) (p - 32))"
    using bit_add_pow2 [of "unat x" 32 "bu_val xs" p] unat_lt_32 [of x] by simp
  show ?case
  proof (cases "p < 32")
    case True
    with b show ?thesis by (simp add: bit_unsigned_iff)
  next
    case False
    then obtain q where "p = q + 32" using le_Suc_ex by (metis add.commute not_less)
    moreover have "(q + 32) div 32 = Suc (q div 32)" by simp
    ultimately show ?thesis using b Cons.IH [of q] by simp
  qed
qed simp

lemma length_fold_inv:
  "(\<And>i pn. length (f i pn) = length pn) \<Longrightarrow> length (fold f is pn) = length pn"
  by (induction "is" arbitrary: pn) auto

lemma length_bu_shl_step [simp]: "length (bu_shl_step a k s i pn) = length pn"
  by (simp add: bu_shl_step_def Let_def)

lemma length_bu_shr_step [simp]: "length (bu_shr_step a k s i pn) = length pn"
  by (simp add: bu_shr_step_def Let_def)

lemma length_bu_shl [simp]: "length (bu_shl a s) = length a"
  by (simp add: bu_shl_def length_fold_inv)

lemma length_bu_shr [simp]: "length (bu_shr a s) = length a"
  by (simp add: bu_shr_def length_fold_inv)

text \<open>The limb \<open>j\<close> after the first \<open>m\<close> iterations of the left shift.\<close>

lemma bu_shl_fold:
  assumes "j < length a" and "m \<le> length a"
  shows "fold (bu_shl_step a k s) [0..<m] (replicate (length a) 0) ! j =
    (if k \<le> j \<and> j - k < m then push_bit s (a ! (j - k)) else 0) OR
    (if s \<noteq> 0 \<and> k < j \<and> j - k - 1 < m then drop_bit (32 - s) (a ! (j - k - 1)) else 0)"
  using assms
proof (induction m)
  case (Suc m)
  define pn where "pn = fold (bu_shl_step a k s) [0..<m] (replicate (length a) 0)"
  have len: "length pn = length a" by (simp add: pn_def length_fold_inv)
  have IH: "pn ! j = (if k \<le> j \<and> j - k < m then push_bit s (a ! (j - k)) else 0) OR
    (if s \<noteq> 0 \<and> k < j \<and> j - k - 1 < m then drop_bit (32 - s) (a ! (j - k - 1)) else 0)"
    using Suc by (simp add: pn_def)
  have "bu_shl_step a k s m pn ! j =
      (if k \<le> j \<and> j - k < Suc m then push_bit s (a ! (j - k)) else 0) OR
      (if s \<noteq> 0 \<and> k < j \<and> j - k - 1 < Suc m then drop_bit (32 - s) (a ! (j - k - 1)) else 0)"
  proof -
    consider "j = m + k" | "j = m + k + 1" | "j \<noteq> m + k" "j \<noteq> m + k + 1" by blast
    then show ?thesis
    proof cases
      case 1
      with Suc.prems IH len show ?thesis
        by (auto simp: bu_shl_step_def Let_def nth_list_update or.commute)
    next
      case 2
      with Suc.prems IH len show ?thesis
        by (auto simp: bu_shl_step_def Let_def nth_list_update or.commute)
    next
      case 3
      then have "(k \<le> j \<and> j - k < Suc m) = (k \<le> j \<and> j - k < m)"
        "(k < j \<and> j - k - 1 < Suc m) = (k < j \<and> j - k - 1 < m)" by auto
      with 3 IH show ?thesis
        by (auto simp: bu_shl_step_def Let_def nth_list_update)
    qed
  qed
  then show ?case by (simp add: pn_def)
qed simp

lemma bu_shl_nth:
  "j < length a \<Longrightarrow> bu_shl a (32 * k + s) ! j =
    (if k \<le> j then push_bit s (a ! (j - k)) else 0) OR
    (if s \<noteq> 0 \<and> k < j then drop_bit (32 - s) (a ! (j - k - 1)) else 0)" if "s < 32"
  using that bu_shl_fold [of j a "length a" k s] by (auto simp: bu_shl_def)

lemma limb_index: "r < 32 \<Longrightarrow> (32 * m + r) div 32 = (m::nat) \<and> (32 * m + r) mod 32 = r"
  by simp

lemma div_mod_32:
  fixes p k s :: nat
  assumes "s < 32" and "32 * k + s \<le> p"
  shows "s \<le> p mod 32 \<Longrightarrow> (p - (32 * k + s)) div 32 = p div 32 - k \<and> (p - (32 * k + s)) mod 32 = p mod 32 - s \<and> k \<le> p div 32"
    and "p mod 32 < s \<Longrightarrow> (p - (32 * k + s)) div 32 = p div 32 - k - 1 \<and>
      (p - (32 * k + s)) mod 32 = p mod 32 + (32 - s) \<and> k < p div 32"
proof -
  define j q where "j = p div 32" and "q = p mod 32"
  have p: "p = 32 * j + q" and q: "q < 32" by (simp_all add: j_def q_def)
  have jq: "(32 * j + q) div 32 = j" "(32 * j + q) mod 32 = q" using q by simp_all
  {
    assume "s \<le> p mod 32"
    then have sq: "s \<le> q" by (simp add: q_def)
    with assms p q have kj: "k \<le> j" by linarith
    have "p - (32 * k + s) = 32 * (j - k) + (q - s)"
      using sq kj by (simp add: p algebra_simps diff_mult_distrib2)
    then show "(p - (32 * k + s)) div 32 = p div 32 - k \<and> (p - (32 * k + s)) mod 32 = p mod 32 - s \<and> k \<le> p div 32"
      using q kj by (simp add: j_def [symmetric] q_def [symmetric])
  next
    assume "p mod 32 < s"
    then have sq: "q < s" by (simp add: q_def)
    with assms p have kj: "k < j" by linarith
    then obtain d where d: "j = Suc (k + d)" using less_imp_Suc_add by blast
    have "p - (32 * k + s) = 32 * d + (q + (32 - s))"
      using sq assms(1) by (simp add: p d algebra_simps)
    moreover have "q + (32 - s) < 32" using sq assms(1) by simp
    ultimately have "(p - (32 * k + s)) div 32 = d" "(p - (32 * k + s)) mod 32 = q + (32 - s)" by simp_all
    then show "(p - (32 * k + s)) div 32 = p div 32 - k - 1 \<and>
      (p - (32 * k + s)) mod 32 = p mod 32 + (32 - s) \<and> k < p div 32"
      using d by (simp add: j_def [symmetric] q_def [symmetric])
  }
qed

lemma bu_val_shl: "bu_val (bu_shl a n) = (bu_val a * 2 ^ n) mod 2 ^ (32 * length a)"
proof -
  define k s where "k = n div 32" and "s = n mod 32"
  have n: "n = 32 * k + s" and s: "s < 32" by (simp_all add: k_def s_def)
  have "bu_val (bu_shl a n) = take_bit (32 * length a) (push_bit n (bu_val a))"
  proof (rule bit_eqI)
    fix p :: nat
    define j q where "j = p div 32" and "q = p mod 32"
    have pj: "p = 32 * j + q" and q: "q < 32" by (simp_all add: j_def q_def)
    have plt: "p < 32 * length a \<longleftrightarrow> j < length a" by (auto simp: j_def)
    have bl: "bit (bu_val (bu_shl a n)) p \<longleftrightarrow> j < length a \<and>
        ((k \<le> j \<and> s \<le> q \<and> bit (a ! (j - k)) (q - s)) \<or>
         (s \<noteq> 0 \<and> k < j \<and> bit (a ! (j - k - 1)) (32 - s + q)))"
    proof (cases "j < length a")
      case True
      then have nth: "bu_shl a n ! j = (if k \<le> j then push_bit s (a ! (j - k)) else 0) OR
          (if s \<noteq> 0 \<and> k < j then drop_bit (32 - s) (a ! (j - k - 1)) else 0)"
        unfolding n by (rule bu_shl_nth [OF s])
      have "bit (bu_val (bu_shl a n)) p \<longleftrightarrow> bit (bu_shl a n ! j) q"
        using True by (simp add: bit_bu_val j_def q_def)
      with True q show ?thesis
        unfolding nth by (simp add: bit_or_iff bit_push_bit_iff bit_drop_bit_eq)
    qed (simp add: bit_bu_val j_def)
    have big: "q \<ge> s \<Longrightarrow> s \<noteq> 0 \<Longrightarrow> \<not> bit (w :: u32) (32 - s + q)" for w
      using s bit_imp_le_length [of w "32 - s + q"] by auto
    show "bit (bu_val (bu_shl a n)) p \<longleftrightarrow> bit (take_bit (32 * length a) (push_bit n (bu_val a))) p"
    proof (cases "n \<le> p")
      case False
      then have "\<not> (k \<le> j \<and> s \<le> q)" "\<not> k < j" using n pj s by auto
      with False show ?thesis by (auto simp: bl bit_take_bit_iff bit_push_bit_iff)
    next
      case True
      have rhs: "bit (take_bit (32 * length a) (push_bit n (bu_val a))) p \<longleftrightarrow>
          j < length a \<and> (p - n) div 32 < length a \<and> bit (a ! ((p - n) div 32)) ((p - n) mod 32)"
        using True by (simp add: bit_take_bit_iff bit_push_bit_iff bit_bu_val plt)
      show ?thesis
      proof (cases "s \<le> q")
        case sq: True
        with div_mod_32(1) [OF s, of k p] True
        have dm: "(p - n) div 32 = j - k" "(p - n) mod 32 = q - s" and "k \<le> j"
          by (simp_all add: n j_def q_def)
        then show ?thesis using sq big unfolding bl rhs dm by auto
      next
        case sq: False
        with div_mod_32(2) [OF s, of k p] True
        have dm: "(p - n) div 32 = j - k - 1" "(p - n) mod 32 = 32 - s + q" and "k < j"
          by (simp_all add: n j_def q_def)
        then show ?thesis using sq unfolding bl rhs dm by auto
      qed
    qed
  qed
  then show ?thesis by (simp add: take_bit_eq_mod push_bit_eq_mult)
qed

lemma bu_shr_fold:
  assumes "j < length a" and "m \<le> length a"
  shows "fold (bu_shr_step a k s) [0..<m] (replicate (length a) 0) ! j =
    (if j + k < m then drop_bit s (a ! (j + k)) else 0) OR
    (if s \<noteq> 0 \<and> j + k + 1 < m then push_bit (32 - s) (a ! (j + k + 1)) else 0)"
  using assms
proof (induction m)
  case (Suc m)
  define pn where "pn = fold (bu_shr_step a k s) [0..<m] (replicate (length a) 0)"
  have len: "length pn = length a" by (simp add: pn_def length_fold_inv)
  have IH: "pn ! j = (if j + k < m then drop_bit s (a ! (j + k)) else 0) OR
    (if s \<noteq> 0 \<and> j + k + 1 < m then push_bit (32 - s) (a ! (j + k + 1)) else 0)"
    using Suc by (simp add: pn_def)
  have "bu_shr_step a k s m pn ! j =
      (if j + k < Suc m then drop_bit s (a ! (j + k)) else 0) OR
      (if s \<noteq> 0 \<and> j + k + 1 < Suc m then push_bit (32 - s) (a ! (j + k + 1)) else 0)"
  proof -
    consider "m = j + k" | "m = j + k + 1" | "m \<noteq> j + k" "m \<noteq> j + k + 1" by blast
    then show ?thesis
    proof cases
      case 1
      with Suc.prems IH len show ?thesis
        by (auto simp: bu_shr_step_def Let_def nth_list_update or.commute)
    next
      case 2
      with Suc.prems IH len show ?thesis
        by (auto simp: bu_shr_step_def Let_def nth_list_update or.commute)
    next
      case 3
      then have "(j + k < Suc m) = (j + k < m)" "(j + k + 1 < Suc m) = (j + k + 1 < m)" by auto
      with 3 IH show ?thesis
        by (auto simp: bu_shr_step_def Let_def nth_list_update)
    qed
  qed
  then show ?case by (simp add: pn_def)
qed simp

lemma bu_shr_nth:
  assumes "s < 32" and "j < length a"
  shows "bu_shr a (32 * k + s) ! j =
    (if j + k < length a then drop_bit s (a ! (j + k)) else 0) OR
    (if s \<noteq> 0 \<and> j + k + 1 < length a then push_bit (32 - s) (a ! (j + k + 1)) else 0)"
  using assms bu_shr_fold [of j a "length a" k s] by (auto simp: bu_shr_def)

lemma div_mod_add_32:
  fixes p k s :: nat
  assumes "s < 32"
  shows "s + p mod 32 < 32 \<Longrightarrow> (p + (32 * k + s)) div 32 = p div 32 + k \<and> (p + (32 * k + s)) mod 32 = s + p mod 32"
    and "32 \<le> s + p mod 32 \<Longrightarrow> (p + (32 * k + s)) div 32 = p div 32 + k + 1 \<and>
      (p + (32 * k + s)) mod 32 = p mod 32 - (32 - s)"
proof -
  define j q where "j = p div 32" and "q = p mod 32"
  have p: "p = 32 * j + q" and q: "q < 32" by (simp_all add: j_def q_def)
  {
    assume lt: "s + p mod 32 < 32"
    have e: "p + (32 * k + s) = 32 * (j + k) + (s + q)" by (simp add: p)
    have "s + q < 32" using lt by (simp add: q_def)
    from limb_index [OF this, of "j + k"] show "(p + (32 * k + s)) div 32 = p div 32 + k \<and> (p + (32 * k + s)) mod 32 = s + p mod 32"
      unfolding e j_def q_def .
  next
    assume "32 \<le> s + p mod 32"
    then have ge: "32 \<le> s + q" by (simp add: q_def)
    have e: "p + (32 * k + s) = 32 * (j + k + 1) + (q - (32 - s))" using ge q assms by (simp add: p)
    have "q - (32 - s) < 32" using q by simp
    from limb_index [OF this, of "j + k + 1"] show "(p + (32 * k + s)) div 32 = p div 32 + k + 1 \<and>
      (p + (32 * k + s)) mod 32 = p mod 32 - (32 - s)"
      unfolding e j_def q_def .
  }
qed

lemma bu_val_shr: "bu_val (bu_shr a n) = bu_val a div 2 ^ n"
proof -
  define k s where "k = n div 32" and "s = n mod 32"
  have n: "n = 32 * k + s" and s: "s < 32" by (simp_all add: k_def s_def)
  have "bu_val (bu_shr a n) = drop_bit n (bu_val a)"
  proof (rule bit_eqI)
    fix p :: nat
    define j q where "j = p div 32" and "q = p mod 32"
    have q: "q < 32" by (simp add: q_def)
    have bl: "bit (bu_val (bu_shr a n)) p \<longleftrightarrow> j < length a \<and>
        ((j + k < length a \<and> bit (a ! (j + k)) (s + q)) \<or>
         (s \<noteq> 0 \<and> j + k + 1 < length a \<and> 32 - s \<le> q \<and> bit (a ! (j + k + 1)) (q - (32 - s))))"
    proof (cases "j < length a")
      case True
      then have nth: "bu_shr a n ! j = (if j + k < length a then drop_bit s (a ! (j + k)) else 0) OR
          (if s \<noteq> 0 \<and> j + k + 1 < length a then push_bit (32 - s) (a ! (j + k + 1)) else 0)"
        unfolding n by (rule bu_shr_nth [OF s])
      have "bit (bu_val (bu_shr a n)) p \<longleftrightarrow> bit (bu_shr a n ! j) q"
        using True by (simp add: bit_bu_val j_def q_def)
      with True q show ?thesis
        unfolding nth by (simp add: bit_or_iff bit_push_bit_iff bit_drop_bit_eq)
    qed (simp add: bit_bu_val j_def)
    have rhs: "bit (drop_bit n (bu_val a)) p \<longleftrightarrow>
        (p + n) div 32 < length a \<and> bit (a ! ((p + n) div 32)) ((p + n) mod 32)"
      by (simp add: bit_drop_bit_eq bit_bu_val add.commute)
    have big: "32 \<le> s + q \<Longrightarrow> \<not> bit (w :: u32) (s + q)" for w
      using bit_imp_le_length [of w "s + q"] by auto
    show "bit (bu_val (bu_shr a n)) p \<longleftrightarrow> bit (drop_bit n (bu_val a)) p"
    proof (cases "s + q < 32")
      case True
      then have "\<not> (s \<noteq> 0 \<and> 32 - s \<le> q)" by auto
      moreover have dm: "(p + n) div 32 = j + k" "(p + n) mod 32 = s + q"
        using div_mod_add_32(1) [OF s, of p k] True by (simp_all add: n j_def q_def)
      ultimately show ?thesis unfolding bl rhs dm by auto
    next
      case False
      then have "s \<noteq> 0" "32 - s \<le> q" using q by auto
      moreover have dm: "(p + n) div 32 = j + k + 1" "(p + n) mod 32 = q - (32 - s)"
        using div_mod_add_32(2) [OF s, of p k] False by (simp_all add: n j_def q_def)
      ultimately show ?thesis using False big unfolding bl rhs dm by auto
    qed
  qed
  then show ?thesis by (simp add: drop_bit_eq_div)
qed

subsection \<open>Comparison, bit length and division on numbers\<close>

lemma bu_val_snoc: "bu_val (xs @ [x]) = bu_val xs + 2 ^ (32 * length xs) * unat x"
  by (simp add: bu_val_append)

lemma top_limb_less:
  assumes "v < (p::nat)" and "x < y"
  shows "v + p * x < w + p * y"
proof -
  have "v + p * x < p * Suc x" using assms(1) by simp
  also have "\<dots> \<le> p * y" using assms(2) by (intro mult_le_mono2) simp
  finally show ?thesis by simp
qed

lemma compare_loop_val:
  assumes "length xs = length ys"
  shows "compare_loop xs ys =
    (if bu_val (rev xs) < bu_val (rev ys) then -1 else if bu_val (rev xs) > bu_val (rev ys) then 1 else 0)"
  using assms
proof (induction xs ys rule: list_induct2)
  case (Cons x xs y ys)
  have lx: "bu_val (rev xs) < 2 ^ (32 * length xs)" and ly: "bu_val (rev ys) < 2 ^ (32 * length xs)"
    using bu_val_less [of "rev xs"] bu_val_less [of "rev ys"] Cons.hyps by simp_all
  consider "x < y" | "y < x" | "x = y" by fastforce
  then show ?case
  proof cases
    case 1
    then have "unat x < unat y" by (simp add: word_less_nat_alt)
    from top_limb_less [OF lx this] 1 Cons.hyps show ?thesis by (simp add: bu_val_snoc)
  next
    case 2
    then have "unat y < unat x" by (simp add: word_less_nat_alt)
    from top_limb_less [OF ly this, of "bu_val (rev xs)"] 2 Cons.hyps show ?thesis
      by (simp add: bu_val_snoc order.asym)
  next
    case 3
    with Cons show ?thesis by (simp add: bu_val_snoc)
  qed
qed simp

lemma CompareTo_val:
  "length a = length b \<Longrightarrow>
    CompareTo a b = (if bu_val a < bu_val b then -1 else if bu_val a > bu_val b then 1 else 0)"
  by (simp add: CompareTo_def compare_loop_val)

lemma bu_is_zero_val: "bu_is_zero xs \<longleftrightarrow> bu_val xs = 0"
  by (induction xs) (auto simp: unat_eq_0)

lemma bu_val_inj: "length xs = length ys \<Longrightarrow> bu_val xs = bu_val ys \<longleftrightarrow> xs = ys"
proof (induction xs ys rule: list_induct2)
  case (Cons x xs y ys)
  show ?case
  proof
    assume eq: "bu_val (x # xs) = bu_val (y # ys)"
    have "unat x = bu_val (x # xs) mod 4294967296" by (simp add: unat_lt_32)
    also have "\<dots> = bu_val (y # ys) mod 4294967296" by (simp only: eq)
    also have "\<dots> = unat y" by (simp add: unat_lt_32)
    finally have xy: "unat x = unat y" .
    then have "x = y" by (simp only: word_unat_eq_iff)
    moreover have "bu_val xs = bu_val ys" using eq xy by simp
    ultimately show "x # xs = y # ys" using Cons.IH by blast
  qed simp
qed simp

lemma and_push_bit_1: "x AND push_bit m 1 = 0 \<longleftrightarrow> \<not> bit (x :: u32) m"
  by (simp only: push_bit_of_1 and_exp_eq_0_iff_not_bit)

lemma nat_bit_bound: "bit (m::nat) n \<Longrightarrow> 2 ^ n \<le> m"
  by (metis bit_iff_odd div_less even_zero not_less)

lemma nat_not_bit_bound: "\<not> bit (m::nat) n \<Longrightarrow> m < 2 ^ Suc n \<Longrightarrow> m < 2 ^ n"
proof (rule ccontr)
  assume nb: "\<not> bit m n" and lt: "m < 2 ^ Suc n" and "\<not> m < 2 ^ n"
  then have "m div 2 ^ n = 1" by (intro div_nat_eqI) simp_all
  with nb show False by (simp add: bit_iff_odd)
qed

lemma limb_bits_loop_Suc:
  "limb_bits_loop x (Suc n) = (if bit x (Suc n) then Suc (Suc n) else limb_bits_loop x n)"
  by (subst limb_bits_loop.simps, subst and_push_bit_1) simp

declare limb_bits_loop.simps(2) [simp del]

lemma limb_bits_loop_bounds:
  assumes "x \<noteq> 0" and "unat x < 2 ^ Suc n" and "n < 32"
  shows "0 < limb_bits_loop x n \<and> 2 ^ (limb_bits_loop x n - 1) \<le> unat x \<and> unat x < 2 ^ limb_bits_loop x n"
  using assms
proof (induction n)
  case 0
  then show ?case by (simp add: unat_eq_0 less_2_cases_iff)
next
  case (Suc n)
  show ?case
  proof (cases "bit x (Suc n)")
    case True
    then have "bit (unat x) (Suc n)" by (simp add: bit_unsigned_iff)
    then have "2 ^ Suc n \<le> unat x" by (rule nat_bit_bound)
    with True Suc.prems(2) show ?thesis by (simp only: limb_bits_loop_Suc) simp
  next
    case False
    then have "\<not> bit (unat x) (Suc n)" by (simp add: bit_unsigned_iff)
    then have "unat x < 2 ^ Suc n" using Suc.prems(2) by (rule nat_not_bit_bound)
    from Suc.IH [OF Suc.prems(1) this] False Suc.prems(3) show ?thesis
      by (simp only: limb_bits_loop_Suc) simp
  qed
qed

lemma bits_loop_bounds:
  "(bits_loop xs = 0 \<longleftrightarrow> bu_val (rev xs) = 0) \<and> bu_val (rev xs) < 2 ^ bits_loop xs \<and>
   (bu_val (rev xs) \<noteq> 0 \<longrightarrow> 2 ^ (bits_loop xs - 1) \<le> bu_val (rev xs))"
proof (induction xs)
  case (Cons x xs)
  show ?case
  proof (cases "x = 0")
    case True
    with Cons.IH show ?thesis by (simp add: bu_val_snoc)
  next
    case False
    define b where "b = limb_bits_loop x 31"
    have b: "0 < b" "2 ^ (b - 1) \<le> unat x" "unat x < 2 ^ b"
      using limb_bits_loop_bounds [of x 31] False unat_lt_32 [of x] by (simp_all add: b_def)
    let ?p = "2 ^ (32 * length xs) :: nat"
    have "bu_val (rev xs) < ?p" using bu_val_less [of "rev xs"] by simp
    from top_limb_less [OF this b(3), of 0]
    have up: "bu_val (rev xs) + ?p * unat x < 2 ^ (32 * length xs + b)"
      by (simp add: power_add)
    have "2 ^ (32 * length xs + (b - 1)) \<le> ?p * unat x"
      using b(2) by (simp add: power_add)
    moreover have "32 * length xs + b - 1 = 32 * length xs + (b - 1)" using b(1) by simp
    ultimately have lo: "2 ^ (32 * length xs + b - 1) \<le> bu_val (rev xs) + ?p * unat x" by simp
    have "unat x \<noteq> 0" using False by (simp add: unat_eq_0)
    with up lo b(1) False show ?thesis by (simp add: bu_val_snoc b_def [symmetric])
  qed
qed simp

lemma bu_bits_eq_0: "bu_bits a = 0 \<longleftrightarrow> bu_val a = 0"
  using bits_loop_bounds [of "rev a"] by (simp add: bu_bits_def)

lemma bu_bits_upper: "bu_val a < 2 ^ bu_bits a"
  using bits_loop_bounds [of "rev a"] by (simp add: bu_bits_def)

lemma bu_bits_lower: "bu_val a \<noteq> 0 \<Longrightarrow> 2 ^ (bu_bits a - 1) \<le> bu_val a"
  using bits_loop_bounds [of "rev a"] by (simp add: bu_bits_def)

lemma bu_bits_le: "bu_val a < 2 ^ n \<Longrightarrow> bu_bits a \<le> n"
proof (cases "bu_val a = 0")
  case True
  then show ?thesis by (simp add: bu_bits_eq_0 [THEN iffD2])
next
  case False
  assume "bu_val a < 2 ^ n"
  with bu_bits_lower [OF False] have "(2::nat) ^ (bu_bits a - 1) < 2 ^ n" by (rule le_less_trans)
  then have "bu_bits a - 1 < n" by simp
  then show ?thesis by simp
qed

lemma bu_bits_le_length: "bu_bits a \<le> 32 * length a"
  by (rule bu_bits_le) (rule bu_val_less)

lemma bu_val_set_bit:
  assumes "p < 32 * length pn" and "\<not> bit (bu_val pn) p"
  shows "bu_val (pn[p div 32 := pn ! (p div 32) OR push_bit (p mod 32) 1]) = bu_val pn + 2 ^ p"
proof -
  have "bu_val (pn[p div 32 := pn ! (p div 32) OR push_bit (p mod 32) 1]) = set_bit p (bu_val pn)"
  proof (rule bit_eqI)
    fix q :: nat
    have "p = q \<longleftrightarrow> p div 32 = q div 32 \<and> p mod 32 = q mod 32"
      by (metis div_mult_mod_eq)
    then show "bit (bu_val (pn[p div 32 := pn ! (p div 32) OR push_bit (p mod 32) 1])) q \<longleftrightarrow>
        bit (set_bit p (bu_val pn)) q"
      using assms(1)
      by (auto simp: bit_bu_val bit_set_bit_iff nth_list_update bit_or_iff push_bit_of_1 bit_exp_iff)
  qed
  with assms(2) show ?thesis by (simp add: set_bit_eq)
qed

lemma not_bit_multiple: "\<not> bit (2 ^ Suc n * m) (n :: nat)" for m :: nat
  by (simp add: bit_iff_odd)

lemma bu_div_loop_val:
  assumes "length dv = length num" "length pn = length num"
    and "bu_val dv = d * 2 ^ shift" "bu_val num < d * 2 ^ Suc shift" "bu_val pn = 2 ^ Suc shift * m"
    and "0 < d" "shift < 32 * length num"
  shows "bu_val (bu_div_loop shift num dv pn) = bu_val pn + bu_val num div d \<and>
    length (bu_div_loop shift num dv pn) = length num"
  using assms
proof (induction shift arbitrary: num dv pn m)
  case 0
  note prems = 0
  show ?case
  proof (cases "d \<le> bu_val num")
    case True
    then have "bu_val num div d = 1" using prems by (intro div_nat_eqI) simp_all
    moreover have "bu_val (pn[0 := pn ! 0 OR push_bit 0 1]) = bu_val pn + 1"
      using bu_val_set_bit [of 0 pn] prems not_bit_multiple [of 0 m] by simp
    ultimately show ?thesis using True prems
      by (simp add: bu_div_loop.simps [of 0] CompareTo_val)
  next
    case False
    then show ?thesis using prems by (simp add: bu_div_loop.simps [of 0] CompareTo_val)
  qed
next
  case (Suc s)
  have half: "bu_val (bu_shr dv 1) = d * 2 ^ s" using Suc.prems by (simp add: bu_val_shr)
  show ?case
  proof (cases "bu_val dv \<le> bu_val num")
    case True
    define pn' where "pn' = pn[Suc s div 32 := pn ! (Suc s div 32) OR push_bit (Suc s mod 32) 1]"
    have step: "bu_div_loop (Suc s) num dv pn = bu_div_loop s (bu_sub num dv) (bu_shr dv 1) pn'"
      using True Suc.prems
      by (subst bu_div_loop.simps) (simp add: CompareTo_val pn'_def)
    have v: "bu_val (bu_sub num dv) = bu_val num - bu_val dv"
      using True Suc.prems by (simp add: bu_val_sub_le)
    have vpn: "bu_val pn' = bu_val pn + 2 ^ Suc s"
      using Suc.prems not_bit_multiple [of "Suc s" m] unfolding pn'_def
      by (intro bu_val_set_bit) simp_all
    have lpn: "length pn' = length num" using Suc.prems by (simp add: pn'_def)
    have "bu_val (bu_div_loop s (bu_sub num dv) (bu_shr dv 1) pn') =
        bu_val pn' + bu_val (bu_sub num dv) div d \<and>
        length (bu_div_loop s (bu_sub num dv) (bu_shr dv 1) pn') = length (bu_sub num dv)"
      using Suc.prems half True lpn
      by (intro Suc.IH [where m = "2 * m + 1"]) (simp_all add: v vpn)
    moreover have "bu_val num div d = (bu_val num - bu_val dv) div d + 2 ^ Suc s"
    proof -
      define r where "r = bu_val num - bu_val dv"
      have "bu_val num = r + 2 ^ Suc s * d" using True Suc.prems(3) by (simp add: r_def)
      then have "bu_val num div d = r div d + 2 ^ Suc s" using \<open>0 < d\<close> by simp
      then show ?thesis by (simp add: r_def)
    qed
    ultimately show ?thesis by (simp add: step v vpn)
  next
    case False
    have step: "bu_div_loop (Suc s) num dv pn = bu_div_loop s num (bu_shr dv 1) pn"
      using False Suc.prems by (subst bu_div_loop.simps) (simp add: CompareTo_val)
    show ?thesis unfolding step
      using Suc.prems half False
      by (intro Suc.IH [where m = "2 * m"]) auto
  qed
qed

lemma bu_div_zero: "bu_val b = 0 \<Longrightarrow> bu_div a b = Inl Division_by_zero"
  by (simp add: bu_div_def bu_bits_eq_0)

lemma bu_div_val:
  assumes len: "length a = length b" and pos: "0 < bu_val b"
  shows "\<exists>q. bu_div a b = Inr q \<and> length q = length a \<and> bu_val q = bu_val a div bu_val b"
proof (cases "bu_bits a < bu_bits b")
  case True
  then have "bu_val a < 2 ^ (bu_bits b - 1)"
    by (intro less_le_trans [OF bu_bits_upper] power_increasing) simp_all
  also have "\<dots> \<le> bu_val b" using pos by (intro bu_bits_lower) simp
  finally show ?thesis using True pos by (simp add: bu_div_def bu_bits_eq_0 Let_def)
next
  case False
  define shift where "shift = bu_bits a - bu_bits b"
  have bb: "0 < bu_bits b" using pos bu_bits_eq_0 [of b] by simp
  have sb: "bu_bits b + shift = bu_bits a" using False by (simp add: shift_def)
  have lt: "bu_val b * 2 ^ shift < 2 ^ (32 * length a)"
  proof -
    have "bu_val b * 2 ^ shift < 2 ^ bu_bits b * 2 ^ shift" using bu_bits_upper by simp
    also have "\<dots> = 2 ^ bu_bits a" by (simp add: power_add [symmetric] sb)
    also have "\<dots> \<le> 2 ^ (32 * length a)" using bu_bits_le_length by (intro power_increasing) simp_all
    finally show ?thesis .
  qed
  have "bu_val a < 2 ^ (bu_bits b + shift)" using bu_bits_upper [of a] by (simp add: sb)
  also have "\<dots> = 2 ^ (bu_bits b - 1) * 2 ^ Suc shift"
    using bb by (simp only: power_add [symmetric]) simp
  also have "\<dots> \<le> bu_val b * 2 ^ Suc shift" using bu_bits_lower [of b] pos by (intro mult_le_mono1) simp
  finally have num: "bu_val a < bu_val b * 2 ^ Suc shift" .
  have dv: "bu_val (bu_shl b shift) = bu_val b * 2 ^ shift" using lt len by (simp add: bu_val_shl)
  have "shift < 32 * length a" using bb sb bu_bits_le_length [of a] by simp
  with bu_div_loop_val [where num = a and dv = "bu_shl b shift" and pn = "replicate (length a) 0" and m = 0,
      OF _ _ dv num] len pos
  have "bu_val (bu_div_loop shift a (bu_shl b shift) (replicate (length a) 0)) = bu_val a div bu_val b \<and>
    length (bu_div_loop shift a (bu_shl b shift) (replicate (length a) 0)) = length a"
    by simp
  with False bb show ?thesis by (simp add: bu_div_def Let_def shift_def)
qed

subsection \<open>Conversions\<close>

lemma length_bu_of_u64 [simp]: "length (bu_of_u64 b) = 8"
  by (simp add: bu_of_u64_def WIDTH_def)

lemma length_bu_zero [simp]: "length bu_zero = 8"
  by (simp add: bu_zero_def WIDTH_def)

lemma bu_val_zero [simp]: "bu_val bu_zero = 0"
  by (simp add: bu_zero_def)

lemma bu_val_of_u64: "bu_val (bu_of_u64 b) = unat b"
proof -
  have "bu_val (bu_of_u64 b) = unat b mod 4294967296 + 4294967296 * (unat b div 4294967296 mod 4294967296)"
    by (simp add: bu_of_u64_def unat_ucast_64_32 unat_drop32)
  also have "unat b div 4294967296 mod 4294967296 = unat b div 4294967296"
    using unat_lt_64 [of b] by (simp add: less_mult_imp_div_less)
  finally show ?thesis by simp
qed

lemma GetLow64_val:
  assumes "2 \<le> length a"
  shows "unat (GetLow64 a) = bu_val a mod 2 ^ 64"
proof -
  have "unat (GetLow64 a) = take_bit 64 (bu_val a)"
  proof (rule bit_eqI)
    fix p :: nat
    consider "p < 32" | "32 \<le> p" "p < 64" | "64 \<le> p" by linarith
    then show "bit (unat (GetLow64 a)) p \<longleftrightarrow> bit (take_bit 64 (bu_val a)) p"
    proof cases
      case 1
      with assms show ?thesis
        by (auto simp: GetLow64_def bit_unsigned_iff bit_or_iff bit_push_bit_iff bit_take_bit_iff bit_bu_val)
    next
      case 2
      then obtain q where q: "p = 32 + q" "q < 32" using le_Suc_ex by fastforce
      then have "p div 32 = 1" "p mod 32 = q" by simp_all
      with 2 q assms show ?thesis
        by (auto simp: GetLow64_def bit_unsigned_iff bit_or_iff bit_push_bit_iff bit_take_bit_iff bit_bu_val
            dest: bit_imp_le_length)
    next
      case 3
      then show ?thesis by (auto simp: bit_unsigned_iff bit_take_bit_iff dest: bit_imp_le_length)
    qed
  qed
  then show ?thesis by (simp add: take_bit_eq_mod)
qed

lemma bu_is_zero_set: "bu_is_zero xs \<longleftrightarrow> (\<forall>x \<in> set xs. x = 0)"
  by (induction xs) auto

lemma bu_is_zero_rev: "bu_is_zero (rev xs) \<longleftrightarrow> bu_val xs = 0"
  using bu_is_zero_val [of xs] by (simp add: bu_is_zero_set)

lemma EqualTo_val:
  assumes "length a = 8"
  shows "EqualTo a b \<longleftrightarrow> bu_val a = unat b"
proof -
  obtain x y zs where a: "a = x # y # zs" using assms by (auto simp: numeral_eq_Suc length_Suc_conv)
  have low: "ucast x = b AND 0xffffffff \<longleftrightarrow> unat x = unat b mod 4294967296"
    by (simp add: word_unat_eq_iff unat_mask32)
  have high: "ucast y = drop_bit 32 b \<longleftrightarrow> unat y = unat b div 4294967296"
    by (simp add: word_unat_eq_iff unat_drop32)
  have "EqualTo a b \<longleftrightarrow> bu_val zs = 0 \<and> unat y = unat b div 4294967296 \<and> unat x = unat b mod 4294967296"
    by (auto simp: EqualTo_def a low high bu_is_zero_rev)
  also have "\<dots> \<longleftrightarrow> bu_val a = unat b"
  proof
    assume "bu_val zs = 0 \<and> unat y = unat b div 4294967296 \<and> unat x = unat b mod 4294967296"
    then show "bu_val a = unat b" by (simp add: a)
  next
    assume eq: "bu_val a = unat b"
    have "unat y + 4294967296 * bu_val zs = unat b div 4294967296"
      using unat_lt_32 [of x] by (simp add: eq [symmetric] a)
    moreover have "unat b div 4294967296 < 4294967296"
      using unat_lt_64 [of b] by (simp add: less_mult_imp_div_less)
    ultimately have "bu_val zs = 0" by linarith
    with \<open>unat y + _ = _\<close> show "bu_val zs = 0 \<and> unat y = unat b div 4294967296 \<and> unat x = unat b mod 4294967296"
      using unat_lt_32 [of x] by (simp add: eq [symmetric] a)
  qed
  finally show ?thesis .
qed

subsection \<open>The compact format on numbers\<close>

text \<open>The number that a compact value denotes: mantissa times 256 to the exponent minus 3, as the
  comment on \<open>SetCompact\<close> in \<^verbatim>\<open>arith_uint256.h\<close> gives it, sign bit aside.\<close>

definition compact_target :: "u32 \<Rightarrow> nat" where
  "compact_target c =
     (let nSize = unat c div 2 ^ 24; mantissa = unat c mod 2 ^ 23
      in if nSize \<le> 3 then mantissa div 2 ^ (8 * (3 - nSize)) else mantissa * 2 ^ (8 * (nSize - 3)))"

lemma mantissa_mask: "c AND 0x007fffff = take_bit 23 (c :: u32)"
  by (simp add: take_bit_eq_mask mask_eq_exp_minus_1)

lemma sign_bit: "c AND 0x00800000 = 0 \<longleftrightarrow> \<not> bit (c :: u32) 23"
proof -
  have "(0x00800000 :: u32) = 2 ^ 23" by simp
  then show ?thesis by (simp only: and_exp_eq_0_iff_not_bit)
qed

lemma SetCompact_eq:
  fixes c :: u32
  defines "nSize \<equiv> unat c div 2 ^ 24" and "w \<equiv> unat c mod 2 ^ 23"
  assumes "SetCompact c = (t, neg, ovf)"
  defines "m \<equiv> (if nSize \<le> 3 then w div 2 ^ (8 * (3 - nSize)) else w)"
  shows "length t = 8"
    and "bu_val t = (if nSize \<le> 3 then m else (m * 2 ^ (8 * (nSize - 3))) mod 2 ^ 256)"
    and "neg \<longleftrightarrow> m \<noteq> 0 \<and> bit c 23"
    and "ovf \<longleftrightarrow> m \<noteq> 0 \<and> (nSize > 34 \<or> (m > 255 \<and> nSize > 33) \<or> (m > 65535 \<and> nSize > 32))"
proof -
  define nw where "nw = (if nSize \<le> 3 then drop_bit (8 * (3 - nSize)) (take_bit 23 c) else take_bit 23 c)"
  have size: "unat (drop_bit 24 c) = nSize" by (simp add: unat_drop_bit nSize_def)
  have nw: "unat nw = m" by (simp add: nw_def m_def unat_drop_bit unat_take_bit w_def)
  have eq: "t = (if nSize \<le> 3 then bu_of_u64 (ucast nw) else bu_shl (bu_of_u64 (ucast nw)) (8 * (nSize - 3)))"
    "neg = (nw \<noteq> 0 \<and> c AND 0x00800000 \<noteq> 0)"
    "ovf = (nw \<noteq> 0 \<and> (nSize > 34 \<or> (nw > 0xff \<and> nSize > 33) \<or> (nw > 0xffff \<and> nSize > 32)))"
    using assms(3) unfolding SetCompact_def mantissa_mask size Let_def nw_def by auto
  have nz: "nw \<noteq> 0 \<longleftrightarrow> m \<noteq> 0" using nw by (simp add: unat_eq_0 [symmetric])
  show "length t = 8" by (simp add: eq)
  show "bu_val t = (if nSize \<le> 3 then m else (m * 2 ^ (8 * (nSize - 3))) mod 2 ^ 256)"
    by (simp add: eq bu_val_of_u64 bu_val_shl nw)
  show "neg \<longleftrightarrow> m \<noteq> 0 \<and> bit c 23" by (simp only: eq nz sign_bit) blast
  have "nw > 0xff \<longleftrightarrow> m > 255" "nw > 0xffff \<longleftrightarrow> m > 65535" by (simp_all add: word_less_nat_alt nw)
  then show "ovf \<longleftrightarrow> m \<noteq> 0 \<and> (nSize > 34 \<or> (m > 255 \<and> nSize > 33) \<or> (m > 65535 \<and> nSize > 32))"
    by (simp only: eq nz)
qed

lemma pow2_le_mult_iff:
  fixes w :: nat
  assumes "k \<le> n"
  shows "2 ^ n \<le> w * 2 ^ k \<longleftrightarrow> 2 ^ (n - k) \<le> w"
proof -
  have "(2::nat) ^ n = 2 ^ (n - k) * 2 ^ k" using assms by (simp add: power_add [symmetric])
  then show ?thesis by simp
qed

lemma compact_overflow_iff:
  fixes w :: nat
  assumes "w < 2 ^ 23" and "3 < n"
  shows "2 ^ 256 \<le> w * 2 ^ (8 * (n - 3)) \<longleftrightarrow>
    w \<noteq> 0 \<and> (n > 34 \<or> (w > 255 \<and> n > 33) \<or> (w > 65535 \<and> n > 32))"
proof -
  consider "n > 34" | "n = 34" | "n = 33" | "n \<le> 32" by linarith
  then show ?thesis
  proof cases
    case 1
    then have "(2::nat) ^ 256 \<le> 2 ^ (8 * (n - 3))" by (intro power_increasing) simp_all
    then have "w \<noteq> 0 \<Longrightarrow> 2 ^ 256 \<le> w * 2 ^ (8 * (n - 3))"
      using mult_le_mono [of 1 w "2 ^ 256" "2 ^ (8 * (n - 3))"] by simp
    with 1 show ?thesis by (cases "w = 0") auto
  next
    case 2
    then show ?thesis using pow2_le_mult_iff [of 248 256 w] by auto
  next
    case 3
    then show ?thesis using pow2_le_mult_iff [of 240 256 w] by auto
  next
    case 4
    then have "8 * (n - 3) \<le> 232" by simp
    then have "(2::nat) ^ 23 \<le> 2 ^ (256 - 8 * (n - 3))" by (intro power_increasing) simp_all
    with assms(1) have "w < 2 ^ (256 - 8 * (n - 3))" by linarith
    moreover have "8 * (n - 3) \<le> 256" using 4 by simp
    ultimately have "\<not> 2 ^ 256 \<le> w * 2 ^ (8 * (n - 3))" using pow2_le_mult_iff [of "8 * (n - 3)" 256 w] by simp
    with 4 show ?thesis by auto
  qed
qed

lemma compact_target_small:
  assumes "unat c div 2 ^ 24 \<le> 3"
  shows "compact_target c < 2 ^ 256"
proof -
  have "compact_target c \<le> unat c mod 2 ^ 23"
    using assms by (simp add: compact_target_def)
  also have "\<dots> < 2 ^ 23" by simp
  also have "(2::nat) ^ 23 \<le> 2 ^ 256" by simp
  finally show ?thesis .
qed

text \<open>\<open>SetCompact\<close> decodes the denoted number modulo \<open>2 ^ 256\<close>, its overflow flag says exactly
  whether that number fits, and its sign flag is the sign bit of a non-zero number.\<close>

lemma SetCompact_spec:
  assumes "SetCompact c = (t, neg, ovf)"
  shows "length t = 8" and "bu_val t = compact_target c mod 2 ^ 256"
    and "neg \<longleftrightarrow> compact_target c \<noteq> 0 \<and> bit c 23" and "ovf \<longleftrightarrow> 2 ^ 256 \<le> compact_target c"
proof -
  note eq = SetCompact_eq [OF assms]
  let ?n = "unat c div 2 ^ 24" and ?w = "unat c mod 2 ^ 23"
  have w: "?w < 2 ^ 23" by simp
  show "length t = 8" by (rule eq(1))
  show "bu_val t = compact_target c mod 2 ^ 256"
  proof (cases "?n \<le> 3")
    case True
    then have ct: "compact_target c = ?w div 2 ^ (8 * (3 - ?n))" by (simp add: compact_target_def)
    with compact_target_small [OF True] show ?thesis using True eq(2) by simp
  next
    case False
    then show ?thesis using eq(2) by (simp add: compact_target_def)
  qed
  show "neg \<longleftrightarrow> compact_target c \<noteq> 0 \<and> bit c 23"
    using eq(3) by (auto simp: compact_target_def Let_def)
  show "ovf \<longleftrightarrow> 2 ^ 256 \<le> compact_target c"
  proof (cases "?n \<le> 3")
    case True
    with compact_target_small [OF True] show ?thesis using eq(4) by simp
  next
    case False
    then show ?thesis using eq(4) compact_overflow_iff [OF w, of ?n] by (simp add: compact_target_def)
  qed
qed

text \<open>The mantissa and exponent that \<open>GetCompact\<close> stores, as numbers.\<close>

definition compact_mantissa0 :: "nat \<Rightarrow> nat \<Rightarrow> nat" where
  "compact_mantissa0 v n = (if n \<le> 3 then v * 2 ^ (8 * (3 - n)) else v div 2 ^ (8 * (n - 3)))"

lemma compact_size_bounds:
  assumes "length a = 8"
  defines "n \<equiv> (bu_bits a + 7) div 8"
  shows "n \<le> 32" and "bu_val a < 2 ^ (8 * n)" and "bu_val a \<noteq> 0 \<Longrightarrow> 0 < n \<and> 2 ^ (8 * (n - 1)) \<le> bu_val a"
proof -
  show "n \<le> 32" using bu_bits_le_length [of a] assms(1) by (simp add: n_def)
  have "bu_bits a \<le> 8 * n" by (simp add: n_def)
  then have "(2::nat) ^ bu_bits a \<le> 2 ^ (8 * n)" by (intro power_increasing) simp_all
  with bu_bits_upper [of a] show "bu_val a < 2 ^ (8 * n)" by linarith
  assume nz: "bu_val a \<noteq> 0"
  then have b: "0 < bu_bits a" using bu_bits_eq_0 [of a] by simp
  then have n: "0 < n" "8 * (n - 1) \<le> bu_bits a - 1" by (simp_all add: n_def)
  then have "(2::nat) ^ (8 * (n - 1)) \<le> 2 ^ (bu_bits a - 1)" by (intro power_increasing) simp_all
  also have "\<dots> \<le> bu_val a" using nz by (rule bu_bits_lower)
  finally show "0 < n \<and> 2 ^ (8 * (n - 1)) \<le> bu_val a" using n(1) by simp
qed

lemma compact_mantissa0_less:
  assumes "v < 2 ^ (8 * n)"
  shows "compact_mantissa0 v n < 2 ^ 24"
proof (cases "n \<le> 3")
  case True
  have "v * 2 ^ (8 * (3 - n)) < 2 ^ (8 * n) * 2 ^ (8 * (3 - n))" using assms by simp
  also have "\<dots> = 2 ^ (8 * n + 8 * (3 - n))" by (simp only: power_add)
  also have "8 * n + 8 * (3 - n) = 24" using True by simp
  finally show ?thesis using True by (simp add: compact_mantissa0_def)
next
  case False
  have "8 * n = 24 + 8 * (n - 3)" using False by simp
  then have "(2::nat) ^ (8 * n) = 2 ^ 24 * 2 ^ (8 * (n - 3))" by (simp only: power_add)
  with assms have "v < 2 ^ 24 * 2 ^ (8 * (n - 3))" by simp
  then have "v div 2 ^ (8 * (n - 3)) < 2 ^ 24" by (rule less_mult_imp_div_less)
  with False show ?thesis by (simp add: compact_mantissa0_def)
qed

lemma compact_word0:
  assumes "length a = 8"
  defines "n \<equiv> (bu_bits a + 7) div 8"
  shows "unat (if n \<le> 3 then ucast (push_bit (8 * (3 - n)) (GetLow64 a))
       else ucast (GetLow64 (bu_shr a (8 * (n - 3)))) :: u32) = compact_mantissa0 (bu_val a) n"
proof -
  have v: "bu_val a < 2 ^ (8 * n)" unfolding n_def by (rule compact_size_bounds [OF assms(1)])
  note m = compact_mantissa0_less [OF v]
  show ?thesis
  proof (cases "n \<le> 3")
    case True
    have "bu_val a \<le> bu_val a * 2 ^ (8 * (3 - n))" by simp
    also have "\<dots> < 2 ^ 24" using m True by (simp add: compact_mantissa0_def)
    finally have "unat (GetLow64 a) = bu_val a" using assms(1) by (simp add: GetLow64_val)
    moreover have "bu_val a * 2 ^ (8 * (3 - n)) < 2 ^ 24" using m True by (simp add: compact_mantissa0_def)
    ultimately have "unat (push_bit (8 * (3 - n)) (GetLow64 a)) = bu_val a * 2 ^ (8 * (3 - n))"
      by (subst unat_push_bit) simp_all
    with True m show ?thesis by (simp add: unat_ucast_64_32 compact_mantissa0_def)
  next
    case False
    then have "unat (GetLow64 (bu_shr a (8 * (n - 3)))) = bu_val a div 2 ^ (8 * (n - 3))"
      using m assms(1) by (simp add: GetLow64_val bu_val_shr compact_mantissa0_def)
    with False m show ?thesis by (simp add: unat_ucast_64_32 compact_mantissa0_def)
  qed
qed

lemma bit_23_iff: "unat (x :: u32) < 2 ^ 24 \<Longrightarrow> bit x 23 \<longleftrightarrow> 2 ^ 23 \<le> unat x"
  using nat_bit_bound [of "unat x" 23] nat_not_bit_bound [of "unat x" 23]
  by (cases "bit x 23") (simp_all add: bit_unsigned_iff)

lemma and_not_mantissa_mask: "unat (x :: u32) < 2 ^ 23 \<Longrightarrow> x AND NOT 0x007fffff = 0"
proof -
  assume "unat x < 2 ^ 23"
  then have "take_bit 23 x = x" by (simp add: word_unat_eq_iff unat_take_bit)
  then have "x = x AND 0x007fffff" by (simp add: mantissa_mask)
  then have "x AND NOT 0x007fffff = (x AND 0x007fffff) AND NOT 0x007fffff" by simp
  also have "\<dots> = 0" by (simp only: and.assoc) simp
  finally show ?thesis .
qed

lemma GetCompact_parts:
  assumes "length a = 8"
  defines "n \<equiv> (bu_bits a + 7) div 8"
  defines "m \<equiv> compact_mantissa0 (bu_val a) n"
  shows "\<exists>c. GetCompact a False = Some c \<and>
    unat c = (if 2 ^ 23 \<le> m then m div 256 + 2 ^ 24 * (n + 1) else m + 2 ^ 24 * n)"
proof -
  define x :: u32 where "x = (if n \<le> 3 then ucast (push_bit (8 * (3 - n)) (GetLow64 a))
       else ucast (GetLow64 (bu_shr a (8 * (n - 3)))))"
  have x: "unat x = m" unfolding x_def m_def n_def by (rule compact_word0 [OF assms(1)])
  have n: "n \<le> 32" and m: "m < 2 ^ 24"
    using compact_size_bounds [OF assms(1)] compact_mantissa0_less by (simp_all add: n_def m_def)
  have sgn: "x AND 0x00800000 = 0 \<longleftrightarrow> m < 2 ^ 23"
    using bit_23_iff [of x] m x by (auto simp: sign_bit)
  define y where "y = (if 2 ^ 23 \<le> m then drop_bit 8 x else x)"
  define s where "s = (if 2 ^ 23 \<le> m then n + 1 else n)"
  have y: "unat y = (if 2 ^ 23 \<le> m then m div 256 else m)" by (simp add: y_def x unat_drop_bit)
  have y23: "unat y < 2 ^ 23" using m by (auto simp: y)
  have s: "s < 256" using n by (simp add: s_def)
  have "unat (of_nat s :: u32) = s" using s by (simp add: unat_of_nat)
  then have sh: "unat (push_bit 24 (of_nat s) :: u32) = s * 2 ^ 24"
    using s by (subst unat_push_bit) simp_all
  have "unat y < 2 ^ 24" using y23 by simp
  from unat_or_disjoint [OF this, of "of_nat s"] sh
  have res: "unat (y OR push_bit 24 (of_nat s)) = unat y + 2 ^ 24 * s" by simp
  have "GetCompact a False = Some (y OR push_bit 24 (of_nat s))"
    unfolding GetCompact_def n_def [symmetric] x_def [symmetric] Let_def
    using and_not_mantissa_mask [OF y23] s by (auto simp: sgn y_def s_def not_le)
  with res show ?thesis by (auto simp: y s_def)
qed

lemma compact_fields:
  assumes "unat (c :: u32) = m + 2 ^ 24 * s" and "m < 2 ^ 23"
  shows "unat c div 2 ^ 24 = s" and "unat c mod 2 ^ 23 = m" and "\<not> bit c 23"
proof -
  show "unat c div 2 ^ 24 = s" using assms by simp
  have "unat c = m + 2 ^ 23 * (2 * s)" using assms(1) by simp
  then show "unat c mod 2 ^ 23 = m" using assms(2) by (simp only: mod_mult_self2 mod_less)
  have "\<not> bit (m + 2 ^ 23 * (2 * s)) 23"
    using bit_add_pow2 [OF assms(2), of "2 * s" 23] by (simp add: bit_0)
  then have "\<not> bit (unat c) 23" using assms(1) by simp
  then show "\<not> bit c 23" by (simp add: bit_unsigned_iff)
qed

lemma truncation_error:
  fixes v q k :: nat
  assumes "0 < q" and "q * k \<le> v"
  shows "(v div q) * q \<le> v \<and> (v - (v div q) * q) * k \<le> v"
proof -
  have "v - (v div q) * q = v mod q" by (simp add: minus_div_mult_eq_mod)
  moreover have "v mod q * k \<le> q * k" using assms(1) by (intro mult_le_mono1) (simp add: less_imp_le)
  then have "v mod q * k \<le> v" using assms(2) by (rule le_trans)
  ultimately show ?thesis by simp
qed

lemma compact_round_down:
  fixes v n :: nat
  assumes v: "v < 2 ^ (8 * n)" "v \<noteq> 0 \<Longrightarrow> 0 < n \<and> 2 ^ (8 * (n - 1)) \<le> v"
  defines "m \<equiv> compact_mantissa0 v n"
  defines "t \<equiv> (if 2 ^ 23 \<le> m
     then (if n + 1 \<le> 3 then (m div 256) div 2 ^ (8 * (3 - (n + 1))) else (m div 256) * 2 ^ (8 * (n + 1 - 3)))
     else (if n \<le> 3 then m div 2 ^ (8 * (3 - n)) else m * 2 ^ (8 * (n - 3))))"
  shows "t \<le> v \<and> (v - t) * 2 ^ 15 \<le> v"
proof -
  consider "n \<le> 2" | "n = 3" "m < 2 ^ 23" | "3 \<le> n" "2 ^ 23 \<le> m" | "3 < n" "m < 2 ^ 23" by linarith
  then have "t = v \<or> (\<exists>q. 0 < q \<and> q * 2 ^ 15 \<le> v \<and> t = (v div q) * q)"
  proof cases
    case 1
    then have "8 * (3 - n) = 8 + 8 * (2 - n)" by simp
    then have pw: "(2::nat) ^ (8 * (3 - n)) = 256 * 2 ^ (8 * (2 - n))" by (simp only: power_add) simp
    have m: "m = v * (256 * 2 ^ (8 * (2 - n)))" using 1 pw by (simp add: m_def compact_mantissa0_def)
    have "t = v"
    proof (cases "2 ^ 23 \<le> m")
      case True
      have "m div 256 = v * 2 ^ (8 * (2 - n))" by (simp add: m)
      with True 1 show ?thesis by (simp add: t_def)
    next
      case False
      with 1 m pw show ?thesis by (simp add: t_def)
    qed
    then show ?thesis by simp
  next
    case 2
    then show ?thesis by (simp add: t_def m_def compact_mantissa0_def)
  next
    case 3
    define q where "q = (2::nat) ^ (8 * (n - 2))"
    have "8 * (n - 2) = 8 * (n - 3) + 8" using 3 by simp
    then have q: "q = 2 ^ (8 * (n - 3)) * 256" by (simp only: q_def power_add) simp
    have m: "m = v div 2 ^ (8 * (n - 3))" using 3 by (simp add: m_def compact_mantissa0_def)
    have "t = (v div q) * q" using 3 by (simp add: t_def m q_def [symmetric] q div_mult2_eq)
    moreover have "2 ^ 23 * 2 ^ (8 * (n - 3)) \<le> v"
      using 3(2) m by (metis div_times_less_eq_dividend dual_order.trans mult_le_mono1)
    then have "0 < q \<and> q * 2 ^ 15 \<le> v" by (simp add: q)
    ultimately show ?thesis by blast
  next
    case 4
    define q where "q = (2::nat) ^ (8 * (n - 3))"
    have m: "m = v div q" using 4 by (simp add: m_def compact_mantissa0_def q_def)
    have "t = (v div q) * q" using 4 by (simp add: t_def m q_def [symmetric])
    moreover have "0 < q" by (simp add: q_def)
    moreover have "q * 2 ^ 15 \<le> v" if nz: "v \<noteq> 0"
    proof -
      have "8 * (n - 1) = 16 + 8 * (n - 3)" using 4 by simp
      then have "(2::nat) ^ (8 * (n - 1)) = 2 ^ 16 * q" by (simp only: power_add q_def)
      with v(2) [OF nz] show ?thesis by simp
    qed
    ultimately show ?thesis by (cases "v = 0") auto
  qed
  then show ?thesis using truncation_error by auto
qed

text \<open>Encoding a target never rounds it up, loses less than one part in \<open>2 ^ 15\<close>, and sets no sign.\<close>

lemma GetCompact_spec:
  assumes "length a = 8"
  shows "\<exists>c. GetCompact a False = Some c \<and> \<not> bit c 23 \<and> compact_target c \<le> bu_val a \<and>
    (bu_val a - compact_target c) * 2 ^ 15 \<le> bu_val a"
proof -
  define n where "n = (bu_bits a + 7) div 8"
  define m where "m = compact_mantissa0 (bu_val a) n"
  note sb = compact_size_bounds [OF assms, folded n_def]
  have m: "m < 2 ^ 24" unfolding m_def by (rule compact_mantissa0_less) (rule sb(2))
  obtain c where c: "GetCompact a False = Some c"
    "unat c = (if 2 ^ 23 \<le> m then m div 256 + 2 ^ 24 * (n + 1) else m + 2 ^ 24 * n)"
    using GetCompact_parts [OF assms] unfolding n_def m_def by blast
  note rd = compact_round_down [OF sb(2,3), folded m_def]
  show ?thesis
  proof (cases "2 ^ 23 \<le> m")
    case True
    then have u: "unat c = m div 256 + 2 ^ 24 * (n + 1)" and "m div 256 < 2 ^ 23" using c(2) m by simp_all
    note f = compact_fields [OF this]
    from rd True have "compact_target c \<le> bu_val a \<and> (bu_val a - compact_target c) * 2 ^ 15 \<le> bu_val a"
      unfolding compact_target_def Let_def f by simp
    with c(1) f(3) show ?thesis by blast
  next
    case False
    then have u: "unat c = m + 2 ^ 24 * n" and "m < 2 ^ 23" using c(2) by simp_all
    note f = compact_fields [OF this]
    from rd False have "compact_target c \<le> bu_val a \<and> (bu_val a - compact_target c) * 2 ^ 15 \<le> bu_val a"
      unfolding compact_target_def Let_def f by simp
    with c(1) f(3) show ?thesis by blast
  qed
qed

lemma byte_size_unique:
  fixes v :: nat
  assumes "0 < n" "2 ^ (8 * (n - 1)) \<le> v" "v < 2 ^ (8 * n)"
    and "0 < s" "2 ^ j \<le> v" "8 * (s - 1) \<le> j" "v < 2 ^ (8 * s)"
  shows "n = s"
proof (rule antisym)
  have "(2::nat) ^ (8 * (n - 1)) < 2 ^ (8 * s)" using assms(2,7) by (rule le_less_trans)
  then have "8 * (n - 1) < 8 * s" by (rule power_less_imp_less_exp [rotated]) simp
  then show "n \<le> s" using assms(1) by simp
  have "(2::nat) ^ j < 2 ^ (8 * n)" using assms(5,3) by (rule le_less_trans)
  then have "j < 8 * n" by (rule power_less_imp_less_exp [rotated]) simp
  with assms(6) have "8 * (s - 1) < 8 * n" by (rule le_less_trans)
  then show "s \<le> n" by simp
qed

lemma compact_normalised_size:
  fixes w s v :: nat
  assumes v: "v = w * 2 ^ (8 * (s - 3))" and w: "2 ^ 15 \<le> w" "w < 2 ^ 23" and s: "3 \<le> s"
    and n: "0 < n" "2 ^ (8 * (n - 1)) \<le> v" "v < 2 ^ (8 * n)"
  shows "n = (if 2 ^ 16 \<le> w then s else s - 1)"
proof (cases "2 ^ 16 \<le> w")
  case True
  have "v < 2 ^ 24 * 2 ^ (8 * (s - 3))" using w(2) by (simp add: v)
  also have "\<dots> = 2 ^ (24 + 8 * (s - 3))" by (simp only: power_add)
  also have "24 + 8 * (s - 3) = 8 * s" using s by simp
  finally have up: "v < 2 ^ (8 * s)" .
  have "2 ^ (16 + 8 * (s - 3)) \<le> v" using True by (simp add: v power_add)
  with byte_size_unique [OF n, of s "16 + 8 * (s - 3)"] up s True show ?thesis by simp
next
  case False
  have "v < 2 ^ 16 * 2 ^ (8 * (s - 3))" using False by (simp add: v)
  also have "\<dots> = 2 ^ (16 + 8 * (s - 3))" by (simp only: power_add)
  also have "16 + 8 * (s - 3) = 8 * (s - 1)" using s by simp
  finally have up: "v < 2 ^ (8 * (s - 1))" .
  have "2 ^ (15 + 8 * (s - 3)) \<le> v" using w(1) by (simp add: v power_add)
  with byte_size_unique [OF n, of "s - 1" "15 + 8 * (s - 3)"] up s False show ?thesis by simp
qed

lemma compact_normalised_mantissa:
  fixes w s :: nat
  assumes "3 \<le> s"
  shows "compact_mantissa0 (w * 2 ^ (8 * (s - 3))) s = w"
    and "compact_mantissa0 (w * 2 ^ (8 * (s - 3))) (s - 1) = w * 256"
proof -
  show "compact_mantissa0 (w * 2 ^ (8 * (s - 3))) s = w"
    using assms by (auto simp: compact_mantissa0_def)
  consider "s = 3" | "s = 4" | "4 < s" using assms by linarith
  then show "compact_mantissa0 (w * 2 ^ (8 * (s - 3))) (s - 1) = w * 256"
  proof cases
    case 3
    then have "8 * (s - 3) = 8 + 8 * (s - 4)" by simp
    then have "(2::nat) ^ (8 * (s - 3)) = 256 * 2 ^ (8 * (s - 4))" by (simp only: power_add) simp
    then have "w * 2 ^ (8 * (s - 3)) div 2 ^ (8 * (s - 4)) = w * 256" by (simp only:) simp
    moreover have "s - 1 - 3 = s - 4" "\<not> s - 1 \<le> 3" using 3 by simp_all
    ultimately show ?thesis by (simp only: compact_mantissa0_def if_False)
  qed (simp_all add: compact_mantissa0_def)
qed

text \<open>A compact value whose mantissa is normalised is recovered from the target it denotes.\<close>

lemma GetCompact_SetCompact:
  assumes c: "unat c = w + 2 ^ 24 * s" and w: "2 ^ 15 \<le> w" "w < 2 ^ 23" and s: "3 \<le> s" "s \<le> 32"
    and t: "SetCompact c = (t, neg, ovf)"
  shows "GetCompact t False = Some c"
proof -
  note f = compact_fields [OF c w(2)]
  note spec = SetCompact_spec [OF t]
  have ct: "compact_target c = w * 2 ^ (8 * (s - 3))"
    using s(1) unfolding compact_target_def Let_def f by (cases "s = 3") auto
  have "compact_target c < 2 ^ 256"
    using compact_overflow_iff [OF w(2), of s] s w ct by (cases "s = 3") (auto simp: not_le)
  then have v: "bu_val t = w * 2 ^ (8 * (s - 3))" using spec(2) ct by simp
  define n where "n = (bu_bits t + 7) div 8"
  note sb = compact_size_bounds [OF spec(1), folded n_def]
  have "bu_val t \<noteq> 0" using v w(1) by simp
  with sb(3) have n: "n = (if 2 ^ 16 \<le> w then s else s - 1)"
    by (intro compact_normalised_size [OF v w s(1)] sb(2)) simp_all
  obtain c' where c': "GetCompact t False = Some c'"
    "unat c' = (let m = compact_mantissa0 (bu_val t) n
                in if 2 ^ 23 \<le> m then m div 256 + 2 ^ 24 * (n + 1) else m + 2 ^ 24 * n)"
    using GetCompact_parts [OF spec(1)] unfolding n_def Let_def by blast
  have "unat c' = w + 2 ^ 24 * s"
  proof (cases "2 ^ 16 \<le> w")
    case True
    then have "compact_mantissa0 (bu_val t) n = w" by (simp add: n v compact_normalised_mantissa(1) [OF s(1)])
    with True w(2) show ?thesis by (simp add: c'(2) n)
  next
    case False
    then have "n = s - 1" by (simp add: n)
    moreover from this have "compact_mantissa0 (bu_val t) n = w * 256"
      by (simp only: v compact_normalised_mantissa(2) [OF s(1)])
    ultimately show ?thesis using w(1) s(1) by (simp add: c'(2) Let_def)
  qed
  then have "c' = c" using c by (simp add: word_unat_eq_iff)
  then show ?thesis using c'(1) by simp
qed

subsection \<open>Blobs and limb arrays\<close>

lemma length_ArithToUint256 [simp]: "length (ArithToUint256 a) = 4 * length a"
  by (induction a) (simp_all add: WriteLE32_def)

lemma ArithToUint256_drop:
  "i < length a \<Longrightarrow> ReadLE32 (drop (i * 4) (ArithToUint256 a)) = a ! i"
proof (induction a arbitrary: i)
  case (Cons x a)
  show ?case
  proof (cases i)
    case 0
    then show ?thesis by (simp add: ReadLE32_WriteLE32)
  next
    case (Suc j)
    with Cons show ?thesis by (simp add: drop_append)
  qed
qed simp

lemma UintToArith256_inverse: "length a = 8 \<Longrightarrow> UintToArith256 (ArithToUint256 a) = a"
  by (auto simp: UintToArith256_def WIDTH_def ArithToUint256_drop intro: nth_equalityI)

lemma length_UintToArith256 [simp]: "length (UintToArith256 b) = 8"
  by (simp add: UintToArith256_def WIDTH_def)

subsection \<open>Properties\<close>

text \<open>
  C37. Every operator of \<open>arith_uint256\<close> computes the operation of its name on 256-bit numbers:
  addition, subtraction, both products and the left shift modulo \<open>2 ^ 256\<close>, the right shift exactly,
  and \<open>CompareTo\<close> orders the limb arrays as the numbers they stand for.
\<close>

theorem arith_uint256_operators:
  assumes "length a = 8" and "length b = 8"
  shows "bu_val (bu_add a b) = (bu_val a + bu_val b) mod 2 ^ 256 \<and>
    bu_val (bu_sub a b) = (bu_val a + (2 ^ 256 - bu_val b)) mod 2 ^ 256 \<and>
    bu_val (bu_mul a b) = (bu_val a * bu_val b) mod 2 ^ 256 \<and>
    bu_val (bu_mul32 a w) = (bu_val a * unat w) mod 2 ^ 256 \<and>
    bu_val (bu_shl a n) = (bu_val a * 2 ^ n) mod 2 ^ 256 \<and>
    bu_val (bu_shr a n) = bu_val a div 2 ^ n \<and>
    CompareTo a b = (if bu_val a < bu_val b then -1 else if bu_val a > bu_val b then 1 else 0)"
proof -
  have w: "32 * length a = 256" and ab: "length a = length b" using assms by simp_all
  show ?thesis
    using bu_val_add [OF ab, unfolded w] bu_val_sub [OF ab, unfolded w] bu_val_mul [OF ab, unfolded w]
      bu_val_mul32 [of a, unfolded w] bu_val_shl [of a, unfolded w] bu_val_shr [of a] CompareTo_val [OF ab]
    by blast
qed

theorem arith_uint256_operators_witness:
  "bu_val (bu_add (bu_of_u64 7) (bu_of_u64 5)) = (unat (7 :: u64) + unat (5 :: u64)) mod 2 ^ 256 \<and>
   bu_val (bu_sub (bu_of_u64 5) (bu_of_u64 7)) = (unat (5 :: u64) + (2 ^ 256 - unat (7 :: u64))) mod 2 ^ 256"
  using arith_uint256_operators [of "bu_of_u64 7" "bu_of_u64 5"]
    arith_uint256_operators [of "bu_of_u64 5" "bu_of_u64 7"]
  by (simp only: length_bu_of_u64 bu_val_of_u64 simp_thms)

text \<open>
  C38. Long division: \<open>operator/=\<close> throws \<open>uint_error\<close> exactly for a zero divisor, and otherwise
  returns the limb array of the integer quotient.
\<close>

theorem arith_uint256_division:
  assumes "length a = 8" and "length b = 8"
  shows "case bu_div a b of
      Inl e \<Rightarrow> e = Division_by_zero \<and> bu_val b = 0
    | Inr q \<Rightarrow> bu_val b \<noteq> 0 \<and> length q = 8 \<and> bu_val q = bu_val a div bu_val b"
proof (cases "bu_val b = 0")
  case True
  then show ?thesis by (simp add: bu_div_zero)
next
  case False
  with assms bu_div_val [of a b] show ?thesis by auto
qed

theorem arith_uint256_division_witness:
  "case bu_div (bu_of_u64 100) (bu_of_u64 7) of
      Inl e \<Rightarrow> e = Division_by_zero \<and> unat (7 :: u64) = 0
    | Inr q \<Rightarrow> unat (7 :: u64) \<noteq> 0 \<and> length q = 8 \<and> bu_val q = unat (100 :: u64) div unat (7 :: u64)"
  using arith_uint256_division [of "bu_of_u64 100" "bu_of_u64 7"]
  by (simp only: length_bu_of_u64 bu_val_of_u64 simp_thms)

text \<open>\<open>SetCompact\<close> decodes \<open>mantissa * 256 ^ (exponent - 3)\<close> modulo \<open>2 ^ 256\<close>; its overflow flag is
  set exactly when that number does not fit in 256 bits, and its negative flag exactly when the sign
  bit is set on a non-zero number.
\<close>

lemma SetCompact_decodes:
  "case SetCompact c of (t, fNegative, fOverflow) \<Rightarrow>
     length t = 8 \<and> bu_val t = compact_target c mod 2 ^ 256 \<and>
     (fNegative = (compact_target c \<noteq> 0 \<and> bit c 23)) \<and> (fOverflow = (2 ^ 256 \<le> compact_target c))"
proof -
  obtain t neg ovf where t: "SetCompact c = (t, neg, ovf)" by (cases "SetCompact c")
  from SetCompact_spec [OF t] show ?thesis by (simp only: t prod.case simp_thms)
qed

text \<open>
  C39. \<open>GetCompact\<close> never fails its assertions on a 256-bit number, and the target it encodes is at
  most the number, short of it by at most one part in \<open>2 ^ 15\<close>, with the sign bit clear: rounding a
  difficulty target to its compact form can only make the proof of work harder.
\<close>

theorem GetCompact_rounds_down:
  assumes "length a = 8"
  shows "\<exists>c. GetCompact a False = Some c \<and> \<not> bit c 23 \<and> compact_target c \<le> bu_val a \<and>
    (bu_val a - compact_target c) * 2 ^ 15 \<le> bu_val a"
  using assms by (rule GetCompact_spec)

theorem GetCompact_rounds_down_witness:
  "\<exists>c. GetCompact (bu_of_u64 0x1234567890) False = Some c \<and> \<not> bit c 23 \<and>
    compact_target c \<le> unat (0x1234567890 :: u64) \<and>
    (unat (0x1234567890 :: u64) - compact_target c) * 2 ^ 15 \<le> unat (0x1234567890 :: u64)"
  using GetCompact_rounds_down [of "bu_of_u64 0x1234567890"]
  by (simp only: length_bu_of_u64 bu_val_of_u64 simp_thms)

text \<open>
  C40. Round trip of the compact format: a compact value with a normalised mantissa (at least
  \<open>0x8000\<close>, sign bit clear) and an exponent from 3 to 32 is recovered by encoding what it decodes to.
\<close>

theorem compact_round_trip:
  assumes "unat c = w + 2 ^ 24 * s" and "2 ^ 15 \<le> w" "w < 2 ^ 23" and "3 \<le> s" "s \<le> 32"
  shows "GetCompact (fst (SetCompact c)) False = Some c"
  using GetCompact_SetCompact [OF assms] by (cases "SetCompact c") auto

theorem compact_round_trip_witness:
  "GetCompact (fst (SetCompact 0x1d00ffff)) False = Some 0x1d00ffff"
  by (rule compact_round_trip [where w = "0xffff" and s = "0x1d"]) simp_all

end
