(* ===== verification/Block_Index.thy ===== *)
theory Block_Index
  imports Arith_Uint256
begin

text \<open>
  The tree of block headers: \<open>CBlockHeader\<close> of \<^verbatim>\<open>src/src/primitives/block.h\<close>, \<open>CBlockIndex\<close> with its
  skip list, proofs of work and median time of \<^verbatim>\<open>src/src/chain.h\<close> and \<^verbatim>\<open>src/src/chain.cpp\<close>, and
  \<open>AddToBlockIndex\<close> of \<^verbatim>\<open>src/src/validation.cpp\<close>, the only operation that grows the tree.

  Block index objects live in a store from addresses to records; a pointer is an address or
  \<open>None\<close> for \<open>nullptr\<close>. An operation that dereferences or asserts returns an option, and \<open>None\<close>
  there is a crash (a failed assertion or a null dereference). \<open>int\<close> and \<open>int64_t\<close> values are
  unbounded integers (their overflow is undefined in C++), unsigned ones are words.
  The invariant \<open>index_inv\<close> says what the tree of a running node satisfies; under it the skip-list
  walk of \<open>GetAncestor\<close> is proved to find the block that following \<open>pprev\<close> would find.
\<close>

type_synonym blockptr = nat

record CBlockHeader =
  h_nVersion :: int
  h_hashPrevBlock :: uint256
  h_hashMerkleRoot :: uint256
  h_nTime :: u32
  h_nBits :: u32
  h_nNonce :: u32
  h_nHeight :: u32
  h_nNonce64 :: u64
  h_mix_hash :: uint256

record CBlockIndex =
  phashBlock :: "uint256 option"
  pprev :: "blockptr option"
  pskip :: "blockptr option"
  nHeight :: int
  nFile :: int
  nDataPos :: u32
  nUndoPos :: u32
  nChainWork :: base_uint
  nTx :: u32
  nChainTx :: u32
  nStatus :: u32
  nVersion :: int
  hashMerkleRoot :: uint256
  nTime :: u32
  nBits :: u32
  nNonce :: u32
  nNonce64 :: u64
  mix_hash :: uint256
  nSequenceId :: int
  nTimeMax :: u32

type_synonym block_store = "blockptr \<Rightarrow> CBlockIndex option"

definition CBlockIndex_SetNull :: CBlockIndex where
  "CBlockIndex_SetNull =
     \<lparr>phashBlock = None, pprev = None, pskip = None, nHeight = 0, nFile = 0, nDataPos = 0,
      nUndoPos = 0, nChainWork = bu_zero, nTx = 0, nChainTx = 0, nStatus = 0, nVersion = 0,
      hashMerkleRoot = uint256_null, nTime = 0, nBits = 0, nNonce = 0, nNonce64 = 0,
      mix_hash = uint256_null, nSequenceId = 0, nTimeMax = 0\<rparr>"

definition CBlockIndex_of_header :: "CBlockHeader \<Rightarrow> CBlockIndex" where
  "CBlockIndex_of_header block = CBlockIndex_SetNull
     \<lparr>nVersion := h_nVersion block, hashMerkleRoot := h_hashMerkleRoot block, nTime := h_nTime block,
      nBits := h_nBits block, nNonce := h_nNonce block, nHeight := sint (h_nHeight block),
      nNonce64 := h_nNonce64 block, mix_hash := h_mix_hash block\<rparr>"

definition GetBlockHeader :: "block_store \<Rightarrow> CBlockIndex \<Rightarrow> CBlockHeader option" where
  "GetBlockHeader st b =
     (case (case pprev b of
              None \<Rightarrow> Some uint256_null
            | Some q \<Rightarrow> Option.bind (st q) phashBlock) of
        None \<Rightarrow> None
      | Some prevHash \<Rightarrow> Some
          \<lparr>h_nVersion = nVersion b, h_hashPrevBlock = prevHash, h_hashMerkleRoot = hashMerkleRoot b,
           h_nTime = nTime b, h_nBits = nBits b, h_nNonce = nNonce b,
           h_nHeight = word_of_int (nHeight b), h_nNonce64 = nNonce64 b, h_mix_hash = mix_hash b\<rparr>)"

definition GetBlockTime :: "CBlockIndex \<Rightarrow> int" where
  "GetBlockTime b = uint (nTime b)"

definition GetBlockTimeMax :: "CBlockIndex \<Rightarrow> int" where
  "GetBlockTimeMax b = uint (nTimeMax b)"

subsection \<open>Validity status\<close>

abbreviation (input) BLOCK_VALID_HEADER :: u32 where "BLOCK_VALID_HEADER \<equiv> 1"
abbreviation (input) BLOCK_VALID_TREE :: u32 where "BLOCK_VALID_TREE \<equiv> 2"
abbreviation (input) BLOCK_VALID_TRANSACTIONS :: u32 where "BLOCK_VALID_TRANSACTIONS \<equiv> 3"
abbreviation (input) BLOCK_VALID_CHAIN :: u32 where "BLOCK_VALID_CHAIN \<equiv> 4"
abbreviation (input) BLOCK_VALID_SCRIPTS :: u32 where "BLOCK_VALID_SCRIPTS \<equiv> 5"
abbreviation (input) BLOCK_VALID_MASK :: u32 where "BLOCK_VALID_MASK \<equiv> 7"
abbreviation (input) BLOCK_HAVE_DATA :: u32 where "BLOCK_HAVE_DATA \<equiv> 8"
abbreviation (input) BLOCK_HAVE_UNDO :: u32 where "BLOCK_HAVE_UNDO \<equiv> 16"
abbreviation (input) BLOCK_FAILED_VALID :: u32 where "BLOCK_FAILED_VALID \<equiv> 32"
abbreviation (input) BLOCK_FAILED_CHILD :: u32 where "BLOCK_FAILED_CHILD \<equiv> 64"
abbreviation (input) BLOCK_FAILED_MASK :: u32 where "BLOCK_FAILED_MASK \<equiv> 96"

definition IsValid :: "CBlockIndex \<Rightarrow> u32 \<Rightarrow> bool option" where
  "IsValid b nUpTo =
     (if nUpTo AND NOT BLOCK_VALID_MASK \<noteq> 0 then None
      else if nStatus b AND BLOCK_FAILED_MASK \<noteq> 0 then Some False
      else Some (nStatus b AND BLOCK_VALID_MASK \<ge> nUpTo))"

definition RaiseValidity :: "CBlockIndex \<Rightarrow> u32 \<Rightarrow> (CBlockIndex \<times> bool) option" where
  "RaiseValidity b nUpTo =
     (if nUpTo AND NOT BLOCK_VALID_MASK \<noteq> 0 then None
      else if nStatus b AND BLOCK_FAILED_MASK \<noteq> 0 then Some (b, False)
      else if nStatus b AND BLOCK_VALID_MASK < nUpTo
      then Some (b\<lparr>nStatus := (nStatus b AND NOT BLOCK_VALID_MASK) OR nUpTo\<rparr>, True)
      else Some (b, False))"

subsection \<open>The skip list\<close>

definition InvertLowestOne :: "int \<Rightarrow> int" where
  "InvertLowestOne n = n AND (n - 1)"

definition GetSkipHeight :: "int \<Rightarrow> int" where
  "GetSkipHeight height =
     (if height < 2 then 0
      else if height AND 1 \<noteq> 0 then InvertLowestOne (InvertLowestOne (height - 1)) + 1
      else InvertLowestOne height)"

partial_function (option) GetAncestor_walk ::
    "block_store \<Rightarrow> blockptr \<Rightarrow> int \<Rightarrow> int \<Rightarrow> blockptr option" where
  "GetAncestor_walk st pindexWalk heightWalk height =
     (if heightWalk > height then
        (case st pindexWalk of
           None \<Rightarrow> None
         | Some b \<Rightarrow>
             let heightSkip = GetSkipHeight heightWalk;
                 heightSkipPrev = GetSkipHeight (heightWalk - 1)
             in if pskip b \<noteq> None \<and>
                   (heightSkip = height \<or>
                    (heightSkip > height \<and>
                     \<not> (heightSkipPrev < heightSkip - 2 \<and> heightSkipPrev \<ge> height)))
                then GetAncestor_walk st (the (pskip b)) heightSkip height
                else (case pprev b of
                        None \<Rightarrow> None
                      | Some q \<Rightarrow> GetAncestor_walk st q (heightWalk - 1) height))
      else Some pindexWalk)"

definition GetAncestor :: "block_store \<Rightarrow> blockptr \<Rightarrow> int \<Rightarrow> blockptr option option" where
  "GetAncestor st p height =
     (case st p of
        None \<Rightarrow> None
      | Some b \<Rightarrow> if height > nHeight b \<or> height < 0 then Some None
                  else map_option Some (GetAncestor_walk st p (nHeight b) height))"

definition BuildSkip :: "block_store \<Rightarrow> CBlockIndex \<Rightarrow> CBlockIndex option" where
  "BuildSkip st b =
     (case pprev b of
        None \<Rightarrow> Some b
      | Some q \<Rightarrow> map_option (\<lambda>r. b\<lparr>pskip := r\<rparr>) (GetAncestor st q (GetSkipHeight (nHeight b))))"

subsection \<open>Proof of work and time of a block\<close>

definition GetBlockProof :: "u32 \<Rightarrow> uint_error + base_uint" where
  "GetBlockProof bits =
     (let (bnTarget, fNegative, fOverflow) = SetCompact bits
      in if fNegative \<or> fOverflow \<or> EqualTo bnTarget 0 then Inr (bu_of_u64 0)
         else (case bu_div (bu_not bnTarget) (bu_add bnTarget (bu_of_u64 1)) of
                 Inl e \<Rightarrow> Inl e
               | Inr q \<Rightarrow> Inr (bu_add q (bu_of_u64 1))))"

definition nMedianTimeSpan :: nat where
  "nMedianTimeSpan = 11"

text \<open>The times of the block at \<open>p\<close> and of its predecessors, at most \<open>n\<close> of them.\<close>

fun past_times :: "block_store \<Rightarrow> nat \<Rightarrow> blockptr option \<Rightarrow> int list" where
  "past_times st 0 p = []"
| "past_times st (Suc n) None = []"
| "past_times st (Suc n) (Some p) =
     (case st p of None \<Rightarrow> [] | Some b \<Rightarrow> GetBlockTime b # past_times st n (pprev b))"

definition GetMedianTimePast :: "block_store \<Rightarrow> blockptr \<Rightarrow> int" where
  "GetMedianTimePast st p =
     (let pmedian = sort (past_times st nMedianTimeSpan (Some p))
      in pmedian ! (length pmedian div 2))"

subsection \<open>Growing the tree\<close>

record index_state =
  blocks :: block_store
  next_block :: blockptr
  mapBlockIndex :: "uint256 \<Rightarrow> blockptr option"
  pindexBestHeader :: "blockptr option"
  setDirtyBlockIndex :: "blockptr set"

text \<open>\<open>GetHash\<close> is the header hash of \<open>CBlockHeader::GetHash\<close> (X16R, X16RV2 or KAWPOW). The result
  \<open>None\<close> is a crash. Allocation takes the address \<open>next_block\<close>.\<close>

definition link_block :: "index_state \<Rightarrow> CBlockHeader \<Rightarrow> uint256 \<Rightarrow> CBlockIndex option" where
  "link_block s block hash =
     (let new = (CBlockIndex_of_header block)\<lparr>nSequenceId := 0, phashBlock := Some hash\<rparr>
      in case ((mapBlockIndex s)(hash \<mapsto> next_block s)) (h_hashPrevBlock block) of
           None \<Rightarrow> Some new
         | Some q \<Rightarrow>
             (case ((blocks s)(next_block s \<mapsto> new)) q of
                None \<Rightarrow> None
              | Some prev \<Rightarrow>
                  (let new1 = new\<lparr>pprev := Some q, nHeight := nHeight prev + 1\<rparr>
                   in BuildSkip ((blocks s)(next_block s \<mapsto> new1)) new1)))"

definition prev_fields :: "block_store \<Rightarrow> CBlockIndex \<Rightarrow> (u32 \<times> base_uint) option" where
  "prev_fields st b =
     (case pprev b of
        None \<Rightarrow> Some (nTime b, bu_zero)
      | Some q \<Rightarrow> map_option (\<lambda>prev. (max (nTimeMax prev) (nTime b), nChainWork prev)) (st q))"

definition better_header :: "block_store \<Rightarrow> blockptr option \<Rightarrow> base_uint \<Rightarrow> bool" where
  "better_header st best work =
     (case best of
        None \<Rightarrow> True
      | Some p \<Rightarrow> (case st p of None \<Rightarrow> False | Some b \<Rightarrow> CompareTo (nChainWork b) work < 0))"

definition AddToBlockIndex ::
    "(CBlockHeader \<Rightarrow> uint256) \<Rightarrow> index_state \<Rightarrow> CBlockHeader \<Rightarrow> (index_state \<times> blockptr) option" where
  "AddToBlockIndex GetHash s block =
     (let hash = GetHash block; p = next_block s
      in case mapBlockIndex s hash of
           Some q \<Rightarrow> Some (s, q)
         | None \<Rightarrow>
             (case link_block s block hash of
                None \<Rightarrow> None
              | Some b1 \<Rightarrow>
                  (case (prev_fields ((blocks s)(p \<mapsto> b1)) b1, GetBlockProof (nBits b1)) of
                     (Some (timeMax, work), Inr proof) \<Rightarrow>
                       (case RaiseValidity
                               (b1\<lparr>nTimeMax := timeMax, nChainWork := bu_add work proof\<rparr>)
                               BLOCK_VALID_TREE of
                          None \<Rightarrow> None
                        | Some (b2, _) \<Rightarrow>
                            Some (s\<lparr>blocks := (blocks s)(p \<mapsto> b2), next_block := p + 1,
                                    mapBlockIndex := (mapBlockIndex s)(hash \<mapsto> p),
                                    pindexBestHeader :=
                                      (if better_header (blocks s) (pindexBestHeader s) (nChainWork b2)
                                       then Some p else pindexBestHeader s),
                                    setDirtyBlockIndex := insert p (setDirtyBlockIndex s)\<rparr>, p))
                   | _ \<Rightarrow> None)))"

subsection \<open>Skip heights and ancestors\<close>

lemma InvertLowestOne_bounds:
  "0 \<le> n \<Longrightarrow> 0 \<le> InvertLowestOne n"
  "0 < n \<Longrightarrow> InvertLowestOne n < n"
  "0 \<le> n \<Longrightarrow> InvertLowestOne n \<le> n"
proof -
  have le: "0 < n \<Longrightarrow> InvertLowestOne n \<le> n - 1"
    unfolding InvertLowestOne_def by (rule AND_upper2) simp
  show "0 \<le> n \<Longrightarrow> 0 \<le> InvertLowestOne n" by (simp add: InvertLowestOne_def)
  show "0 < n \<Longrightarrow> InvertLowestOne n < n" using le by simp
  show "0 \<le> n \<Longrightarrow> InvertLowestOne n \<le> n"
    using le by (cases "n = 0") (simp_all add: InvertLowestOne_def)
qed

lemma GetSkipHeight_nonneg: "0 \<le> GetSkipHeight h"
  by (auto simp: GetSkipHeight_def intro!: InvertLowestOne_bounds add_nonneg_nonneg)

lemma GetSkipHeight_less: "0 < h \<Longrightarrow> GetSkipHeight h < h"
proof -
  assume "0 < h"
  consider "h < 2" | "2 \<le> h" "h AND 1 \<noteq> 0" | "2 \<le> h" "h AND 1 = 0" by linarith
  then show ?thesis
  proof cases
    case 2
    have "InvertLowestOne (InvertLowestOne (h - 1)) \<le> InvertLowestOne (h - 1)"
      using 2 by (intro InvertLowestOne_bounds) simp
    also have "\<dots> < h - 1" using 2 by (intro InvertLowestOne_bounds) simp
    finally show ?thesis using 2 by (simp add: GetSkipHeight_def)
  next
    case 3
    then show ?thesis using InvertLowestOne_bounds(2)[of h] by (simp add: GetSkipHeight_def)
  qed (use \<open>0 < h\<close> in \<open>simp add: GetSkipHeight_def\<close>)
qed

text \<open>The reference: the block \<open>k\<close> steps up the \<open>pprev\<close> links.\<close>

fun anc :: "block_store \<Rightarrow> nat \<Rightarrow> blockptr \<Rightarrow> blockptr option" where
  "anc st 0 p = Some p"
| "anc st (Suc k) p = Option.bind (st p) (\<lambda>b. Option.bind (pprev b) (anc st k))"

definition wf_entry :: "block_store \<Rightarrow> CBlockIndex \<Rightarrow> bool" where
  "wf_entry st b =
     (0 \<le> nHeight b \<and>
      (case pprev b of
         None \<Rightarrow> nHeight b = 0 \<and> pskip b = None
       | Some q \<Rightarrow> (\<exists>c. st q = Some c \<and> nHeight b = nHeight c + 1) \<and> 
                   (\<exists>r. pskip b = Some r \<and>
                        anc st (nat (nHeight b - 1 - GetSkipHeight (nHeight b))) q = Some r)))"

definition wf_store :: "block_store \<Rightarrow> bool" where
  "wf_store st = (\<forall>p b. st p = Some b \<longrightarrow> wf_entry st b)"

lemma wf_storeD:
  assumes "wf_store st" "st p = Some b"
  shows "0 \<le> nHeight b"
    and "pprev b = None \<Longrightarrow> nHeight b = 0 \<and> pskip b = None"
    and "pprev b = Some q \<Longrightarrow> \<exists>c. st q = Some c \<and> nHeight b = nHeight c + 1"
    and "pprev b = Some q \<Longrightarrow>
           \<exists>r. pskip b = Some r \<and>
               anc st (nat (nHeight b - 1 - GetSkipHeight (nHeight b))) q = Some r"
proof -
  have w: "wf_entry st b" using assms unfolding wf_store_def by blast
  show "0 \<le> nHeight b" using w by (simp add: wf_entry_def)
  show "pprev b = None \<Longrightarrow> nHeight b = 0 \<and> pskip b = None" using w by (simp add: wf_entry_def)
  show "pprev b = Some q \<Longrightarrow> \<exists>c. st q = Some c \<and> nHeight b = nHeight c + 1"
    using w by (simp add: wf_entry_def)
  show "pprev b = Some q \<Longrightarrow>
      \<exists>r. pskip b = Some r \<and> anc st (nat (nHeight b - 1 - GetSkipHeight (nHeight b))) q = Some r"
    using w unfolding wf_entry_def by simp
qed

lemma wf_store_parent:
  assumes "wf_store st" "st p = Some b" "0 < nHeight b"
  obtains q c where "pprev b = Some q" "st q = Some c" "nHeight b = nHeight c + 1"
  using wf_storeD[OF assms(1,2)] assms(3) by (cases "pprev b") auto

lemma anc_add: "anc st (i + j) p = Option.bind (anc st i p) (anc st j)"
  by (induction i arbitrary: p) (auto split: bind_splits)

lemma anc_ancestor:
  assumes "wf_store st" "st p = Some b" "int k \<le> nHeight b"
  shows "\<exists>q c. anc st k p = Some q \<and> st q = Some c \<and> nHeight c = nHeight b - int k"
  using assms(2,3)
proof (induction k arbitrary: p b)
  case (Suc k)
  then have "0 < nHeight b" by simp
  then obtain q c where q: "pprev b = Some q" "st q = Some c" "nHeight b = nHeight c + 1"
    using wf_store_parent[OF assms(1) Suc.prems(1)] by blast
  from Suc.IH[OF q(2)] Suc.prems q show ?case by auto
qed simp

lemma GetAncestor_walk_anc:
  assumes wf: "wf_store st" and "st p = Some b" "0 \<le> h" "h \<le> nHeight b"
  shows "GetAncestor_walk st p (nHeight b) h = anc st (nat (nHeight b - h)) p"
  using assms(2-4)
proof (induction "nat (nHeight b)" arbitrary: p b rule: less_induct)
  case less
  note unf = GetAncestor_walk.simps[of st p "nHeight b" h]
  show ?case
  proof (cases "nHeight b > h")
    case False
    with less.prems show ?thesis unfolding unf by simp
  next
    case True
    define s where "s = GetSkipHeight (nHeight b)"
    have s: "0 \<le> s" "s < nHeight b"
      using True less.prems(2) GetSkipHeight_nonneg GetSkipHeight_less by (auto simp: s_def)
    obtain q c where q: "pprev b = Some q" "st q = Some c" "nHeight b = nHeight c + 1"
      using wf_store_parent[OF wf less.prems(1)] True less.prems(2) by auto
    have up: "anc st (Suc k) p = anc st k q" for k
      using q less.prems(1) by simp
    have prev: "GetAncestor_walk st q (nHeight b - 1) h = anc st (nat (nHeight b - h)) p"
    proof -
      have "nat (nHeight b - h) = Suc (nat (nHeight c - h))" using q True less.prems by simp
      with less.hyps[of c q] q less.prems True up show ?thesis by auto
    qed
    have skip: "GetAncestor_walk st (the (pskip b)) s h = anc st (nat (nHeight b - h)) p" if "h \<le> s"
    proof -
      have k: "nat (nHeight b - s) = Suc (nat (nHeight b - 1 - s))" using s by simp
      from wf_storeD(4)[OF wf less.prems(1) q(1)] obtain r where
        r: "pskip b = Some r" "anc st (nat (nHeight b - s)) p = Some r"
        unfolding k up by (auto simp: s_def)
      obtain d where d: "st r = Some d" "nHeight d = s"
        using anc_ancestor[OF wf less.prems(1), of "nat (nHeight b - s)"] r s by auto
      have sum: "nat (nHeight b - h) = nat (nHeight b - s) + nat (s - h)"
        using s that less.prems by simp
      have "GetAncestor_walk st r s h = anc st (nat (s - h)) r"
        using less.hyps[of d r] d s that less.prems by simp
      then show ?thesis unfolding sum anc_add by (simp add: r)
    qed
    show ?thesis
      unfolding unf using True less.prems(1) q(1) prev skip
      by (auto simp: s_def[symmetric] Let_def)
  qed
qed

lemma anc_beyond:
  assumes "wf_store st" "st p = Some b"
  shows "anc st (Suc (nat (nHeight b))) p = None"
  using assms
proof (induction "nat (nHeight b)" arbitrary: p b)
  case 0
  then have "nHeight b = 0" using wf_storeD(1)[OF 0(2,3)] by simp
  then have "pprev b = None"
    using wf_storeD(3)[OF 0(2,3)] wf_storeD(1)[OF 0(2)] by (cases "pprev b") fastforce+
  then show ?case using 0 by simp
next
  case (Suc n)
  then have "0 < nHeight b" by simp
  then obtain q c where q: "pprev b = Some q" "st q = Some c" "nHeight b = nHeight c + 1"
    using wf_store_parent[OF Suc.prems] by blast
  then have n: "n = nat (nHeight c)" using Suc.hyps(2) by simp
  from Suc.hyps(1)[OF n Suc.prems(1) q(2)] show ?case
    unfolding Suc.hyps(2)[symmetric] n[symmetric] using Suc.prems(2) q(1) by simp
qed

text \<open>On a well-formed tree \<open>GetAncestor\<close> is total and finds the block that \<open>pprev\<close> links lead to.\<close>

lemma GetAncestor_anc:
  assumes "wf_store st" "st p = Some b"
  shows "GetAncestor st p h =
     Some (if 0 \<le> h \<and> h \<le> nHeight b then anc st (nat (nHeight b - h)) p else None)"
  using assms GetAncestor_walk_anc[OF assms, of h] anc_ancestor[OF assms, of "nat (nHeight b - h)"]
  by (auto simp: GetAncestor_def)

subsection \<open>Chain work\<close>

text \<open>The expected number of hashes behind a compact target: \<open>2 ^ 256 div (target + 1)\<close>.\<close>

definition block_work :: "u32 \<Rightarrow> nat" where
  "block_work c =
     (if bit c 23 \<or> 2 ^ 256 \<le> compact_target c \<or> compact_target c = 0 then 0
      else 2 ^ 256 div (compact_target c + 1))"

lemma compact_target_not_max: "compact_target c < 2 ^ 256 \<Longrightarrow> compact_target c + 1 < 2 ^ 256"
proof -
  assume less: "compact_target c < 2 ^ 256"
  let ?n = "unat c div 2 ^ 24" and ?w = "unat c mod 2 ^ 23"
  have "compact_target c + 1 \<noteq> 2 ^ 256"
  proof (cases "?n \<le> 3")
    case True
    have "?w div 2 ^ (8 * (3 - ?n)) \<le> ?w" by (rule div_le_dividend)
    also have "?w < 2 ^ 23" by simp
    finally have "compact_target c < 2 ^ 23" using True by (simp add: compact_target_def)
    moreover have "(2 :: nat) ^ 24 \<le> 2 ^ 256" by (rule power_increasing) simp_all
    moreover have "(2 :: nat) ^ 24 = 2 * 2 ^ 23" by simp
    ultimately show ?thesis by linarith
  next
    case False
    then have "even (compact_target c)" by (simp add: compact_target_def Let_def)
    then have "odd (compact_target c + 1)" by simp
    moreover have "even ((2 :: nat) ^ 256)" by (simp only: even_power) simp
    ultimately show ?thesis by metis
  qed
  with less show ?thesis by linarith
qed

lemma GetBlockProof_spec:
  "\<exists>r. GetBlockProof bits = Inr r \<and> length r = 8 \<and> bu_val r = block_work bits"
proof -
  obtain t neg ovf where t: "SetCompact bits = (t, neg, ovf)" by (cases "SetCompact bits")
  note spec = SetCompact_spec [OF t]
  define M where "M = (2 :: nat) ^ 256"
  define T where "T = compact_target bits"
  have M: "(2 :: nat) ^ (32 * 8) = M" by (simp add: M_def)
  show ?thesis
  proof (cases "neg \<or> ovf \<or> EqualTo t 0")
    case True
    have "block_work bits = 0"
    proof (cases "neg \<or> ovf")
      case True
      then show ?thesis unfolding block_work_def spec(3,4) by auto
    next
      case False
      then have "T < M" using spec(4) by (simp add: T_def M_def)
      moreover have "bu_val t = 0" using False True by (simp add: EqualTo_val spec(1))
      ultimately have "T = 0" using spec(2) unfolding T_def[symmetric] M_def[symmetric] by simp
      then show ?thesis by (simp add: block_work_def T_def)
    qed
    then show ?thesis using True by (simp add: GetBlockProof_def t bu_val_of_u64)
  next
    case False
    then have T: "T < M" "bu_val t = T" "T \<noteq> 0"
      using spec by (auto simp: T_def M_def EqualTo_val)
    have T1: "T + 1 < M" using compact_target_not_max[of bits] T(1) unfolding T_def M_def by blast
    have num: "bu_val (bu_not t) = M - 1 - T" by (simp only: bu_val_not spec(1) T M)
    have den: "bu_val (bu_add t (bu_of_u64 1)) = T + 1"
      using T1 by (simp only: bu_val_add spec(1) length_bu_of_u64 M T bu_val_of_u64 unsigned_1 mod_less)
    obtain q where q: "bu_div (bu_not t) (bu_add t (bu_of_u64 1)) = Inr q" "length q = 8"
        "bu_val q = (M - 1 - T) div (T + 1)"
      using bu_div_val[of "bu_not t" "bu_add t (bu_of_u64 1)"] by (auto simp: spec(1) num den)
    have div: "(M - 1 - T) div (T + 1) + 1 = M div (T + 1)"
      using le_div_geq[of "T + 1" M] T1 by simp
    have "M div (T + 1) < M" using T T1 by (intro div_less_dividend) auto
    with q(2,3) have "bu_val (bu_add q (bu_of_u64 1)) = M div (T + 1)"
      by (simp only: bu_val_add length_bu_of_u64 M bu_val_of_u64 unsigned_1 div mod_less)
    moreover have "block_work bits = M div (T + 1)"
      using False T spec(3,4) unfolding block_work_def T_def M_def by auto
    ultimately show ?thesis using False q by (auto simp: GetBlockProof_def t)
  qed
qed

lemma bu_val_less_256: "length a = 8 \<Longrightarrow> bu_val a < 2 ^ 256"
  using bu_val_less[of a] by simp

lemma block_work_less: "block_work c < 2 ^ 256"
  using GetBlockProof_spec[of c] bu_val_less_256 by metis
subsection \<open>The invariant of the block index\<close>

definition work_entry :: "block_store \<Rightarrow> CBlockIndex \<Rightarrow> bool" where
  "work_entry st b =
     (length (nChainWork b) = 8 \<and>
      (case pprev b of
         None \<Rightarrow> nTimeMax b = nTime b \<and> bu_val (nChainWork b) = block_work (nBits b)
       | Some q \<Rightarrow> \<exists>c. st q = Some c \<and> nTimeMax b = max (nTimeMax c) (nTime b) \<and>
           bu_val (nChainWork b) = (bu_val (nChainWork c) + block_work (nBits b)) mod 2 ^ 256))"

definition work_of :: "index_state \<Rightarrow> blockptr \<Rightarrow> nat" where
  "work_of s p = (case blocks s p of None \<Rightarrow> 0 | Some b \<Rightarrow> bu_val (nChainWork b))"

definition map_inv :: "index_state \<Rightarrow> bool" where
  "map_inv s =
     ((\<forall>h p. mapBlockIndex s h = Some p \<longrightarrow> (\<exists>b. blocks s p = Some b \<and> phashBlock b = Some h)) \<and>
      (\<forall>p b. blocks s p = Some b \<longrightarrow> (\<exists>h. phashBlock b = Some h \<and> mapBlockIndex s h = Some p)) \<and>
      (\<forall>p. next_block s \<le> p \<longrightarrow> blocks s p = None))"

definition best_inv :: "index_state \<Rightarrow> bool" where
  "best_inv s =
     (case pindexBestHeader s of
        None \<Rightarrow> \<forall>p. blocks s p = None
      | Some best \<Rightarrow> blocks s best \<noteq> None \<and> (\<forall>p. work_of s p \<le> work_of s best))"

definition index_inv :: "index_state \<Rightarrow> bool" where
  "index_inv s =
     (wf_store (blocks s) \<and> (\<forall>p b. blocks s p = Some b \<longrightarrow> work_entry (blocks s) b) \<and>
      map_inv s \<and> best_inv s)"

text \<open>What \<open>AcceptBlockHeader\<close> has checked of a header it adds: it does not name itself as its
  parent, and only the genesis header, of height 0, has an unknown parent.\<close>

definition header_linked :: "(CBlockHeader \<Rightarrow> uint256) \<Rightarrow> index_state \<Rightarrow> CBlockHeader \<Rightarrow> bool" where
  "header_linked GetHash s block =
     (GetHash block \<noteq> h_hashPrevBlock block \<and>
      (mapBlockIndex s (h_hashPrevBlock block) = None \<longrightarrow> h_nHeight block = 0))"

lemma map_leD: "st \<subseteq>\<^sub>m st' \<Longrightarrow> st p = Some b \<Longrightarrow> st' p = Some b"
  by (metis domI map_le_def)

lemma map_le_fresh: "st p = None \<Longrightarrow> st \<subseteq>\<^sub>m st(p \<mapsto> b)"
  by (auto simp: map_le_def)

lemma anc_mono: "st \<subseteq>\<^sub>m st' \<Longrightarrow> anc st k p = Some q \<Longrightarrow> anc st' k p = Some q"
  by (induction k arbitrary: p) (fastforce simp: bind_eq_Some_conv dest: map_leD)+

lemma wf_entry_mono: "st \<subseteq>\<^sub>m st' \<Longrightarrow> wf_entry st b \<Longrightarrow> wf_entry st' b"
  by (auto simp: wf_entry_def split: option.splits dest: map_leD anc_mono)

lemma work_entry_mono: "st \<subseteq>\<^sub>m st' \<Longrightarrow> work_entry st b \<Longrightarrow> work_entry st' b"
  unfolding work_entry_def by (auto split: option.splits dest: map_leD)

lemma GetAncestor_walk_mono:
  assumes "GetAncestor_walk st p hw h = Some r" "st \<subseteq>\<^sub>m st'"
  shows "GetAncestor_walk st' p hw h = Some r"
  using assms
proof (induction rule: GetAncestor_walk.raw_induct[rotated, consumes 1, case_names step])
  case (step walk st p hw h r)
  show ?case
  proof (cases "h < hw")
    case True
    with step(2) obtain b where b: "st p = Some b" by (auto split: option.splits)
    then have b': "st' p = Some b" by (rule map_leD[OF step(3)])
    show ?thesis
      using step(2) True b step(1)[OF _ step(3)]
      by (subst GetAncestor_walk.simps) (auto simp: b' Let_def split: if_splits option.splits)
  next
    case False
    with step(2) show ?thesis by (subst GetAncestor_walk.simps) auto
  qed
qed

lemma GetAncestor_mono:
  assumes "GetAncestor st p h = Some r" "st \<subseteq>\<^sub>m st'"
  shows "GetAncestor st' p h = Some r"
proof -
  obtain b where b: "st p = Some b" using assms(1) by (auto simp: GetAncestor_def split: option.splits)
  with assms map_leD[OF assms(2) b] show ?thesis
    by (auto simp: GetAncestor_def split: if_splits dest: GetAncestor_walk_mono)
qed

subsection \<open>Adding a header keeps the invariant\<close>

lemma index_invD:
  assumes "index_inv s"
  shows "wf_store (blocks s)" "blocks s p = Some b \<Longrightarrow> work_entry (blocks s) b"
    "map_inv s" "best_inv s" "blocks s (next_block s) = None"
    "mapBlockIndex s h = Some q \<Longrightarrow> \<exists>b. blocks s q = Some b \<and> phashBlock b = Some h"
  using assms by (auto simp: index_inv_def map_inv_def)

definition carries_header :: "CBlockHeader \<Rightarrow> CBlockIndex \<Rightarrow> bool" where
  "carries_header block b =
     (nVersion b = h_nVersion block \<and> hashMerkleRoot b = h_hashMerkleRoot block \<and>
      nTime b = h_nTime block \<and> nBits b = h_nBits block \<and> nNonce b = h_nNonce block \<and>
      nNonce64 b = h_nNonce64 block \<and> mix_hash b = h_mix_hash block)"

lemma link_block_spec:
  assumes inv: "index_inv s" and link: "header_linked GetHash s block"
  obtains b where "link_block s block (GetHash block) = Some b" "wf_entry (blocks s) b"
    "pprev b = mapBlockIndex s (h_hashPrevBlock block)" "phashBlock b = Some (GetHash block)"
    "carries_header block b" "nStatus b = 0"
proof -
  define new where "new = (CBlockIndex_of_header block)\<lparr>nSequenceId := 0, phashBlock := Some (GetHash block)\<rparr>"
  have new: "phashBlock new = Some (GetHash block)" "pprev new = None" "pskip new = None"
    "carries_header block new" "nStatus new = 0" "nHeight new = sint (h_nHeight block)"
    by (simp_all add: new_def CBlockIndex_of_header_def CBlockIndex_SetNull_def carries_header_def)
  let ?p = "next_block s"
  note fresh = index_invD(5)[OF inv]
  have look: "((mapBlockIndex s)(GetHash block \<mapsto> ?p)) (h_hashPrevBlock block) =
      mapBlockIndex s (h_hashPrevBlock block)"
    using link by (auto simp: header_linked_def)
  show thesis
  proof (cases "mapBlockIndex s (h_hashPrevBlock block)")
    case None
    then have "nHeight new = 0" using link new(6) by (simp add: header_linked_def)
    then have "wf_entry (blocks s) new" by (simp add: wf_entry_def new)
    moreover have "link_block s block (GetHash block) = Some new"
      unfolding link_block_def Let_def look new_def[symmetric] by (simp add: None)
    ultimately show thesis by (intro that[of new]) (simp_all add: new None)
  next
    case (Some q)
    then obtain c where c: "blocks s q = Some c" using index_invD(6)[OF inv] by blast
    with fresh have qp: "q \<noteq> ?p" by auto
    define h where "h = nHeight c + 1"
    define new1 where "new1 = new\<lparr>pprev := Some q, nHeight := h\<rparr>"
    have c0: "0 \<le> nHeight c" by (rule wf_storeD(1)[OF index_invD(1)[OF inv] c])
    have sh: "0 \<le> GetSkipHeight h" "GetSkipHeight h \<le> nHeight c"
      using GetSkipHeight_nonneg GetSkipHeight_less[of h] c0 by (auto simp: h_def)
    obtain r where r: "anc (blocks s) (nat (nHeight c - GetSkipHeight h)) q = Some r"
      using anc_ancestor[OF index_invD(1)[OF inv] c, of "nat (nHeight c - GetSkipHeight h)"] sh by auto
    have le: "blocks s \<subseteq>\<^sub>m (blocks s)(?p \<mapsto> new1)" using fresh by (rule map_le_fresh)
    have "GetAncestor (blocks s) q (GetSkipHeight h) = Some (Some r)"
      unfolding GetAncestor_anc[OF index_invD(1)[OF inv] c] using sh r by simp
    then have ga: "GetAncestor ((blocks s)(?p \<mapsto> new1)) q (GetSkipHeight h) = Some (Some r)"
      by (rule GetAncestor_mono[OF _ le])
    have "link_block s block (GetHash block) = BuildSkip ((blocks s)(?p \<mapsto> new1)) new1"
      unfolding link_block_def Let_def look new_def[symmetric] using Some c qp
      by (simp add: new1_def h_def)
    also have "\<dots> = Some (new1\<lparr>pskip := Some r\<rparr>)"
      using ga by (simp add: BuildSkip_def new1_def)
    finally have lb: "link_block s block (GetHash block) = Some (new1\<lparr>pskip := Some r\<rparr>)" .
    have "wf_entry (blocks s) (new1\<lparr>pskip := Some r\<rparr>)"
      using c0 c r by (simp add: wf_entry_def new1_def h_def)
    with lb show thesis
      using new by (intro that[OF lb]) (simp_all add: new1_def Some carries_header_def)
  qed
qed

lemma bu_val_add_256:
  "length a = 8 \<Longrightarrow> length b = 8 \<Longrightarrow> bu_val (bu_add a b) = (bu_val a + bu_val b) mod 2 ^ 256"
  using bu_val_add[of a b] by simp

lemma prev_fields_spec:
  assumes inv: "index_inv s" and wf: "wf_entry (blocks s) b"
  obtains timeMax work where
    "prev_fields ((blocks s)(next_block s \<mapsto> b')) b = Some (timeMax, work)"
    "\<And>pw. length pw = 8 \<Longrightarrow> bu_val pw = block_work (nBits b) \<Longrightarrow>
       work_entry (blocks s) (b\<lparr>nTimeMax := timeMax, nChainWork := bu_add work pw\<rparr>)"
proof (cases "pprev b")
  case None
  have "bu_val (bu_add bu_zero pw) = block_work (nBits b)"
    if "length pw = 8" "bu_val pw = block_work (nBits b)" for pw
    using that block_work_less[of "nBits b"]
    by (simp only: bu_val_add_256 length_bu_zero bu_val_zero add_0 mod_less)
  with None show thesis by (intro that[of "nTime b" bu_zero]) (simp_all add: prev_fields_def work_entry_def)
next
  case (Some q)
  then obtain c where c: "blocks s q = Some c" using wf by (auto simp: wf_entry_def)
  then have q: "q \<noteq> next_block s" using index_invD(5)[OF inv] by auto
  have len: "length (nChainWork c) = 8"
    using index_invD(2)[OF inv c] by (simp add: work_entry_def)
  have "work_entry (blocks s)
      (b\<lparr>nTimeMax := max (nTimeMax c) (nTime b), nChainWork := bu_add (nChainWork c) pw\<rparr>)"
    if pw: "length pw = 8" "bu_val pw = block_work (nBits b)" for pw
  proof -
    have "bu_val (bu_add (nChainWork c) pw) = (bu_val (nChainWork c) + block_work (nBits b)) mod 2 ^ 256"
      by (simp only: bu_val_add_256 len pw)
    then show ?thesis
      unfolding work_entry_def using Some c len by (intro conjI) simp_all
  qed
  then show thesis
    using Some c q by (intro that[of "max (nTimeMax c) (nTime b)" "nChainWork c"])
      (simp_all add: prev_fields_def)
qed

lemma RaiseValidity_fresh:
  "nStatus b = 0 \<Longrightarrow> RaiseValidity b BLOCK_VALID_TREE = Some (b\<lparr>nStatus := BLOCK_VALID_TREE\<rparr>, True)"
  by (simp add: RaiseValidity_def)

lemma work_entry_status [simp]: "work_entry st (b\<lparr>nStatus := x\<rparr>) = work_entry st b"
  by (simp add: work_entry_def cong: option.case_cong)

lemma wf_entry_other [simp]:
  "wf_entry st (b\<lparr>nTimeMax := t, nChainWork := w, nStatus := x\<rparr>) = wf_entry st b"
  by (simp add: wf_entry_def cong: option.case_cong)

lemma AddToBlockIndex_new:
  assumes inv: "index_inv s" and link: "header_linked GetHash s block"
    and new: "mapBlockIndex s (GetHash block) = None"
  obtains b where "wf_entry (blocks s) b" "work_entry (blocks s) b" "carries_header block b"
    "pprev b = mapBlockIndex s (h_hashPrevBlock block)" "phashBlock b = Some (GetHash block)"
    "nStatus b = BLOCK_VALID_TREE"
    "AddToBlockIndex GetHash s block =
       Some (s\<lparr>blocks := (blocks s)(next_block s \<mapsto> b), next_block := next_block s + 1,
               mapBlockIndex := (mapBlockIndex s)(GetHash block \<mapsto> next_block s),
               pindexBestHeader :=
                 (if better_header (blocks s) (pindexBestHeader s) (nChainWork b)
                  then Some (next_block s) else pindexBestHeader s),
               setDirtyBlockIndex := insert (next_block s) (setDirtyBlockIndex s)\<rparr>, next_block s)"
proof -
  obtain b1 where b1: "link_block s block (GetHash block) = Some b1" "wf_entry (blocks s) b1"
    "pprev b1 = mapBlockIndex s (h_hashPrevBlock block)" "phashBlock b1 = Some (GetHash block)"
    "carries_header block b1" "nStatus b1 = 0"
    using link_block_spec[OF inv link] .
  obtain timeMax work where pf: "prev_fields ((blocks s)(next_block s \<mapsto> b1)) b1 = Some (timeMax, work)"
    "\<And>pw. length pw = 8 \<Longrightarrow> bu_val pw = block_work (nBits b1) \<Longrightarrow>
       work_entry (blocks s) (b1\<lparr>nTimeMax := timeMax, nChainWork := bu_add work pw\<rparr>)"
    by (rule prev_fields_spec[OF inv b1(2), where b' = b1]) blast
  obtain pw where pw: "GetBlockProof (nBits b1) = Inr pw" "length pw = 8" "bu_val pw = block_work (nBits b1)"
    using GetBlockProof_spec[of "nBits b1"] by blast
  let ?b = "b1\<lparr>nTimeMax := timeMax, nChainWork := bu_add work pw, nStatus := BLOCK_VALID_TREE\<rparr>"
  have rv: "RaiseValidity (b1\<lparr>nTimeMax := timeMax, nChainWork := bu_add work pw\<rparr>) BLOCK_VALID_TREE =
      Some (?b, True)"
    by (subst RaiseValidity_fresh) (simp_all add: b1)
  show thesis
  proof (rule that[of ?b])
    show "work_entry (blocks s) ?b" using pf(2)[OF pw(2,3)] by simp
    show "wf_entry (blocks s) ?b" using b1(2) by simp
    show "carries_header block ?b" using b1(5) by (simp add: carries_header_def)
  qed (simp_all add: AddToBlockIndex_def Let_def new b1 pf pw rv)
qed

lemma best_inv_extend:
  assumes inv: "index_inv s" and work: "work_entry (blocks s) b"
    and s': "blocks s' = (blocks s)(next_block s \<mapsto> b)"
      "pindexBestHeader s' = (if better_header (blocks s) (pindexBestHeader s) (nChainWork b)
                              then Some (next_block s) else pindexBestHeader s)"
  shows "best_inv s'"
proof (cases "pindexBestHeader s")
  case None
  then have "\<forall>p. blocks s p = None" using index_invD(4)[OF inv] by (simp add: best_inv_def)
  then show ?thesis using None by (simp add: best_inv_def s' better_header_def work_of_def)
next
  case (Some q)
  then obtain c where c: "blocks s q = Some c" and max: "\<And>p. work_of s p \<le> work_of s q"
    using index_invD(4)[OF inv] by (auto simp: best_inv_def)
  have q: "q \<noteq> next_block s" using c index_invD(5)[OF inv] by auto
  have len: "length (nChainWork c) = length (nChainWork b)"
    using work index_invD(2)[OF inv c] by (simp add: work_entry_def)
  have bh: "better_header (blocks s) (Some q) (nChainWork b) \<longleftrightarrow> work_of s q < bu_val (nChainWork b)"
    by (simp add: better_header_def c CompareTo_val[OF len] work_of_def)
  have up: "work_of s' p = (if p = next_block s then bu_val (nChainWork b) else work_of s p)" for p
    by (simp add: work_of_def s')
  show ?thesis
    using max q c unfolding best_inv_def s'(2) Some bh
    by (cases "work_of s q < bu_val (nChainWork b)") (auto simp: up s'(1) intro: order_trans less_imp_le)
qed

lemma map_inv_extend:
  assumes inv: "map_inv s" and hash: "phashBlock b = Some h" "mapBlockIndex s h = None"
    and s': "blocks s' = (blocks s)(next_block s \<mapsto> b)" "next_block s' = next_block s + 1"
      "mapBlockIndex s' = (mapBlockIndex s)(h \<mapsto> next_block s)"
  shows "map_inv s'"
proof -
  have fresh: "blocks s (next_block s) = None" using inv by (simp add: map_inv_def)
  have "\<exists>c. blocks s' p = Some c \<and> phashBlock c = Some k" if "mapBlockIndex s' k = Some p" for k p
  proof (cases "k = h")
    case False
    with that have "mapBlockIndex s k = Some p" by (simp add: s')
    then obtain c where "blocks s p = Some c" "phashBlock c = Some k"
      using inv unfolding map_inv_def by blast
    moreover from this fresh have "p \<noteq> next_block s" by auto
    ultimately show ?thesis by (simp add: s')
  qed (use that hash in \<open>simp add: s'\<close>)
  moreover have "\<exists>k. phashBlock c = Some k \<and> mapBlockIndex s' k = Some p" if "blocks s' p = Some c" for p c
  proof (cases "p = next_block s")
    case False
    with that have "blocks s p = Some c" by (simp add: s')
    then obtain k where "phashBlock c = Some k" "mapBlockIndex s k = Some p"
      using inv unfolding map_inv_def by blast
    moreover from this hash have "k \<noteq> h" by auto
    ultimately show ?thesis by (simp add: s')
  qed (use that hash in \<open>simp add: s'\<close>)
  moreover have "\<forall>p. next_block s' \<le> p \<longrightarrow> blocks s' p = None"
    using inv by (auto simp: s' map_inv_def)
  ultimately show ?thesis by (simp add: map_inv_def)
qed

lemma AddToBlockIndex_inv:
  assumes inv: "index_inv s" and link: "header_linked GetHash s block"
  shows "\<exists>s' p. AddToBlockIndex GetHash s block = Some (s', p) \<and> index_inv s' \<and>
    blocks s \<subseteq>\<^sub>m blocks s' \<and> mapBlockIndex s' (GetHash block) = Some p"
proof (cases "mapBlockIndex s (GetHash block)")
  case (Some q)
  then show ?thesis using inv by (simp add: AddToBlockIndex_def)
next
  case None
  let ?p = "next_block s"
  obtain b where b: "wf_entry (blocks s) b" "work_entry (blocks s) b" "phashBlock b = Some (GetHash block)"
    and add: "AddToBlockIndex GetHash s block =
       Some (s\<lparr>blocks := (blocks s)(?p \<mapsto> b), next_block := ?p + 1,
               mapBlockIndex := (mapBlockIndex s)(GetHash block \<mapsto> ?p),
               pindexBestHeader :=
                 (if better_header (blocks s) (pindexBestHeader s) (nChainWork b)
                  then Some ?p else pindexBestHeader s),
               setDirtyBlockIndex := insert ?p (setDirtyBlockIndex s)\<rparr>, ?p)"
    (is "_ = Some (?s', _)")
    by (rule AddToBlockIndex_new[OF inv link None]) blast
  have le: "blocks s \<subseteq>\<^sub>m blocks ?s'" using index_invD(5)[OF inv] by (simp add: map_le_fresh)
  have old: "wf_entry (blocks s) c" "work_entry (blocks s) c" if "blocks s q = Some c" for q c
    using that index_invD(1,2)[OF inv] by (auto simp: wf_store_def)
  have "wf_store (blocks ?s')"
    unfolding wf_store_def using wf_entry_mono[OF le] old(1) b(1) by simp
  moreover have "\<forall>q c. blocks ?s' q = Some c \<longrightarrow> work_entry (blocks ?s') c"
    using work_entry_mono[OF le] old(2) b(2) by simp
  moreover have "map_inv ?s'"
    by (rule map_inv_extend[OF index_invD(3)[OF inv] b(3) None]) simp_all
  moreover have "best_inv ?s'" using best_inv_extend[OF inv b(2)] by simp
  ultimately have "index_inv ?s'" unfolding index_inv_def by blast
  with add le show ?thesis by simp
qed

subsection \<open>Reachable indexes, branch work and median time\<close>

definition empty_index :: index_state where
  "empty_index = \<lparr>blocks = Map.empty, next_block = 0, mapBlockIndex = Map.empty,
     pindexBestHeader = None, setDirtyBlockIndex = {}\<rparr>"

text \<open>The indexes a node builds by adding linked headers.\<close>

inductive index_reachable :: "(CBlockHeader \<Rightarrow> uint256) \<Rightarrow> index_state \<Rightarrow> bool" for GetHash where
  init: "index_reachable GetHash empty_index"
| add: "index_reachable GetHash s \<Longrightarrow> header_linked GetHash s block \<Longrightarrow>
    AddToBlockIndex GetHash s block = Some (s', p) \<Longrightarrow> index_reachable GetHash s'"

lemma index_inv_empty: "index_inv empty_index"
  by (simp add: index_inv_def empty_index_def wf_store_def map_inv_def best_inv_def)

lemma index_reachable_inv: "index_reachable GetHash s \<Longrightarrow> index_inv s"
proof (induction rule: index_reachable.induct)
  case (add s block s' p)
  with AddToBlockIndex_inv[OF add.IH add.hyps(2)] show ?case by auto
qed (rule index_inv_empty)

text \<open>The blocks of a branch, from the block at \<open>p\<close> to the root.\<close>

fun branch :: "block_store \<Rightarrow> nat \<Rightarrow> blockptr option \<Rightarrow> CBlockIndex list" where
  "branch st 0 p = []"
| "branch st (Suc n) None = []"
| "branch st (Suc n) (Some p) = (case st p of None \<Rightarrow> [] | Some b \<Rightarrow> b # branch st n (pprev b))"

lemma past_times_branch: "past_times st n p = map GetBlockTime (branch st n p)"
  by (induction st n p rule: past_times.induct) (auto split: option.splits)

lemma branch_take: "k \<le> n \<Longrightarrow> take k (branch st n p) = branch st k p"
proof (induction st n p arbitrary: k rule: branch.induct)
  case (3 st n p)
  then show ?case by (cases k) (auto split: option.splits)
qed (auto, case_tac k, auto)

lemma branch_work:
  assumes inv: "index_inv s" and "blocks s p = Some b"
  shows "length (branch (blocks s) (Suc (nat (nHeight b))) (Some p)) = Suc (nat (nHeight b)) \<and>
    bu_val (nChainWork b) =
      (\<Sum>c\<leftarrow>branch (blocks s) (Suc (nat (nHeight b))) (Some p). block_work (nBits c)) mod 2 ^ 256 \<and>
    nTimeMax b = Max (set (map nTime (branch (blocks s) (Suc (nat (nHeight b))) (Some p))))"
  using assms(2)
proof (induction "nat (nHeight b)" arbitrary: p b)
  case 0
  have "nHeight b = 0" using wf_storeD(1)[OF index_invD(1)[OF inv] 0(2)] 0(1) by simp
  moreover have "pprev b = None"
    using wf_storeD(1,3)[OF index_invD(1)[OF inv]] 0(2) calculation by (cases "pprev b") fastforce+
  moreover have "work_entry (blocks s) b" by (rule index_invD(2)[OF inv 0(2)])
  moreover note mod_less[OF block_work_less[of "nBits b"]]
  ultimately show ?case using 0 by (simp add: work_entry_def)
next
  case (Suc n)
  then have "0 < nHeight b" by simp
  then obtain q c where q: "pprev b = Some q" "blocks s q = Some c" "nHeight b = nHeight c + 1"
    using wf_store_parent[OF index_invD(1)[OF inv] Suc(3)] by blast
  have n: "n = nat (nHeight c)" using Suc(2) q(3) by simp
  note IH = Suc(1)[OF n q(2)]
  let ?br = "branch (blocks s) (Suc n) (Some q)"
  have br: "branch (blocks s) (Suc (nat (nHeight b))) (Some p) = b # ?br"
    using Suc(3) q(1) unfolding Suc(2)[symmetric] by simp
  have "bu_val (nChainWork b) = (bu_val (nChainWork c) + block_work (nBits b)) mod 2 ^ 256"
    and tm: "nTimeMax b = max (nTimeMax c) (nTime b)"
    using index_invD(2)[OF inv Suc(3)] q by (simp_all add: work_entry_def)
  then have "bu_val (nChainWork b) = (\<Sum>c\<leftarrow>b # ?br. block_work (nBits c)) mod 2 ^ 256"
    using IH unfolding n[symmetric] by (simp only: mod_add_right_eq add.commute list.map sum_list.Cons)
  moreover have "nTimeMax b = Max (set (map nTime (b # ?br)))"
    using IH tm q(2) unfolding n[symmetric] by (simp add: max.commute)
  moreover have "length (b # ?br) = Suc (nat (nHeight b))"
    using IH Suc(2) unfolding n[symmetric] by simp
  ultimately show ?case unfolding br by blast
qed
lemma sort_nth_ge_iff:
  fixes xs :: "'a :: linorder list"
  assumes "k < length xs"
  shows "m \<le> sort xs ! k \<longleftrightarrow> length (filter (\<lambda>x. x < m) xs) \<le> k"
proof -
  let ?ys = "sort xs" and ?P = "\<lambda>x. x < m"
  have sorted: "sorted ?ys" by simp
  have "sorted ys \<Longrightarrow> filter ?P ys = takeWhile ?P ys" for ys
    by (induction ys) (auto simp: takeWhile_eq_Nil_iff, metis hd_in_set le_less_trans)
  from this[OF sorted] have "filter ?P ?ys = takeWhile ?P ?ys" .
  moreover have "length (filter ?P ?ys) = length (filter ?P xs)"
    by (metis filter_sort length_sort)
  moreover have "length (takeWhile ?P ?ys) \<le> k \<longleftrightarrow> m \<le> ?ys ! k"
  proof
    assume le: "length (takeWhile ?P ?ys) \<le> k"
    then have "\<not> ?P (?ys ! length (takeWhile ?P ?ys))"
      using assms by (intro nth_length_takeWhile) simp
    then show "m \<le> ?ys ! k"
      using sorted_nth_mono[OF sorted le] assms by (simp add: not_less)
  next
    assume "m \<le> ?ys ! k"
    then show "length (takeWhile ?P ?ys) \<le> k"
      by (metis leD linorder_le_less_linear nth_mem set_takeWhileD takeWhile_nth)
  qed
  ultimately show ?thesis by simp
qed

lemma length_past_times: "length (past_times st n p) \<le> n"
  by (induction st n p rule: past_times.induct) (auto split: option.splits)

text \<open>A block later than the median time of its parent does not lower the median time.\<close>

lemma GetMedianTimePast_step:
  assumes "st p = Some b" "pprev b = Some q" "st q = Some c"
    and later: "GetMedianTimePast st q < GetBlockTime b"
  shows "GetMedianTimePast st q \<le> GetMedianTimePast st p"
proof -
  define W where "W = past_times st 11 (Some q)"
  define W' where "W' = past_times st 11 (Some p)"
  define m where "m = sort W ! (length W div 2)"
  have m: "GetMedianTimePast st q = m" by (simp add: GetMedianTimePast_def nMedianTimeSpan_def W_def m_def Let_def)
  have W': "W' = GetBlockTime b # take 10 W"
    using branch_take[of 10 11 st "Some q"] assms(1,2)
    by (simp add: W'_def W_def past_times_branch take_map numeral_eq_Suc)
  have "W \<noteq> []" using assms(3) by (simp add: W_def past_times_branch numeral_eq_Suc)
  then have k: "length W div 2 < length W" by simp
  have len: "length W \<le> 11" unfolding W_def by (rule length_past_times)
  have "length (filter (\<lambda>x. x < m) W') \<le> length (filter (\<lambda>x. x < m) W)"
    using later by (simp add: W' m) (metis append_take_drop_id filter_append le_add1 length_append)
  also have "\<dots> \<le> length W div 2" using sort_nth_ge_iff[OF k, of m] by (simp add: m_def)
  also have "\<dots> \<le> length W' div 2" using len by (auto simp: W' min_def intro: div_le_mono)
  finally have "m \<le> sort W' ! (length W' div 2)"
    using sort_nth_ge_iff[of "length W' div 2" W' m] by (simp add: W')
  then show ?thesis
    unfolding m by (simp add: GetMedianTimePast_def nMedianTimeSpan_def W'_def Let_def)
qed

definition times_increase :: "block_store \<Rightarrow> bool" where
  "times_increase st =
     (\<forall>p b q. st p = Some b \<longrightarrow> pprev b = Some q \<longrightarrow> GetMedianTimePast st q < GetBlockTime b)"

lemma GetMedianTimePast_mono:
  assumes wf: "wf_store st" and inc: "times_increase st" and "st p = Some b" "anc st k p = Some q"
  shows "GetMedianTimePast st q \<le> GetMedianTimePast st p"
  using assms(3,4)
proof (induction k arbitrary: p b)
  case (Suc k)
  then obtain r where r: "pprev b = Some r" "anc st k r = Some q" by (auto simp: bind_eq_Some_conv)
  obtain c where c: "st r = Some c" using wf_storeD(3)[OF wf Suc.prems(1) r(1)] by blast
  have "GetMedianTimePast st r \<le> GetMedianTimePast st p"
    using GetMedianTimePast_step[OF Suc.prems(1) r(1) c] inc Suc.prems(1) r(1)
    unfolding times_increase_def by blast
  with Suc.IH[OF c r(2)] show ?case by simp
qed simp

subsection \<open>A sample index\<close>

declare GetAncestor_walk.simps [code]

lemma index_reachable_step:
  assumes "index_reachable GetHash s" "header_linked GetHash s block"
  shows "index_reachable GetHash (fst (the (AddToBlockIndex GetHash s block)))"
  using AddToBlockIndex_inv[OF index_reachable_inv[OF assms(1)] assms(2)]
  by (auto intro: index_reachable.add[OF assms])

text \<open>A chain of headers at the regression-test difficulty, each naming the one before it; the
  Merkle root doubles as the header hash.\<close>

definition sample_header :: "nat \<Rightarrow> CBlockHeader" where
  "sample_header n = \<lparr>h_nVersion = 4, h_hashPrevBlock = [of_nat n], h_hashMerkleRoot = [of_nat (n + 1)],
     h_nTime = of_nat (100 + 60 * n), h_nBits = 0x207fffff, h_nNonce = 0, h_nHeight = of_nat n,
     h_nNonce64 = 0, h_mix_hash = []\<rparr>"

definition sample_block :: "nat \<Rightarrow> blockptr option \<Rightarrow> blockptr option \<Rightarrow> CBlockIndex" where
  "sample_block n prev skip = \<lparr>phashBlock = Some [of_nat (n + 1)], pprev = prev, pskip = skip, nHeight = int n,
     nFile = 0, nDataPos = 0, nUndoPos = 0, nChainWork = [of_nat (2 * (n + 1)), 0, 0, 0, 0, 0, 0, 0],
     nTx = 0, nChainTx = 0, nStatus = BLOCK_VALID_TREE,
     nVersion = 4, hashMerkleRoot = [of_nat (n + 1)], nTime = of_nat (100 + 60 * n), nBits = 0x207fffff, nNonce = 0,
     nNonce64 = 0, mix_hash = [], nSequenceId = 0, nTimeMax = of_nat (100 + 60 * n)\<rparr>"

definition sample_index2 :: index_state where
  "sample_index2 = \<lparr>blocks = [0 \<mapsto> sample_block 0 None None, 1 \<mapsto> sample_block 1 (Some 0) (Some 0)],
     next_block = 2, mapBlockIndex = [[1] \<mapsto> 0, [2] \<mapsto> 1], pindexBestHeader = Some 1,
     setDirtyBlockIndex = {1, 0}\<rparr>"

lemma GetBlockProof_sample: "GetBlockProof 0x207fffff = Inr ([2, 0, 0, 0, 0, 0, 0, 0])" by code_simp

lemma bu_add_sample:
  "bu_add bu_zero [2, 0, 0, 0, 0, 0, 0, 0] = [2, 0, 0, 0, 0, 0, 0, 0]"
  "bu_add [2, 0, 0, 0, 0, 0, 0, 0] [2, 0, 0, 0, 0, 0, 0, 0] = [4, 0, 0, 0, 0, 0, 0, 0]"
  by (rule bu_val_inj[THEN iffD1]; simp add: bu_val_add_256)+

lemma AddToBlockIndex_sample_0:
  "AddToBlockIndex h_hashMerkleRoot empty_index (sample_header 0) =
    Some (\<lparr>blocks = [0 \<mapsto> sample_block 0 None None],
     next_block = 1, mapBlockIndex = [[1] \<mapsto> 0], pindexBestHeader = Some 0,
     setDirtyBlockIndex = {0}\<rparr>, 0)"
  by (simp add: AddToBlockIndex_def empty_index_def sample_header_def link_block_def CBlockIndex_of_header_def
    CBlockIndex_SetNull_def prev_fields_def Let_def GetBlockProof_sample RaiseValidity_def better_header_def sample_block_def
    bu_add_sample)

lemma AddToBlockIndex_sample_1:
  "AddToBlockIndex h_hashMerkleRoot \<lparr>blocks = [0 \<mapsto> sample_block 0 None None],
     next_block = 1, mapBlockIndex = [[1] \<mapsto> 0], pindexBestHeader = Some 0,
     setDirtyBlockIndex = {0}\<rparr> (sample_header 1) = Some (sample_index2, 1)"
  by (simp add: AddToBlockIndex_def sample_index2_def sample_header_def link_block_def CBlockIndex_of_header_def
    CBlockIndex_SetNull_def prev_fields_def Let_def GetBlockProof_sample RaiseValidity_def better_header_def sample_block_def
    bu_add_sample BuildSkip_def GetAncestor_def GetSkipHeight_def GetAncestor_walk.simps CompareTo_def)

lemma sample_index2_reachable: "index_reachable h_hashMerkleRoot sample_index2"
proof -
  have 0: "header_linked h_hashMerkleRoot empty_index (sample_header 0)"
    by (simp add: header_linked_def sample_header_def)
  have 1: "header_linked h_hashMerkleRoot \<lparr>blocks = [0 \<mapsto> sample_block 0 None None],
     next_block = 1, mapBlockIndex = [[1] \<mapsto> 0], pindexBestHeader = Some 0,
     setDirtyBlockIndex = {0}\<rparr> (sample_header 1)"
    by (simp add: header_linked_def sample_header_def)
  show ?thesis
    by (rule index_reachable.add[OF index_reachable.add[OF index_reachable.init 0
          AddToBlockIndex_sample_0] 1 AddToBlockIndex_sample_1])
qed

lemma sample_index2_blocks [simp]:
  "blocks sample_index2 0 = Some (sample_block 0 None None)"
  "blocks sample_index2 1 = Some (sample_block 1 (Some 0) (Some 0))"
  by (simp_all add: sample_index2_def)

lemma past_times_None: "past_times st n None = []"
  by (cases n) simp_all

lemma sample_times_increase: "times_increase (blocks sample_index2)"
proof -
  have "past_times (blocks sample_index2) (Suc 10) (Some 0) = [100]"
    unfolding past_times.simps by (simp add: past_times_None sample_block_def GetBlockTime_def)
  then have "GetMedianTimePast (blocks sample_index2) 0 = 100"
    by (simp add: GetMedianTimePast_def nMedianTimeSpan_def)
  then show ?thesis
    by (auto simp: times_increase_def sample_index2_def sample_block_def GetBlockTime_def split: if_splits)
qed

subsection \<open>Properties\<close>

text \<open>
  C4. Every block index a node builds from linked headers satisfies the invariant (heights, skip
  pointers, cumulative work, hash map and best header all consistent); adding a further linked header
  never crashes, keeps every existing entry, and files the new entry under the header's hash.
\<close>

theorem block_index_invariant:
  assumes "index_reachable GetHash s"
  shows "index_inv s \<and>
    (header_linked GetHash s block \<longrightarrow>
      (\<exists>s' p. AddToBlockIndex GetHash s block = Some (s', p) \<and> index_inv s' \<and>
        blocks s \<subseteq>\<^sub>m blocks s' \<and> mapBlockIndex s' (GetHash block) = Some p))"
  using index_reachable_inv[OF assms] AddToBlockIndex_inv by blast

theorem block_index_invariant_witness:
  "index_inv sample_index2 \<and>
    (\<exists>s' p. AddToBlockIndex h_hashMerkleRoot sample_index2 (sample_header 2) = Some (s', p) \<and> index_inv s' \<and>
        blocks sample_index2 \<subseteq>\<^sub>m blocks s' \<and> mapBlockIndex s' [3] = Some p)"
proof -
  have "header_linked h_hashMerkleRoot sample_index2 (sample_header 2)"
    by (simp add: header_linked_def sample_header_def sample_index2_def)
  moreover have "h_hashMerkleRoot (sample_header 2) = [3]" by (simp add: sample_header_def)
  ultimately show ?thesis
    using block_index_invariant[OF sample_index2_reachable, of "sample_header 2"] by simp
qed

text \<open>
  C5. \<open>GetAncestor\<close> always terminates without failing its assertion on a node's block index, and although
  it jumps over the skip list it returns exactly the block that following the parent links to that
  height would reach, and \<open>nullptr\<close> exactly for heights outside the branch.
\<close>

theorem GetAncestor_skiplist:
  assumes "index_reachable GetHash s" "blocks s p = Some b"
  shows "GetAncestor (blocks s) p h =
      Some (if 0 \<le> h \<and> h \<le> nHeight b then anc (blocks s) (nat (nHeight b - h)) p else None) \<and>
    (0 \<le> h \<and> h \<le> nHeight b \<longrightarrow>
      (\<exists>q c. GetAncestor (blocks s) p h = Some (Some q) \<and> blocks s q = Some c \<and> nHeight c = h))"
proof -
  note wf = index_invD(1)[OF index_reachable_inv[OF assms(1)]]
  note ga = GetAncestor_anc[OF wf assms(2), of h]
  show ?thesis
    using ga anc_ancestor[OF wf assms(2), of "nat (nHeight b - h)"] by auto
qed

theorem GetAncestor_skiplist_witness:
  "GetAncestor (blocks sample_index2) 1 0 = Some (Some 0) \<and> GetAncestor (blocks sample_index2) 1 2 = Some None"
  using GetAncestor_skiplist[OF sample_index2_reachable sample_index2_blocks(2), of 0]
    GetAncestor_skiplist[OF sample_index2_reachable sample_index2_blocks(2), of 2]
  by (simp add: sample_block_def sample_index2_def)

text \<open>
  C14. The cumulative work stored with a block is the sum over its branch of \<open>2 ^ 256 div (target + 1)\<close>
  (modulo \<open>2 ^ 256\<close>), its maximal time is the largest time of the branch, and the best header is a
  block of maximal cumulative work.
\<close>

theorem nChainWork_branch:
  assumes "index_reachable GetHash s" "blocks s p = Some b"
  shows "bu_val (nChainWork b) =
      (\<Sum>c\<leftarrow>branch (blocks s) (nat (nHeight b) + 1) (Some p). block_work (nBits c)) mod 2 ^ 256 \<and>
    nTimeMax b = Max (set (map nTime (branch (blocks s) (nat (nHeight b) + 1) (Some p)))) \<and>
    (\<exists>best c. pindexBestHeader s = Some best \<and> blocks s best = Some c \<and>
       bu_val (nChainWork b) \<le> bu_val (nChainWork c))"
proof -
  note inv = index_reachable_inv[OF assms(1)]
  obtain best c where best: "pindexBestHeader s = Some best" "blocks s best = Some c"
      "work_of s p \<le> work_of s best"
    using index_invD(4)[OF inv] assms(2) by (fastforce simp: best_inv_def split: option.splits)
  then have "bu_val (nChainWork b) \<le> bu_val (nChainWork c)" using assms(2) by (simp add: work_of_def)
  with best branch_work[OF inv assms(2)] show ?thesis unfolding Suc_eq_plus1 by blast
qed

theorem nChainWork_branch_witness:
  "bu_val (nChainWork (sample_block 1 (Some 0) (Some 0))) =
      (\<Sum>c\<leftarrow>branch (blocks sample_index2) 2 (Some 1). block_work (nBits c)) mod 2 ^ 256"
proof -
  have "nat (nHeight (sample_block 1 (Some 0) (Some 0))) + 1 = 2" by (simp add: sample_block_def)
  with nChainWork_branch[OF sample_index2_reachable sample_index2_blocks(2)] show ?thesis by metis
qed

text \<open>
  C26. Where every block is later than the median time past of its parent (what header validation
  enforces), the median time past never decreases along a branch.
\<close>

theorem GetMedianTimePast_monotone:
  assumes "index_reachable GetHash s" "times_increase (blocks s)"
    and "blocks s p = Some b" "anc (blocks s) k p = Some q"
  shows "GetMedianTimePast (blocks s) q \<le> GetMedianTimePast (blocks s) p"
  using assms index_invD(1)[OF index_reachable_inv[OF assms(1)]] by (blast intro: GetMedianTimePast_mono)

theorem GetMedianTimePast_monotone_witness:
  "GetMedianTimePast (blocks sample_index2) 0 \<le> GetMedianTimePast (blocks sample_index2) 1"
proof -
  note sample_times_increase
  moreover have "anc (blocks sample_index2) 1 1 = Some 0" by (simp add: sample_block_def sample_index2_def)
  ultimately show ?thesis
    by (rule GetMedianTimePast_monotone[OF sample_index2_reachable _ sample_index2_blocks(2)])
qed

end
