(* ===== verification/Active_Chain.thy ===== *)
theory Active_Chain
  imports Block_Index "HOL-Library.Sublist"
begin

text \<open>
  \<open>CChain\<close> of \<^verbatim>\<open>src/src/chain.h\<close> and \<^verbatim>\<open>src/src/chain.cpp\<close>: the vector of the blocks of one branch,
  indexed by height, over the block store of \<open>Block_Index\<close>, with \<open>SetTip\<close>, \<open>Contains\<close>, \<open>Next\<close>,
  \<open>FindFork\<close>, \<open>GetLocator\<close> and \<open>FindEarliestAtLeast\<close>, and \<open>LastCommonAncestor\<close>. An outer \<open>None\<close> is
  a crash (null dereference, failed assertion or access out of range).
\<close>

type_synonym CChain = "blockptr option list"

definition Genesis :: "CChain \<Rightarrow> blockptr option" where
  "Genesis v = (if length v > 0 then v ! 0 else None)"

definition Tip :: "CChain \<Rightarrow> blockptr option" where
  "Tip v = (if length v > 0 then v ! (length v - 1) else None)"

definition chain_at :: "CChain \<Rightarrow> int \<Rightarrow> blockptr option" where
  "chain_at v h = (if h < 0 \<or> h \<ge> int (length v) then None else v ! nat h)"

definition chain_eq :: "CChain \<Rightarrow> CChain \<Rightarrow> bool option" where
  "chain_eq a b =
     (if length a \<noteq> length b then Some False
      else if length a = 0 then None
      else Some (a ! (length a - 1) = b ! (length b - 1)))"

definition Contains :: "block_store \<Rightarrow> CChain \<Rightarrow> blockptr \<Rightarrow> bool option" where
  "Contains st v p = map_option (\<lambda>b. chain_at v (nHeight b) = Some p) (st p)"

definition Next :: "block_store \<Rightarrow> CChain \<Rightarrow> blockptr \<Rightarrow> blockptr option option" where
  "Next st v p =
     Option.bind (st p) (\<lambda>b. Option.bind (Contains st v p) (\<lambda>c.
       Some (if c then chain_at v (nHeight b + 1) else None)))"

definition Height :: "CChain \<Rightarrow> int" where
  "Height v = int (length v) - 1"

definition resize :: "nat \<Rightarrow> CChain \<Rightarrow> CChain" where
  "resize n v = take n v @ replicate (n - length v) None"

partial_function (option) SetTip_loop :: "block_store \<Rightarrow> CChain \<Rightarrow> blockptr option \<Rightarrow> CChain option" where
  "SetTip_loop st v pindex =
     (case pindex of
        None \<Rightarrow> Some v
      | Some p \<Rightarrow>
          (case st p of
             None \<Rightarrow> None
           | Some b \<Rightarrow>
               if nHeight b < 0 \<or> nHeight b \<ge> int (length v) then None
               else if v ! nat (nHeight b) = Some p then Some v
               else SetTip_loop st (v[nat (nHeight b) := Some p]) (pprev b)))"

definition SetTip :: "block_store \<Rightarrow> CChain \<Rightarrow> blockptr option \<Rightarrow> CChain option" where
  "SetTip st v pindex =
     (case pindex of
        None \<Rightarrow> Some []
      | Some p \<Rightarrow> Option.bind (st p) (\<lambda>b. SetTip_loop st (resize (nat (nHeight b + 1)) v) (Some p)))"

partial_function (option) FindFork_loop :: "block_store \<Rightarrow> CChain \<Rightarrow> blockptr option \<Rightarrow> blockptr option option" where
  "FindFork_loop st v pindex =
     (case pindex of
        None \<Rightarrow> Some None
      | Some p \<Rightarrow>
          (case st p of
             None \<Rightarrow> None
           | Some b \<Rightarrow> if chain_at v (nHeight b) = Some p then Some (Some p)
                       else FindFork_loop st v (pprev b)))"

definition FindFork :: "block_store \<Rightarrow> CChain \<Rightarrow> blockptr option \<Rightarrow> blockptr option option" where
  "FindFork st v pindex =
     (case pindex of
        None \<Rightarrow> Some None
      | Some p \<Rightarrow>
          (case st p of
             None \<Rightarrow> None
           | Some b \<Rightarrow>
               if nHeight b > Height v
               then Option.bind (GetAncestor st p (Height v)) (FindFork_loop st v)
               else FindFork_loop st v (Some p)))"

partial_function (option) GetLocator_loop ::
    "block_store \<Rightarrow> CChain \<Rightarrow> uint256 list \<Rightarrow> int \<Rightarrow> blockptr option \<Rightarrow> uint256 list option" where
  "GetLocator_loop st v vHave nStep pindex =
     (case pindex of
        None \<Rightarrow> Some vHave
      | Some p \<Rightarrow>
          (case st p of
             None \<Rightarrow> None
           | Some b \<Rightarrow>
               (case phashBlock b of
                  None \<Rightarrow> None
                | Some hash \<Rightarrow>
                    let vHave = vHave @ [hash]
                    in if nHeight b = 0 then Some vHave
                       else
                         (let h = max (nHeight b - nStep) 0
                          in case (if chain_at v (nHeight b) = Some p then Some (chain_at v h)
                                   else GetAncestor st p h) of
                               None \<Rightarrow> None
                             | Some pindex' \<Rightarrow>
                                 GetLocator_loop st v vHave
                                   (if length vHave > 10 then nStep * 2 else nStep) pindex'))))"

definition GetLocator :: "block_store \<Rightarrow> CChain \<Rightarrow> blockptr option \<Rightarrow> uint256 list option" where
  "GetLocator st v pindex = GetLocator_loop st v [] 1 (if pindex = None then Tip v else pindex)"

text \<open>\<open>std::lower_bound\<close>: binary search for the first position in \<open>[first, first + len)\<close> where \<open>before\<close> fails.\<close>

function lower_bound :: "(nat \<Rightarrow> bool) \<Rightarrow> nat \<Rightarrow> nat \<Rightarrow> nat" where
  "lower_bound before first len =
     (if len = 0 then first
      else let half = len div 2
           in if before (first + half) then lower_bound before (first + half + 1) (len - half - 1)
              else lower_bound before first half)"
  by pat_completeness auto
termination
  by (relation "measure (\<lambda>(_, _, len). len)") auto

declare lower_bound.simps [simp del]

definition FindEarliestAtLeast :: "block_store \<Rightarrow> CChain \<Rightarrow> int \<Rightarrow> blockptr option" where
  "FindEarliestAtLeast st v t =
     (let before = (\<lambda>i. case v ! i of
                        None \<Rightarrow> False
                      | Some p \<Rightarrow> (case st p of None \<Rightarrow> False | Some b \<Rightarrow> GetBlockTimeMax b < t));
          lower = lower_bound before 0 (length v)
      in if lower = length v then None else v ! lower)"

partial_function (option) LCA_loop ::
    "block_store \<Rightarrow> blockptr option \<Rightarrow> blockptr option \<Rightarrow> blockptr option option" where
  "LCA_loop st pa pb =
     (case (pa, pb) of
        (Some a, Some b) \<Rightarrow>
          (if a = b then Some pa
           else (case (st a, st b) of
                   (Some ba, Some bb) \<Rightarrow> LCA_loop st (pprev ba) (pprev bb)
                 | _ \<Rightarrow> None))
      | _ \<Rightarrow> if pa = pb then Some pa else None)"

definition LastCommonAncestor :: "block_store \<Rightarrow> blockptr \<Rightarrow> blockptr \<Rightarrow> blockptr option option" where
  "LastCommonAncestor st a b =
     (case (st a, st b) of
        (Some ba, Some bb) \<Rightarrow>
          if nHeight ba > nHeight bb
          then Option.bind (GetAncestor st a (nHeight bb)) (\<lambda>pa. LCA_loop st pa (Some b))
          else if nHeight bb > nHeight ba
          then Option.bind (GetAncestor st b (nHeight ba)) (\<lambda>pb. LCA_loop st (Some a) pb)
          else LCA_loop st (Some a) (Some b)
      | _ \<Rightarrow> None)"

subsection \<open>The vector is a branch\<close>

definition chain_entry :: "block_store \<Rightarrow> CChain \<Rightarrow> nat \<Rightarrow> blockptr \<Rightarrow> bool" where
  "chain_entry st v i p =
     (\<exists>b. st p = Some b \<and> nHeight b = int i \<and> pprev b = (if i = 0 then None else v ! (i - 1)))"

definition is_chain :: "block_store \<Rightarrow> CChain \<Rightarrow> bool" where
  "is_chain st v = (\<forall>i<length v. \<exists>p. v ! i = Some p \<and> chain_entry st v i p)"

lemma chain_anc:
  assumes "is_chain st v" "i \<le> j" "j < length v" "v ! j = Some q"
  shows "anc st (j - i) q = v ! i"
  using assms(2-4)
proof (induction "j - i" arbitrary: j q)
  case 0
  then show ?case by simp
next
  case (Suc k)
  have entry: "\<exists>p. v ! k = Some p \<and> chain_entry st v k p" if "k < length v" for k
    using assms(1) that by (simp add: is_chain_def)
  from entry[OF Suc.prems(2)] Suc.prems(3) Suc.hyps(2) obtain b where
    b: "st q = Some b" "pprev b = v ! (j - 1)"
    by (cases "j = 0") (auto simp: chain_entry_def)
  obtain r where r: "v ! (j - 1) = Some r"
    using entry[OF less_imp_diff_less[OF Suc.prems(2)], of 1] by blast
  have "k = j - 1 - i" "i \<le> j - 1" "j - 1 < length v" using Suc.hyps(2) Suc.prems by simp_all
  with Suc.hyps(1) r have "anc st (j - 1 - i) r = v ! i" by blast
  moreover have "j - i = Suc (j - 1 - i)" using Suc.hyps(2) by simp
  ultimately show ?case using b r by simp
qed

lemma chain_tip:
  assumes "is_chain st v" "Tip v = Some t"
  obtains b where "st t = Some b" "nHeight b = int (length v) - 1" "v ! (length v - 1) = Some t" "0 < length v"
proof -
  have len: "0 < length v" "v ! (length v - 1) = Some t" using assms(2) by (auto simp: Tip_def split: if_splits)
  then have "length v - 1 < length v" by simp
  with assms(1) len obtain b where "st t = Some b" "nHeight b = int (length v - 1)"
    unfolding is_chain_def chain_entry_def by (metis option.inject)
  moreover have "int (length v - 1) = int (length v) - 1" using len(1) by linarith
  ultimately show thesis using len by (intro that[of b]) simp_all
qed

lemma chain_at_GetAncestor:
  assumes wf: "wf_store st" and ch: "is_chain st v" and t: "Tip v = Some t"
  shows "GetAncestor st t h = Some (chain_at v h)"
proof -
  obtain b where b: "st t = Some b" "nHeight b = int (length v) - 1" "v ! (length v - 1) = Some t" "0 < length v"
    by (rule chain_tip[OF ch t])
  have "anc st (nat (nHeight b - h)) t = v ! nat h" if "0 \<le> h" "h \<le> nHeight b"
  proof -
    have "nat (nHeight b - h) = (length v - 1) - nat h" "nat h \<le> length v - 1" "length v - 1 < length v"
      using that b(2,4) by linarith+
    with chain_anc[OF ch _ _ b(3), of "nat h"] show ?thesis by simp
  qed
  moreover have "0 \<le> h \<and> h \<le> nHeight b \<longleftrightarrow> \<not> (h < 0 \<or> h \<ge> int (length v))" using b(2) by linarith
  ultimately show ?thesis unfolding GetAncestor_anc[OF wf b(1)] chain_at_def by presburger
qed

subsection \<open>SetTip\<close>

text \<open>While the loop runs at the block \<open>pindex\<close> of height \<open>h - 1\<close>: the entries from \<open>h\<close> on are
  final, the entries below are empty or belong to a branch.\<close>

definition SetTip_inv :: "block_store \<Rightarrow> CChain \<Rightarrow> nat \<Rightarrow> blockptr option \<Rightarrow> bool" where
  "SetTip_inv st v h pindex =
     (h \<le> length v \<and>
      (case pindex of None \<Rightarrow> h = 0 | Some p \<Rightarrow> \<exists>b. st p = Some b \<and> int h = nHeight b + 1) \<and>
      (\<forall>i p. i < h \<longrightarrow> v ! i = Some p \<longrightarrow> chain_entry st v i p) \<and>
      (\<forall>i. h \<le> i \<longrightarrow> i < length v \<longrightarrow>
         (\<exists>p b. v ! i = Some p \<and> st p = Some b \<and> nHeight b = int i \<and>
                pprev b = (if i = h then pindex else v ! (i - 1)))))"

lemma SetTip_inv_None: "SetTip_inv st v h None \<Longrightarrow> is_chain st v"
  by (auto simp: SetTip_inv_def is_chain_def chain_entry_def)

lemma chain_prefix:
  assumes wf: "wf_store st" and low: "\<And>i p. i \<le> h \<Longrightarrow> v ! i = Some p \<Longrightarrow> chain_entry st v i p"
    and p: "v ! h = Some p" and "i \<le> h"
  shows "\<exists>q. v ! i = Some q"
  using \<open>i \<le> h\<close>
proof (induction "h - i" arbitrary: i)
  case 0
  with p show ?case by simp
next
  case (Suc k)
  then have "k = h - Suc i" "Suc i \<le> h" by simp_all
  then obtain q where "v ! Suc i = Some q" using Suc.hyps(1)[of "Suc i"] by blast
  with low[of "Suc i" q] \<open>Suc i \<le> h\<close> obtain b where b: "st q = Some b" "nHeight b = int (Suc i)" "pprev b = v ! i"
    by (auto simp: chain_entry_def)
  then show ?case using wf_store_parent[OF wf b(1)] by auto
qed

lemma SetTip_inv_stop:
  assumes wf: "wf_store st" and inv: "SetTip_inv st v (Suc h) (Some p)" and p: "v ! h = Some p"
  shows "is_chain st v"
  unfolding is_chain_def
proof (intro allI impI)
  fix i assume i: "i < length v"
  have low: "chain_entry st v j q" if "j \<le> h" "v ! j = Some q" for j q
    using inv that by (auto simp: SetTip_inv_def)
  show "\<exists>q. v ! i = Some q \<and> chain_entry st v i q"
  proof (cases "i \<le> h")
    case True
    then show ?thesis using chain_prefix[OF wf low p] low by blast
  next
    case False
    then have "Suc h \<le> i" by simp
    then obtain q b where q: "v ! i = Some q" "st q = Some b" "nHeight b = int i"
        "pprev b = (if i = Suc h then Some p else v ! (i - 1))"
      using inv i unfolding SetTip_inv_def by blast
    then have "chain_entry st v i q" using p \<open>Suc h \<le> i\<close> by (auto simp: chain_entry_def)
    with q show ?thesis by blast
  qed
qed

lemma SetTip_inv_step:
  assumes wf: "wf_store st" and inv: "SetTip_inv st v (Suc h) (Some p)" and b: "st p = Some b" "nHeight b = int h"
  shows "SetTip_inv st (v[h := Some p]) h (pprev b)"
proof -
  have hl: "h < length v" using inv by (simp add: SetTip_inv_def)
  have prev: "case pprev b of None \<Rightarrow> h = 0 | Some q \<Rightarrow> \<exists>c. st q = Some c \<and> int h = nHeight c + 1"
    using wf_storeD(2)[OF wf b(1)] wf_storeD(3)[OF wf b(1)] b(2) by (auto split: option.splits)
  have low: "chain_entry st (v[h := Some p]) i q" if "i < h" "v[h := Some p] ! i = Some q" for i q
  proof -
    have "v ! i = Some q" "i < Suc h" using that by simp_all
    with inv have "chain_entry st v i q" unfolding SetTip_inv_def by blast
    then obtain c where "st q = Some c" "nHeight c = int i" "pprev c = (if i = 0 then None else v ! (i - 1))"
      unfolding chain_entry_def by blast
    with that(1) show ?thesis unfolding chain_entry_def by auto
  qed
  have high: "\<exists>q c. v[h := Some p] ! i = Some q \<and> st q = Some c \<and> nHeight c = int i \<and>
      pprev c = (if i = h then pprev b else v[h := Some p] ! (i - 1))" if "h \<le> i" "i < length v" for i
  proof (cases "i = h")
    case False
    with that inv obtain q c where "v ! i = Some q" "st q = Some c" "nHeight c = int i"
        "pprev c = (if i = Suc h then Some p else v ! (i - 1))"
      unfolding SetTip_inv_def by (metis Suc_leI le_neq_implies_less)
    with False that hl show ?thesis by (auto simp: nth_list_update)
  qed (use b hl in auto)
  show ?thesis unfolding SetTip_inv_def using hl prev low high by simp
qed

lemma SetTip_loop_spec:
  assumes wf: "wf_store st" and "SetTip_inv st v h pindex"
  shows "\<exists>v'. SetTip_loop st v pindex = Some v' \<and> is_chain st v' \<and> length v' = length v \<and>
    (\<forall>i. h \<le> i \<longrightarrow> v' ! i = v ! i) \<and> (h > 0 \<longrightarrow> v' ! (h - 1) = pindex)"
  using assms(2)
proof (induction h arbitrary: v pindex)
  case 0
  have "pindex = None"
  proof (cases pindex)
    case (Some p)
    with 0 obtain b where "st p = Some b" "0 = nHeight b + 1" by (auto simp: SetTip_inv_def)
    with wf_storeD(1)[OF wf] show ?thesis by fastforce
  qed
  with 0 show ?case by (subst SetTip_loop.simps) (auto dest: SetTip_inv_None)
next
  case (Suc h)
  then obtain p b where p: "pindex = Some p" "st p = Some b" "nHeight b = int h" "h < length v"
    by (cases pindex) (auto simp: SetTip_inv_def)
  show ?case
  proof (cases "v ! h = Some p")
    case True
    have "is_chain st v" using SetTip_inv_stop[OF wf _ True] Suc.prems p(1) by simp
    then show ?thesis by (subst SetTip_loop.simps) (use p True in auto)
  next
    case False
    have "SetTip_inv st (v[h := Some p]) h (pprev b)"
      using SetTip_inv_step[OF wf _ p(2,3)] Suc.prems p(1) by simp
    from Suc.IH[OF this] obtain v' where
      v': "SetTip_loop st (v[h := Some p]) (pprev b) = Some v'" "is_chain st v'" "length v' = length v"
        "\<forall>i. h \<le> i \<longrightarrow> v' ! i = v[h := Some p] ! i" by auto
    then show ?thesis using p(4) False by (subst SetTip_loop.simps) (use p in auto)
  qed
qed

lemma SetTip_spec:
  assumes wf: "wf_store st" and ch: "is_chain st v" and b: "st p = Some b"
  shows "\<exists>v'. SetTip st v (Some p) = Some v' \<and> is_chain st v' \<and> Tip v' = Some p"
proof -
  define n where "n = nat (nHeight b + 1)"
  have h0: "0 \<le> nHeight b" by (rule wf_storeD(1)[OF wf b])
  then have n: "int n = nHeight b + 1" "0 < n" by (simp_all add: n_def)
  have len: "length (resize n v) = n" by (simp add: resize_def)
  have nth: "resize n v ! i = (if i < length v then v ! i else None)" if "i < n" for i
    using that by (auto simp: resize_def nth_append)
  have low: "chain_entry st (resize n v) i q" if "i < n" "resize n v ! i = Some q" for i q
  proof -
    have i: "i < length v" "v ! i = Some q" using that nth[of i] by (auto split: if_splits)
    then have "chain_entry st v i q" using ch unfolding is_chain_def by fastforce
    moreover have "resize n v ! (i - 1) = v ! (i - 1)" 
      using nth[OF less_imp_diff_less[OF that(1)], of 1] less_imp_diff_less[OF i(1), of 1] by (simp only: if_True)
    ultimately show ?thesis by (simp only: chain_entry_def)
  qed
  then have "SetTip_inv st (resize n v) n (Some p)"
    unfolding SetTip_inv_def len using b n(1) by simp
  from SetTip_loop_spec[OF wf this] obtain v' where v': "SetTip_loop st (resize n v) (Some p) = Some v'"
      "is_chain st v'" "length v' = n" "v' ! (n - 1) = Some p"
    using n(2) unfolding len by blast
  moreover have "SetTip st v (Some p) = SetTip_loop st (resize n v) (Some p)"
    unfolding SetTip_def n_def by (simp add: b)
  moreover have "Tip v' = Some p" unfolding Tip_def using v'(3,4) n(2) by simp
  ultimately show ?thesis by metis
qed
subsection \<open>Forks and common ancestors\<close>

fun ancptrs :: "block_store \<Rightarrow> nat \<Rightarrow> blockptr option \<Rightarrow> blockptr list" where
  "ancptrs st 0 p = []"
| "ancptrs st (Suc n) None = []"
| "ancptrs st (Suc n) (Some p) = p # (case st p of None \<Rightarrow> [] | Some b \<Rightarrow> ancptrs st n (pprev b))"

text \<open>The block at \<open>p\<close> and its ancestors, youngest first.\<close>

definition ancestors :: "block_store \<Rightarrow> blockptr \<Rightarrow> blockptr list" where
  "ancestors st p = (case st p of None \<Rightarrow> [] | Some b \<Rightarrow> ancptrs st (Suc (nat (nHeight b))) (Some p))"

lemma ancestors_unfold:
  assumes "wf_store st" "st p = Some b"
  shows "ancestors st p = p # (case pprev b of None \<Rightarrow> [] | Some q \<Rightarrow> ancestors st q)"
proof (cases "pprev b")
  case None
  then show ?thesis using assms wf_storeD(2)[OF assms] by (cases "nat (nHeight b)") (simp_all add: ancestors_def)
next
  case (Some q)
  obtain c where c: "st q = Some c" "nHeight b = nHeight c + 1" using wf_storeD(3)[OF assms Some] by blast
  with wf_storeD(1)[OF assms(1) c(1)] have "nat (nHeight b) = Suc (nat (nHeight c))" by simp
  with c Some assms show ?thesis by (simp add: ancestors_def)
qed

lemma ancestors_induct [consumes 2, case_names root step]:
  assumes "wf_store st" "st p = Some b"
    and "\<And>p b. st p = Some b \<Longrightarrow> pprev b = None \<Longrightarrow> P p b"
    and "\<And>p b q c. st p = Some b \<Longrightarrow> pprev b = Some q \<Longrightarrow> st q = Some c \<Longrightarrow>
           nHeight b = nHeight c + 1 \<Longrightarrow> P q c \<Longrightarrow> P p b"
  shows "P p b"
  using assms(2)
proof (induction "nat (nHeight b)" arbitrary: p b rule: less_induct)
  case less
  show ?case
  proof (cases "pprev b")
    case (Some q)
    obtain c where c: "st q = Some c" "nHeight b = nHeight c + 1"
      using wf_storeD(3)[OF assms(1) less.prems Some] by blast
    with less.hyps[of c q] wf_storeD(1)[OF assms(1) c(1)] show ?thesis
      using assms(4)[OF less.prems Some c] by simp
  qed (rule assms(3)[OF less.prems])
qed

lemma ancestors_heights:
  assumes "wf_store st" "st p = Some b" "q \<in> set (ancestors st p)"
  shows "\<exists>c. st q = Some c \<and> nHeight c \<le> nHeight b \<and> (nHeight c = nHeight b \<longrightarrow> q = p)"
  using assms
proof (induction rule: ancestors_induct)
  case (root p b)
  then show ?case by (simp add: ancestors_unfold[OF assms(1)])
next
  case (step p b r c)
  then show ?case by (fastforce simp: ancestors_unfold[OF assms(1)])
qed

lemma ancestors_skip:
  assumes "wf_store st" "st p = Some b" "anc st k p = Some r"
  shows "\<exists>xs. ancestors st p = xs @ ancestors st r \<and>
    (\<forall>q\<in>set xs. \<exists>c. st q = Some c \<and> nHeight c > nHeight b - int k)"
  using assms(2,3)
proof (induction k arbitrary: p b)
  case (Suc k)
  then obtain q where q: "pprev b = Some q" "anc st k q = Some r" by (auto simp: bind_eq_Some_conv)
  obtain c where c: "st q = Some c" "nHeight b = nHeight c + 1"
    using wf_storeD(3)[OF assms(1) Suc.prems(1) q(1)] by blast
  from Suc.IH[OF c(1) q(2)] obtain xs where
    xs: "ancestors st q = xs @ ancestors st r" "\<forall>q\<in>set xs. \<exists>d. st q = Some d \<and> nHeight d > nHeight c - int k"
    by blast
  then show ?case
    using ancestors_unfold[OF assms(1) Suc.prems(1)] q Suc.prems(1) c
    by (intro exI[of _ "p # xs"]) auto
qed simp

lemma chain_member:
  assumes "is_chain st v" "st p = Some b"
  shows "chain_at v (nHeight b) = Some p \<longleftrightarrow> Some p \<in> set v"
proof
  assume "Some p \<in> set v"
  then obtain i where i: "i < length v" "v ! i = Some p" by (auto simp: in_set_conv_nth)
  then have "chain_entry st v i p" using assms(1) unfolding is_chain_def by fastforce
  with i assms(2) show "chain_at v (nHeight b) = Some p" by (auto simp: chain_entry_def chain_at_def)
next
  assume "chain_at v (nHeight b) = Some p"
  then have "v ! nat (nHeight b) = Some p" "nat (nHeight b) < length v"
    by (auto simp: chain_at_def split: if_splits)
  then show "Some p \<in> set v" by (metis nth_mem)
qed

lemma chain_height:
  assumes "is_chain st v" "Some p \<in> set v"
  shows "\<exists>b. st p = Some b \<and> nHeight b \<le> Height v"
proof -
  obtain i where i: "i < length v" "v ! i = Some p" using assms(2) by (auto simp: in_set_conv_nth)
  then have "chain_entry st v i p" using assms(1) unfolding is_chain_def by fastforce
  with i show ?thesis by (auto simp: chain_entry_def Height_def)
qed

lemma FindFork_loop_spec:
  assumes "wf_store st" "st p = Some b" "is_chain st v"
  shows "FindFork_loop st v (Some p) = Some (find (\<lambda>q. Some q \<in> set v) (ancestors st p))"
  using assms(1,2)
proof (induction rule: ancestors_induct)
  case (root p b)
  then show ?case
    by (subst FindFork_loop.simps, subst FindFork_loop.simps)
      (simp add: chain_member[OF assms(3)] ancestors_unfold[OF assms(1)])
next
  case (step p b q c)
  note * = step(1,2,5)
  show ?case
    using * chain_member[OF assms(3) step(1)] ancestors_unfold[OF assms(1) step(1)]
    by (subst FindFork_loop.simps) simp
qed

lemma find_skip: "(\<And>x. x \<in> set xs \<Longrightarrow> \<not> P x) \<Longrightarrow> find P (xs @ ys) = find P ys"
  by (induction xs) auto

lemma FindFork_spec:
  assumes wf: "wf_store st" and b: "st p = Some b" and ch: "is_chain st v"
  shows "FindFork st v (Some p) = Some (find (\<lambda>q. Some q \<in> set v) (ancestors st p))"
proof (cases "nHeight b > Height v")
  case False
  then show ?thesis by (simp add: FindFork_def b FindFork_loop_spec[OF wf b ch])
next
  case True
  show ?thesis
  proof (cases "Height v < 0")
    case True
    then have "v = []" by (simp add: Height_def)
    then have "find (\<lambda>q. Some q \<in> set v) (ancestors st p) = None" by (simp add: find_None_iff)
    moreover have "GetAncestor st p (Height v) = Some None" by (simp add: GetAncestor_def b True)
    ultimately show ?thesis
      using \<open>nHeight b > Height v\<close> by (simp add: FindFork_def b FindFork_loop.simps[of st v None])
  next
    case False
    define k where "k = nat (nHeight b - Height v)"
    obtain r c where r: "anc st k p = Some r" "st r = Some c"
      using anc_ancestor[OF wf b, of k] True False by (auto simp: k_def)
    have ga: "GetAncestor st p (Height v) = Some (Some r)"
      using GetAncestor_anc[OF wf b, of "Height v"] True False r(1) by (simp add: k_def)
    obtain xs where xs: "ancestors st p = xs @ ancestors st r"
        "\<forall>q\<in>set xs. \<exists>c. st q = Some c \<and> nHeight c > nHeight b - int k"
      using ancestors_skip[OF wf b r(1)] by blast
    have "Some q \<notin> set v" if "q \<in> set xs" for q
      using xs(2) that chain_height[OF ch, of q] True by (fastforce simp: k_def)
    then show ?thesis
      using True by (simp add: FindFork_def b ga FindFork_loop_spec[OF wf r(2) ch] xs(1) find_skip)
  qed
qed

lemma LCA_loop_spec:
  assumes "wf_store st" "st a = Some x" "st b = Some y" "nHeight x = nHeight y"
  shows "LCA_loop st (Some a) (Some b) = Some (find (\<lambda>q. q \<in> set (ancestors st b)) (ancestors st a))"
  using assms
proof (induction arbitrary: b y rule: ancestors_induct)
  case (root a x)
  note A = ancestors_unfold[OF assms(1) root(1)] and B = ancestors_unfold[OF assms(1) root(3)]
  have y0: "nHeight y = 0" using wf_storeD(2)[OF assms(1) root(1,2)] root(4) by simp
  have "pprev y = None"
  proof (cases "pprev y")
    case (Some q)
    then obtain c where "st q = Some c" "nHeight y = nHeight c + 1"
      using wf_storeD(3)[OF assms(1) root(3)] by blast
    with wf_storeD(1)[OF assms(1), of q c] y0 show ?thesis by simp
  qed
  with root A B show ?case
    by (subst LCA_loop.simps, subst LCA_loop.simps) simp
next
  case (step a x p c)
  have "0 < nHeight y" using step(4,7) wf_storeD(1)[OF assms(1) step(3)] by simp
  then obtain q d where q: "pprev y = Some q" "st q = Some d" "nHeight y = nHeight d + 1"
    using wf_store_parent[OF assms(1) step(6)] by blast
  note A = ancestors_unfold[OF assms(1) step(1)] and B = ancestors_unfold[OF assms(1) step(6)]
  show ?case
  proof (cases "a = b")
    case True
    then show ?thesis by (subst LCA_loop.simps) (simp add: A B)
  next
    case False
    have tail: "find (\<lambda>r. r \<in> set (ancestors st b)) (ancestors st p) =
        find (\<lambda>r. r \<in> set (ancestors st q)) (ancestors st p)"
    proof (rule find_cong[OF refl])
      fix r assume "r \<in> set (ancestors st p)"
      then obtain e where "st r = Some e" "nHeight e \<le> nHeight c"
        using ancestors_heights[OF assms(1) step(3)] by blast
      then have "r \<noteq> b" using step(4,6,7) by auto
      then show "(r \<in> set (ancestors st b)) = (r \<in> set (ancestors st q))" by (simp add: B q(1))
    qed
    have "a \<notin> set (ancestors st b)"
      using ancestors_heights[OF assms(1) step(6), of a] step(1,7) False by auto
    moreover have "LCA_loop st (Some p) (Some q) = Some (find (\<lambda>r. r \<in> set (ancestors st q)) (ancestors st p))"
      by (rule step(5)[OF q(2)]) (use step(4,7) q(3) in simp)
    ultimately show ?thesis
      using False step(1,2,6) q(1) tail by (subst LCA_loop.simps) (simp add: A)
  qed
qed

text \<open>\<open>GetAncestor\<close> to the height of a lower block loses no common ancestor.\<close>

lemma common_skip:
  assumes wf: "wf_store st" and a: "st a = Some x" and b: "st b = Some y" and h: "nHeight y \<le> nHeight x"
  obtains r d where "GetAncestor st a (nHeight y) = Some (Some r)" "st r = Some d" "nHeight d = nHeight y"
    "set (ancestors st a) \<inter> set (ancestors st b) = set (ancestors st r) \<inter> set (ancestors st b)"
    "find (\<lambda>q. q \<in> set (ancestors st b)) (ancestors st a) =
     find (\<lambda>q. q \<in> set (ancestors st b)) (ancestors st r)"
proof -
  define k where "k = nat (nHeight x - nHeight y)"
  have y0: "0 \<le> nHeight y" by (rule wf_storeD(1)[OF wf b])
  obtain r d where r: "anc st k a = Some r" "st r = Some d" "nHeight d = nHeight y"
    using anc_ancestor[OF wf a, of k] h y0 by (auto simp: k_def)
  have ga: "GetAncestor st a (nHeight y) = Some (Some r)"
    using GetAncestor_anc[OF wf a, of "nHeight y"] h y0 r(1) by (simp add: k_def)
  obtain xs where xs: "ancestors st a = xs @ ancestors st r"
      "\<forall>q\<in>set xs. \<exists>c. st q = Some c \<and> nHeight c > nHeight x - int k"
    using ancestors_skip[OF wf a r(1)] by blast
  have "q \<notin> set (ancestors st b)" if "q \<in> set xs" for q
  proof
    assume "q \<in> set (ancestors st b)"
    then obtain c where "st q = Some c" "nHeight c \<le> nHeight y" using ancestors_heights[OF wf b] by blast
    with xs(2) that h show False by (fastforce simp: k_def)
  qed
  then show thesis
    by (intro that[OF ga r(2,3)]) (auto simp: xs(1) find_skip)
qed

lemma LastCommonAncestor_spec:
  assumes wf: "wf_store st" and a: "st a = Some x" and b: "st b = Some y"
  shows "LastCommonAncestor st a b = Some (find (\<lambda>q. q \<in> set (ancestors st b)) (ancestors st a))"
proof (cases "nHeight y \<le> nHeight x")
  case True
  obtain r d where r: "GetAncestor st a (nHeight y) = Some (Some r)" "st r = Some d" "nHeight d = nHeight y"
    "find (\<lambda>q. q \<in> set (ancestors st b)) (ancestors st a) = find (\<lambda>q. q \<in> set (ancestors st b)) (ancestors st r)"
    by (rule common_skip[OF wf a b True])
  show ?thesis
    using True r(1,4) LCA_loop_spec[OF wf r(2) b r(3)] LCA_loop_spec[OF wf a b]
    by (auto simp: LastCommonAncestor_def a b)
next
  case False
  then have le: "nHeight x \<le> nHeight y" by simp
  obtain r d where r: "GetAncestor st b (nHeight x) = Some (Some r)" "st r = Some d" "nHeight d = nHeight x"
    "set (ancestors st b) \<inter> set (ancestors st a) = set (ancestors st r) \<inter> set (ancestors st a)"
    by (rule common_skip[OF wf b a le])
  have "find (\<lambda>q. q \<in> set (ancestors st r)) (ancestors st a) = find (\<lambda>q. q \<in> set (ancestors st b)) (ancestors st a)"
    by (rule find_cong[OF refl]) (use r(4) in blast)
  with False r(1) LCA_loop_spec[OF wf a r(2) r(3)[symmetric]] show ?thesis
    by (simp add: LastCommonAncestor_def a b)
qed

subsection \<open>Locators and the search by time\<close>

definition hash_of :: "block_store \<Rightarrow> blockptr \<Rightarrow> uint256" where
  "hash_of st p = the (Option.bind (st p) phashBlock)"

lemma chain_at_anc:
  assumes wf: "wf_store st" and ch: "is_chain st v" and b: "st p = Some b"
    and p: "chain_at v (nHeight b) = Some p" and h: "0 \<le> h" "h \<le> nHeight b"
  shows "chain_at v h = anc st (nat (nHeight b - h)) p"
proof -
  have j: "nat (nHeight b) < length v" "v ! nat (nHeight b) = Some p"
    using p by (auto simp: chain_at_def split: if_splits)
  have "nat (nHeight b - h) = nat (nHeight b) - nat h" "nat h \<le> nat (nHeight b)" using h by auto
  with chain_anc[OF ch _ j, of "nat h"] have "anc st (nat (nHeight b - h)) p = v ! nat h" by simp
  then show ?thesis using h j(1) by (simp add: chain_at_def nat_less_iff)
qed

lemma GetLocator_loop_spec:
  assumes wf: "wf_store st" and ch: "is_chain st v"
    and hashes: "\<And>p b. st p = Some b \<Longrightarrow> phashBlock b \<noteq> None"
    and "st p = Some b" "1 \<le> nStep"
  shows "\<exists>qs. GetLocator_loop st v vHave nStep (Some p) = Some (vHave @ map (hash_of st) qs) \<and>
    qs \<noteq> [] \<and> hd qs = p \<and> last qs = last (ancestors st p) \<and> subseq qs (ancestors st p)"
  using assms(4,5)
proof (induction "nat (nHeight b)" arbitrary: p b vHave nStep rule: less_induct)
  case less
  obtain hash where hash: "phashBlock b = Some hash" using hashes[OF less.prems(1)] by blast
  then have hp: "hash_of st p = hash" by (simp add: hash_of_def less.prems)
  note A = ancestors_unfold[OF wf less.prems(1)]
  have b0: "0 \<le> nHeight b" by (rule wf_storeD(1)[OF wf less.prems(1)])
  show ?case
  proof (cases "nHeight b = 0")
    case True
    have "pprev b = None"
    proof (cases "pprev b")
      case (Some q)
      then obtain c where "st q = Some c" "nHeight b = nHeight c + 1"
        using wf_storeD(3)[OF wf less.prems(1)] by blast
      with wf_storeD(1)[OF wf, of q c] True show ?thesis by simp
    qed
    then have "GetLocator_loop st v vHave nStep (Some p) = Some (vHave @ [hash])"
      by (subst GetLocator_loop.simps) (simp add: less.prems hash True)
    with A \<open>pprev b = None\<close> hp show ?thesis by (intro exI[of _ "[p]"]) simp
  next
    case False
    define h where "h = max (nHeight b - nStep) 0"
    have h: "0 \<le> h" "h < nHeight b" using False b0 less.prems(2) by (auto simp: h_def)
    define k where "k = nat (nHeight b - h)"
    obtain r c where r: "anc st k p = Some r" "st r = Some c" "nHeight c = h"
      using anc_ancestor[OF wf less.prems(1), of k] h by (auto simp: k_def)
    have jump: "(if chain_at v (nHeight b) = Some p then Some (chain_at v h) else GetAncestor st p h) = Some (Some r)"
      using chain_at_anc[OF wf ch less.prems(1) _ h(1)] GetAncestor_anc[OF wf less.prems(1), of h] h r(1)
      by (simp add: k_def)
    obtain xs where xs: "ancestors st p = xs @ ancestors st r"
        "\<forall>q\<in>set xs. \<exists>c. st q = Some c \<and> nHeight c > nHeight b - int k"
      using ancestors_skip[OF wf less.prems(1) r(1)] by blast
    have "xs \<noteq> []"
    proof
      assume "xs = []"
      then have "p \<in> set (ancestors st r)" using xs(1) A by (metis append_Nil list.set_intros(1))
      then show False using ancestors_heights[OF wf r(2)] less.prems(1) r(3) h(2) by fastforce
    qed
    then obtain ys where ys: "ancestors st p = p # ys @ ancestors st r"
      using xs(1) A by (cases xs) auto
    define nStep' where "nStep' = (if length (vHave @ [hash]) > 10 then nStep * 2 else nStep)"
    have "1 \<le> nStep'" using less.prems(2) by (simp add: nStep'_def)
    from less.hyps[OF _ r(2) this, of "vHave @ [hash]"] h r(3) obtain qs where
      qs: "GetLocator_loop st v (vHave @ [hash]) nStep' (Some r) = Some (vHave @ [hash] @ map (hash_of st) qs)"
        "qs \<noteq> []" "last qs = last (ancestors st r)" "subseq qs (ancestors st r)" by auto
    have "GetLocator_loop st v vHave nStep (Some p) = GetLocator_loop st v (vHave @ [hash]) nStep' (Some r)"
      using jump unfolding h_def nStep'_def
      by (subst GetLocator_loop.simps) (simp add: less.prems(1) hash False Let_def split: if_splits)
    moreover have "ancestors st r \<noteq> []" using ancestors_unfold[OF wf r(2)] by simp
    ultimately show ?thesis
      using qs hp by (intro exI[of _ "p # qs"]) (auto simp: ys intro: list_emb_append2)
  qed
qed

lemma lower_bound_spec:
  assumes "\<And>i j. i \<le> j \<Longrightarrow> j < first + len \<Longrightarrow> before j \<Longrightarrow> before i"
  shows "first \<le> lower_bound before first len \<and> lower_bound before first len \<le> first + len \<and>
    (\<forall>i. first \<le> i \<longrightarrow> i < lower_bound before first len \<longrightarrow> before i) \<and>
    (\<forall>i. lower_bound before first len \<le> i \<longrightarrow> i < first + len \<longrightarrow> \<not> before i)"
  using assms
proof (induction before first len rule: lower_bound.induct)
  case (1 before first len)
  show ?case
  proof (cases "len = 0")
    case True
    then show ?thesis by (simp add: lower_bound.simps)
  next
    case False
    define half where "half = len div 2"
    have half: "half < len" using False by (simp add: half_def)
    show ?thesis
    proof (cases "before (first + half)")
      case True
      have eq: "lower_bound before first len = lower_bound before (first + half + 1) (len - half - 1)"
        using False True by (simp add: lower_bound.simps[of before first len] half_def Let_def)
      have end_eq: "first + half + 1 + (len - half - 1) = first + len" using half by simp
      note IH = 1(1)[OF False half_def True, unfolded end_eq]
      have "before i" if "i \<le> first + half" for i using 1(3)[OF that _ True] half by simp
      then have "before i" if "i < first + half + 1" for i using that by simp
      moreover have "first + half + 1 \<le> lower_bound before (first + half + 1) (len - half - 1) \<and>
          lower_bound before (first + half + 1) (len - half - 1) \<le> first + len \<and>
          (\<forall>i. first + half + 1 \<le> i \<longrightarrow> i < lower_bound before (first + half + 1) (len - half - 1) \<longrightarrow> before i) \<and>
          (\<forall>i. lower_bound before (first + half + 1) (len - half - 1) \<le> i \<longrightarrow> i < first + len \<longrightarrow> \<not> before i)"
        by (rule IH) (rule 1(3))
      ultimately show ?thesis unfolding eq by (metis add_leD1 not_le)
    next
      case mid: False
      have eq: "lower_bound before first len = lower_bound before first half"
        using False mid by (simp add: lower_bound.simps[of before first len] half_def Let_def)
      have IH: "first \<le> lower_bound before first half \<and> lower_bound before first half \<le> first + half \<and>
          (\<forall>i. first \<le> i \<longrightarrow> i < lower_bound before first half \<longrightarrow> before i) \<and>
          (\<forall>i. lower_bound before first half \<le> i \<longrightarrow> i < first + half \<longrightarrow> \<not> before i)"
        by (rule 1(2)[OF False half_def mid]) (use 1(3) half in auto)
      have "\<not> before i" if "first + half \<le> i" "i < first + len" for i using 1(3)[OF that] mid by blast
      with IH half show ?thesis unfolding eq by (meson le_add1 linorder_not_le nat_add_left_cancel_le order_trans less_imp_le)
    qed
  qed
qed

lemma chain_nTimeMax_mono:
  assumes inv: "index_inv s" and ch: "is_chain (blocks s) v" and "i \<le> j" "j < length v"
    and "v ! j = Some p" "blocks s p = Some b" "v ! i = Some q" "blocks s q = Some c"
  shows "nTimeMax c \<le> nTimeMax b"
  using assms(3-6)
proof (induction j arbitrary: p b)
  case 0
  with assms(7,8) show ?case by simp
next
  case (Suc j)
  show ?case
  proof (cases "i = Suc j")
    case True
    with Suc.prems assms(7,8) show ?thesis by simp
  next
    case False
    obtain r where r: "v ! j = Some r" "chain_entry (blocks s) v j r"
      using ch Suc.prems(2) by (auto simp: is_chain_def dest: spec[of _ j])
    obtain d where d: "blocks s r = Some d" using r(2) by (auto simp: chain_entry_def)
    have "chain_entry (blocks s) v (Suc j) p" using ch Suc.prems unfolding is_chain_def by fastforce
    then have "pprev b = Some r" using Suc.prems(4) r(1) by (simp add: chain_entry_def)
    then have "nTimeMax b = max (nTimeMax d) (nTime b)"
      using index_invD(2)[OF inv Suc.prems(4)] d by (simp add: work_entry_def)
    moreover have "nTimeMax c \<le> nTimeMax d" using Suc.IH[of r d] False Suc.prems r(1) d by simp
    ultimately show ?thesis by (simp add: le_max_iff_disj)
  qed
qed

lemma FindEarliestAtLeast_spec:
  assumes inv: "index_inv s" and ch: "is_chain (blocks s) v"
  shows "FindEarliestAtLeast (blocks s) v t =
    Option.bind (find (\<lambda>q. \<exists>p b. q = Some p \<and> blocks s p = Some b \<and> t \<le> GetBlockTimeMax b) v) id"
proof -
  define before where "before i = (case v ! i of None \<Rightarrow> False
    | Some p \<Rightarrow> (case blocks s p of None \<Rightarrow> False | Some b \<Rightarrow> GetBlockTimeMax b < t))" for i
  define P where "P q = (\<exists>p b. q = Some p \<and> blocks s p = Some b \<and> t \<le> GetBlockTimeMax b)" for q
  define r where "r = lower_bound before 0 (length v)"
  have entry: "\<exists>p b. v ! i = Some p \<and> blocks s p = Some b" if "i < length v" for i
    using ch that by (auto simp: is_chain_def chain_entry_def)
  have nP: "P (v ! i) \<longleftrightarrow> \<not> before i" if "i < length v" for i
    using entry[OF that] by (auto simp: P_def before_def)
  have "before i" if "i \<le> j" "j < 0 + length v" "before j" for i j
  proof -
    have ij: "i < length v" "j < length v" using that by simp_all
    obtain p b where p: "v ! j = Some p" "blocks s p = Some b" using entry[OF ij(2)] by blast
    obtain q c where q: "v ! i = Some q" "blocks s q = Some c" using entry[OF ij(1)] by blast
    have "nTimeMax c \<le> nTimeMax b" by (rule chain_nTimeMax_mono[OF inv ch that(1) _ p q]) (use that in simp)
    then show ?thesis using that(3) p q by (simp add: before_def GetBlockTimeMax_def word_le_def)
  qed
  from lower_bound_spec[of 0 "length v" before, OF this] have
    r: "r \<le> length v" "\<And>i. i < r \<Longrightarrow> before i" "\<And>i. r \<le> i \<Longrightarrow> i < length v \<Longrightarrow> \<not> before i"
    by (auto simp: r_def)
  have eq: "FindEarliestAtLeast (blocks s) v t = (if r = length v then None else v ! r)"
    by (simp add: FindEarliestAtLeast_def Let_def r_def before_def[abs_def])
  show ?thesis
  proof (cases "r = length v")
    case True
    then have "find P v = None" using r(2) nP by (auto simp: find_None_iff in_set_conv_nth)
    with True eq show ?thesis by (simp add: P_def[abs_def])
  next
    case False
    then have "find P v = Some (v ! r)"
      using r nP unfolding find_Some_iff by (intro exI[of _ r]) auto
    with False eq show ?thesis by (simp add: P_def[abs_def])
  qed
qed

subsection \<open>Properties\<close>

text \<open>The index and the active chain of a running node: headers are added, and the tip is set to any
  known block (or the chain cleared).\<close>

inductive node_reachable :: "(CBlockHeader \<Rightarrow> uint256) \<Rightarrow> index_state \<Rightarrow> CChain \<Rightarrow> bool" for GetHash where
  init: "node_reachable GetHash empty_index []"
| header: "node_reachable GetHash s v \<Longrightarrow> header_linked GetHash s block \<Longrightarrow>
    AddToBlockIndex GetHash s block = Some (s', p) \<Longrightarrow> node_reachable GetHash s' v"
| tip: "node_reachable GetHash s v \<Longrightarrow> (\<forall>p. pindex = Some p \<longrightarrow> blocks s p \<noteq> None) \<Longrightarrow>
    SetTip (blocks s) v pindex = Some v' \<Longrightarrow> node_reachable GetHash s v'"

lemma is_chain_mono: "st \<subseteq>\<^sub>m st' \<Longrightarrow> is_chain st v \<Longrightarrow> is_chain st' v"
  unfolding is_chain_def chain_entry_def by (meson map_leD)

lemma is_chain_Nil [simp]: "is_chain st []"
  by (simp add: is_chain_def)

lemma node_reachable_inv: "node_reachable GetHash s v \<Longrightarrow> index_inv s \<and> is_chain (blocks s) v"
proof (induction rule: node_reachable.induct)
  case init
  show ?case by (simp add: index_inv_empty)
next
  case (header s v block s' p)
  with AddToBlockIndex_inv[of s GetHash block] show ?case by (auto intro: is_chain_mono)
next
  case (tip s v pindex v')
  show ?case
  proof (cases pindex)
    case (Some p)
    with tip(2) obtain b where "blocks s p = Some b" by blast
    with SetTip_spec[OF index_invD(1), of s v p b] tip Some show ?thesis by auto
  qed (use tip in \<open>simp add: SetTip_def\<close>)
qed

lemma sample_index2_block_1 [simp]: "blocks sample_index2 (Suc 0) = Some (sample_block 1 (Some 0) (Some 0))"
  using sample_index2_blocks(2) by simp

lemma sample_node: "node_reachable h_hashMerkleRoot sample_index2 [Some 0, Some 1]"
proof -
  have "header_linked h_hashMerkleRoot empty_index (sample_header 0)"
    by (simp add: header_linked_def sample_header_def)
  note 1 = node_reachable.header[OF node_reachable.init this AddToBlockIndex_sample_0]
  have "header_linked h_hashMerkleRoot \<lparr>blocks = [0 \<mapsto> sample_block 0 None None],
     next_block = 1, mapBlockIndex = [[1] \<mapsto> 0], pindexBestHeader = Some 0,
     setDirtyBlockIndex = {0}\<rparr> (sample_header 1)"
    by (simp add: header_linked_def sample_header_def)
  note 2 = node_reachable.header[OF 1 this AddToBlockIndex_sample_1]
  have "SetTip (blocks sample_index2) [] (Some 1) = Some [Some 0, Some 1]"
    by (simp add: SetTip_def resize_def sample_index2_def sample_block_def SetTip_loop.simps numeral_2_eq_2)
  then show ?thesis by (intro node_reachable.tip[OF 2]) simp_all
qed

text \<open>
  C7. On the index of a running node, setting the tip to any known block always succeeds, and
  afterwards the active chain holds at every height exactly the ancestor of the tip that
  \<open>GetAncestor\<close> returns for it, whatever branch was active before.
\<close>

theorem SetTip_active_branch:
  assumes "node_reachable GetHash s v" "blocks s p \<noteq> None"
  shows "\<exists>v'. SetTip (blocks s) v (Some p) = Some v' \<and> Tip v' = Some p \<and>
    (\<forall>h. GetAncestor (blocks s) p h = Some (chain_at v' h))"
proof -
  note inv = node_reachable_inv[OF assms(1)]
  obtain b where "blocks s p = Some b" using assms(2) by blast
  from SetTip_spec[OF index_invD(1)[OF conjunct1[OF inv]] conjunct2[OF inv] this] show ?thesis
    using chain_at_GetAncestor[OF index_invD(1)[OF conjunct1[OF inv]]] by blast
qed

theorem SetTip_active_branch_witness:
  "\<exists>v'. SetTip (blocks sample_index2) [Some 0, Some 1] (Some 0) = Some v' \<and> Tip v' = Some 0 \<and>
    (\<forall>h. GetAncestor (blocks sample_index2) 0 h = Some (chain_at v' h))"
  by (rule SetTip_active_branch[OF sample_node]) simp

text \<open>
  C30. \<open>FindFork\<close> returns the youngest ancestor of the given block that is on the active chain (the
  jump to the chain's height skips none of them), and \<open>LastCommonAncestor\<close> the youngest block two
  branches share, its final assertion never failing.
\<close>

theorem FindFork_LastCommonAncestor:
  assumes "node_reachable GetHash s v" "blocks s p \<noteq> None" "blocks s q \<noteq> None"
  shows "FindFork (blocks s) v (Some p) = Some (find (\<lambda>r. Some r \<in> set v) (ancestors (blocks s) p)) \<and>
    LastCommonAncestor (blocks s) p q =
      Some (find (\<lambda>r. r \<in> set (ancestors (blocks s) q)) (ancestors (blocks s) p))"
  using node_reachable_inv[OF assms(1)] assms(2,3) FindFork_spec LastCommonAncestor_spec index_invD(1)
  by blast

theorem FindFork_LastCommonAncestor_witness:
  "FindFork (blocks sample_index2) [Some 0, Some 1] (Some 1) = Some (Some 1) \<and>
   LastCommonAncestor (blocks sample_index2) 1 0 = Some (Some 0)"
  using FindFork_LastCommonAncestor[OF sample_node, of 1 0]
  by (simp add: ancestors_def sample_block_def)

text \<open>
  C33. \<open>GetLocator\<close> terminates on every block of the index: the hashes it collects are those of a
  decreasing sequence of ancestors that starts at the block itself and ends at the root of its branch.
\<close>

theorem GetLocator_covers:
  assumes "node_reachable GetHash s v" "blocks s p \<noteq> None"
  shows "\<exists>qs. GetLocator (blocks s) v (Some p) = Some (map (hash_of (blocks s)) qs) \<and>
    hd qs = p \<and> last qs = last (ancestors (blocks s) p) \<and> qs \<noteq> [] \<and> subseq qs (ancestors (blocks s) p)"
proof -
  note inv = conjunct1[OF node_reachable_inv[OF assms(1)]]
  have hashes: "phashBlock b \<noteq> None" if "blocks s q = Some b" for q b
    using index_invD(3)[OF inv] that by (fastforce simp: map_inv_def)
  obtain b where "blocks s p = Some b" using assms(2) by blast
  then have "\<exists>qs. GetLocator_loop (blocks s) v [] 1 (Some p) = Some ([] @ map (hash_of (blocks s)) qs) \<and>
      qs \<noteq> [] \<and> hd qs = p \<and> last qs = last (ancestors (blocks s) p) \<and> subseq qs (ancestors (blocks s) p)"
    by (intro GetLocator_loop_spec[OF index_invD(1)[OF inv] conjunct2[OF node_reachable_inv[OF assms(1)]]])
      (auto dest: hashes)
  then show ?thesis unfolding GetLocator_def by auto
qed

theorem GetLocator_covers_witness:
  "\<exists>qs. GetLocator (blocks sample_index2) [Some 0, Some 1] (Some 1) =
      Some (map (hash_of (blocks sample_index2)) qs) \<and>
    hd qs = 1 \<and> last qs = last (ancestors (blocks sample_index2) 1) \<and> qs \<noteq> [] \<and>
    subseq qs (ancestors (blocks sample_index2) 1)"
  by (rule GetLocator_covers[OF sample_node]) simp

text \<open>\<open>FindEarliestAtLeast\<close>, a binary search over the active chain, returns the first block of the
  chain whose maximal time is at least the given time, and \<open>nullptr\<close> when there is none.
\<close>

lemma FindEarliestAtLeast_first:
  assumes "node_reachable GetHash s v"
  shows "FindEarliestAtLeast (blocks s) v t =
    Option.bind (find (\<lambda>q. \<exists>p b. q = Some p \<and> blocks s p = Some b \<and> t \<le> GetBlockTimeMax b) v) id"
  using FindEarliestAtLeast_spec node_reachable_inv[OF assms] by blast

lemma FindEarliestAtLeast_first_witness:
  "FindEarliestAtLeast (blocks sample_index2) [Some 0, Some 1] 130 = Some 1"
  using FindEarliestAtLeast_first[OF sample_node, of 130]
  by (simp add: sample_block_def GetBlockTimeMax_def)

end
