(* ===== verification/Pow.thy ===== *)
theory Pow
  imports Active_Chain
begin

text \<open>
  Proof of work: \<^verbatim>\<open>src/src/pow.cpp\<close> with the consensus parameters of
  \<^verbatim>\<open>src/src/consensus/params.h\<close>. \<open>DarkGravityWave\<close>, the Bitcoin retargeting rule,
  \<open>GetNextWorkRequired\<close> that chooses between them by height, and \<open>CheckProofOfWork\<close>.

  \<open>None\<close> is a crash: a failed assertion, a null dereference or the exception of a division by zero.
  Two details of the C++ are kept. The multiplication \<open>bnNew *= nActualTimespan\<close> resolves to the
  overload for \<open>uint32_t\<close>, so the 64-bit time span is truncated to 32 bits, and
  \<open>bnNew /= nTargetTimespan\<close> converts its operand to \<open>uint64_t\<close>.
\<close>

datatype DeploymentPos = DEPLOYMENT_TESTDUMMY | DEPLOYMENT_ASSETS | DEPLOYMENT_MSG_REST_ASSETS
  | DEPLOYMENT_TRANSFER_SCRIPT_SIZE | DEPLOYMENT_ENFORCE_VALUE | DEPLOYMENT_COINBASE_ASSETS

record BIP9Deployment =
  dep_bit :: int
  nStartTime :: int
  nTimeout :: int
  nOverrideMinerConfirmationWindow :: u32
  nOverrideRuleChangeActivationThreshold :: u32

record Params =
  hashGenesisBlock :: uint256
  nSubsidyHalvingInterval :: int
  nBIP34Enabled :: bool
  nBIP65Enabled :: bool
  nBIP66Enabled :: bool
  nRuleChangeActivationThreshold :: u32
  nMinerConfirmationWindow :: u32
  vDeployments :: "DeploymentPos \<Rightarrow> BIP9Deployment"
  powLimit :: uint256
  kawpowLimit :: uint256
  fPowAllowMinDifficultyBlocks :: bool
  fPowNoRetargeting :: bool
  nPowTargetSpacing :: int
  nPowTargetTimespan :: int
  nMinimumChainWork :: uint256
  defaultAssumeValid :: uint256
  nSegwitEnabled :: bool
  nCSVEnabled :: bool

definition DifficultyAdjustmentInterval :: "Params \<Rightarrow> int" where
  "DifficultyAdjustmentInterval params = nPowTargetTimespan params sdiv nPowTargetSpacing params"

definition header_time :: "CBlockHeader \<Rightarrow> int" where
  "header_time block = uint (h_nTime block)"

text \<open>The search for the last block that was not mined under the minimum-difficulty rule.\<close>

partial_function (option) last_regular ::
    "block_store \<Rightarrow> Params \<Rightarrow> u32 \<Rightarrow> blockptr \<Rightarrow> u32 option" where
  "last_regular st params limit pindex =
     (case st pindex of
        None \<Rightarrow> None
      | Some b \<Rightarrow>
          (case pprev b of
             None \<Rightarrow> Some (nBits b)
           | Some q \<Rightarrow>
               if nHeight b smod DifficultyAdjustmentInterval params \<noteq> 0 \<and> nBits b = limit
               then last_regular st params limit q
               else Some (nBits b)))"

definition nPastBlocks :: nat where
  "nPastBlocks = 180"

definition target_of_bits :: "u32 \<Rightarrow> base_uint" where
  "target_of_bits bits = fst (SetCompact bits)"

text \<open>One round of the averaging loop: \<open>n\<close> is \<open>nCountBlocks\<close>.\<close>

definition dgw_average :: "nat \<Rightarrow> base_uint \<Rightarrow> base_uint \<Rightarrow> base_uint option" where
  "dgw_average n avg target =
     (if n = 1 then Some target
      else (case bu_div (bu_add (bu_mul32 avg (of_nat n)) target) (bu_of_u64 (of_nat (n + 1))) of
              Inl _ \<Rightarrow> None
            | Inr r \<Rightarrow> Some r))"

text \<open>The loop over the past blocks, with \<open>fuel = nPastBlocks + 1 - nCountBlocks\<close> rounds left; it returns
  the average, the number of KAWPOW blocks and the last block visited.\<close>

fun dgw_loop :: "block_store \<Rightarrow> u32 \<Rightarrow> nat \<Rightarrow> nat \<Rightarrow> base_uint \<Rightarrow> nat \<Rightarrow> blockptr
    \<Rightarrow> (base_uint \<times> nat \<times> blockptr) option" where
  "dgw_loop st kawpowTime 0 n avg found pindex = Some (avg, found, pindex)"
| "dgw_loop st kawpowTime (Suc rest) n avg found pindex =
     (case st pindex of
        None \<Rightarrow> None
      | Some b \<Rightarrow>
          (case dgw_average n avg (target_of_bits (nBits b)) of
             None \<Rightarrow> None
           | Some avg' \<Rightarrow>
               let found' = (if nTime b \<ge> kawpowTime then found + 1 else found)
               in if n \<noteq> nPastBlocks
                  then (case pprev b of
                          None \<Rightarrow> None
                        | Some q \<Rightarrow> dgw_loop st kawpowTime rest (n + 1) avg' found' q)
                  else dgw_loop st kawpowTime rest (n + 1) avg' found' pindex))"

definition clamp :: "int \<Rightarrow> int \<Rightarrow> int \<Rightarrow> int" where
  "clamp lo hi x = (let x1 = (if x < lo then lo else x) in if x1 > hi then hi else x1)"

text \<open>The common end of both rules: scale the target by the time span and cap it.\<close>

definition retarget :: "base_uint \<Rightarrow> int \<Rightarrow> int \<Rightarrow> base_uint \<Rightarrow> u32 option" where
  "retarget bnOld nActualTimespan nTargetTimespan bnPowLimit =
     (case bu_div (bu_mul32 bnOld (word_of_int nActualTimespan)) (bu_of_u64 (word_of_int nTargetTimespan)) of
        Inl _ \<Rightarrow> None
      | Inr bnNew \<Rightarrow> GetCompact (if CompareTo bnNew bnPowLimit > 0 then bnPowLimit else bnNew) False)"

definition DarkGravityWave ::
    "block_store \<Rightarrow> u32 \<Rightarrow> blockptr \<Rightarrow> CBlockHeader \<Rightarrow> Params \<Rightarrow> u32 option" where
  "DarkGravityWave st kawpowTime pindexLast pblock params =
     (let bnPowLimit = UintToArith256 (powLimit params)
      in case (st pindexLast, GetCompact bnPowLimit False) of
           (Some lastb, Some nProofOfWorkLimit) \<Rightarrow>
             if nHeight lastb < int nPastBlocks then GetCompact bnPowLimit False
             else if fPowAllowMinDifficultyBlocks params \<and> fPowNoRetargeting params then
               (if header_time pblock > GetBlockTime lastb + nPowTargetSpacing params * 2
                then Some nProofOfWorkLimit
                else last_regular st params nProofOfWorkLimit pindexLast)
             else
               (case dgw_loop st kawpowTime nPastBlocks 1 bu_zero 0 pindexLast of
                  None \<Rightarrow> None
                | Some (bnPastTargetAvg, nKAWPOWBlocksFound, pindex) \<Rightarrow>
                    if h_nTime pblock \<ge> kawpowTime \<and> nKAWPOWBlocksFound \<noteq> nPastBlocks
                    then GetCompact (UintToArith256 (kawpowLimit params)) False
                    else
                      (case st pindex of
                         None \<Rightarrow> None
                       | Some first \<Rightarrow>
                           let nTargetTimespan = int nPastBlocks * nPowTargetSpacing params
                           in retarget bnPastTargetAvg
                                (clamp (nTargetTimespan sdiv 3) (nTargetTimespan * 3)
                                   (GetBlockTime lastb - GetBlockTime first))
                                nTargetTimespan bnPowLimit))
         | _ \<Rightarrow> None)"

definition CalculateNextWorkRequired :: "block_store \<Rightarrow> blockptr \<Rightarrow> int \<Rightarrow> Params \<Rightarrow> u32 option" where
  "CalculateNextWorkRequired st pindexLast nFirstBlockTime params =
     (case st pindexLast of
        None \<Rightarrow> None
      | Some lastb \<Rightarrow>
          if fPowNoRetargeting params then Some (nBits lastb)
          else retarget (target_of_bits (nBits lastb))
                 (clamp (nPowTargetTimespan params sdiv 4) (nPowTargetTimespan params * 4)
                    (GetBlockTime lastb - nFirstBlockTime))
                 (nPowTargetTimespan params) (UintToArith256 (powLimit params)))"

definition GetNextWorkRequiredBTC :: "block_store \<Rightarrow> blockptr \<Rightarrow> CBlockHeader \<Rightarrow> Params \<Rightarrow> u32 option" where
  "GetNextWorkRequiredBTC st pindexLast pblock params =
     (case (st pindexLast, GetCompact (UintToArith256 (powLimit params)) False) of
        (Some lastb, Some nProofOfWorkLimit) \<Rightarrow>
          if (nHeight lastb + 1) smod DifficultyAdjustmentInterval params \<noteq> 0 then
            (if fPowAllowMinDifficultyBlocks params then
               (if header_time pblock > GetBlockTime lastb + nPowTargetSpacing params * 2
                then Some nProofOfWorkLimit
                else last_regular st params nProofOfWorkLimit pindexLast)
             else Some (nBits lastb))
          else
            (let nHeightFirst = nHeight lastb - (DifficultyAdjustmentInterval params - 1)
             in if nHeightFirst < 0 then None
                else (case GetAncestor st pindexLast nHeightFirst of
                        Some (Some first) \<Rightarrow>
                          Option.bind (st first) (\<lambda>b.
                            CalculateNextWorkRequired st pindexLast (GetBlockTime b) params)
                      | _ \<Rightarrow> None))
      | _ \<Rightarrow> None)"

definition IsDGWActive :: "u32 \<Rightarrow> u32 \<Rightarrow> bool" where
  "IsDGWActive DGWActivationBlock nBlockNumber = (nBlockNumber \<ge> DGWActivationBlock)"

definition GetNextWorkRequired ::
    "u32 \<Rightarrow> u32 \<Rightarrow> block_store \<Rightarrow> blockptr \<Rightarrow> CBlockHeader \<Rightarrow> Params \<Rightarrow> u32 option" where
  "GetNextWorkRequired DGWActivationBlock kawpowTime st pindexLast pblock params =
     (case st pindexLast of
        None \<Rightarrow> None
      | Some lastb \<Rightarrow>
          if IsDGWActive DGWActivationBlock (word_of_int (nHeight lastb + 1))
          then DarkGravityWave st kawpowTime pindexLast pblock params
          else GetNextWorkRequiredBTC st pindexLast pblock params)"

definition CheckProofOfWork :: "uint256 \<Rightarrow> u32 \<Rightarrow> Params \<Rightarrow> bool" where
  "CheckProofOfWork hash bits params =
     (let (bnTarget, fNegative, fOverflow) = SetCompact bits
      in if fNegative \<or> EqualTo bnTarget 0 \<or> fOverflow \<or>
            CompareTo bnTarget (UintToArith256 (powLimit params)) > 0 then False
         else if CompareTo (UintToArith256 hash) bnTarget > 0 then False
         else True)"

text \<open>\<open>GetBlockProofEquivalentTime\<close> of \<^verbatim>\<open>src/src/chain.cpp\<close>; the product of the sign and the 64-bit
  word is taken modulo \<open>2 ^ 64\<close> and read as a signed number.\<close>

definition GetBlockProofEquivalentTime ::
    "CBlockIndex \<Rightarrow> CBlockIndex \<Rightarrow> CBlockIndex \<Rightarrow> Params \<Rightarrow> int option" where
  "GetBlockProofEquivalentTime to frm tip params =
     (let (r, sign) = (if CompareTo (nChainWork to) (nChainWork frm) > 0
                       then (bu_sub (nChainWork to) (nChainWork frm), 1)
                       else (bu_sub (nChainWork frm) (nChainWork to), -1))
      in case GetBlockProof (nBits tip) of
           Inl _ \<Rightarrow> None
         | Inr work \<Rightarrow>
             (case bu_div (bu_mul r (bu_of_u64 (word_of_int (nPowTargetSpacing params)))) work of
                Inl _ \<Rightarrow> None
              | Inr q \<Rightarrow> if bu_bits q > 63 then Some (sign * (2 ^ 63 - 1))
                         else Some (sint (word_of_int sign * GetLow64 q))))"

subsection \<open>Totality and the difficulty limit\<close>

lemma GetCompact_total:
  assumes "length a = 8"
  obtains c where "GetCompact a False = Some c" "\<not> bit c 23" "compact_target c \<le> bu_val a"
  using GetCompact_spec[OF assms] by blast

lemma length_target_of_bits [simp]: "length (target_of_bits bits) = 8"
  unfolding target_of_bits_def by (cases "SetCompact bits") (simp add: SetCompact_spec(1))

lemma retarget_total:
  assumes "length old = 8" "length limit = 8" "0 < T" "T < 2 ^ 64"
  obtains c bnNew where "retarget old ts T limit = Some c" "\<not> bit c 23" "length bnNew = 8"
    "bu_val bnNew = bu_val (bu_mul32 old (word_of_int ts)) div nat T"
    "GetCompact (if bu_val limit < bu_val bnNew then limit else bnNew) False = Some c"
    "compact_target c \<le> bu_val limit" "compact_target c \<le> bu_val bnNew"
proof -
  have T: "bu_val (bu_of_u64 (word_of_int T)) = nat T"
    using assms(3,4) by (simp only: bu_val_of_u64) (rule unat_word_of_int_64, simp_all)
  then have pos: "0 < bu_val (bu_of_u64 (word_of_int T))" using assms(3) by simp
  have len: "length (bu_mul32 old (word_of_int ts)) = length (bu_of_u64 (word_of_int T))"
    using assms(1) by simp
  from bu_div_val[OF len pos] obtain q where q:
    "bu_div (bu_mul32 old (word_of_int ts)) (bu_of_u64 (word_of_int T)) = Inr q" "length q = 8"
    "bu_val q = bu_val (bu_mul32 old (word_of_int ts)) div nat T"
    unfolding T using assms(1) by auto
  have cmp: "CompareTo q limit > 0 \<longleftrightarrow> bu_val limit < bu_val q"
    using q(2) assms(2) by (simp add: CompareTo_val)
  define n where "n = (if bu_val limit < bu_val q then limit else q)"
  have "length n = 8" using q(2) assms(2) by (simp add: n_def)
  then obtain c where c: "GetCompact n False = Some c" "\<not> bit c 23" "compact_target c \<le> bu_val n"
    by (rule GetCompact_total)
  have "retarget old ts T limit = Some c" using c(1) by (simp add: retarget_def q(1) cmp n_def)
  moreover have "bu_val n \<le> bu_val limit" "bu_val n \<le> bu_val q" by (auto simp: n_def)
  ultimately show thesis using q c by (intro that[of c q]) (auto simp: n_def)
qed

lemma dgw_average_total:
  assumes "length avg = 8" "length t = 8" "n \<le> 180"
  obtains r where "dgw_average n avg t = Some r" "length r = 8"
proof (cases "n = 1")
  case False
  have "unat (of_nat (n + 1) :: u64) = n + 1" using assms(3) by (simp only: unat_of_nat) simp
  then have "0 < bu_val (bu_of_u64 (of_nat (n + 1)))" unfolding bu_val_of_u64 by linarith
  then obtain r where "bu_div (bu_add (bu_mul32 avg (of_nat n)) t) (bu_of_u64 (of_nat (n + 1))) = Inr r"
      "length r = 8"
    using bu_div_val[of "bu_add (bu_mul32 avg (of_nat n)) t" "bu_of_u64 (of_nat (n + 1))"] assms by auto
  then show thesis using False by (intro that[of r]) (simp_all add: dgw_average_def)
qed (use that assms(2) in \<open>simp add: dgw_average_def\<close>)

lemma dgw_loop_total:
  assumes wf: "wf_store st" and "st p = Some b" "length avg = 8" "n + rest = 181" "180 \<le> nHeight b + int n"
  shows "\<exists>avg' found' q c. dgw_loop st k rest n avg found p = Some (avg', found', q) \<and> length avg' = 8 \<and>
    st q = Some c"
  using assms(2-5)
proof (induction rest arbitrary: n avg found p b)
  case (Suc rest)
  obtain r where r: "dgw_average n avg (target_of_bits (nBits b)) = Some r" "length r = 8"
    using dgw_average_total[OF Suc.prems(2), of "target_of_bits (nBits b)" n] Suc.prems(3) by auto
  show ?case
  proof (cases "n = nPastBlocks")
    case True
    then have "rest = 0" using Suc.prems(3) by (simp add: nPastBlocks_def)
    then show ?thesis using Suc.prems(1) r True by (simp add: Let_def)
  next
    case False
    then have "0 < nHeight b" using Suc.prems(3,4) by (simp add: nPastBlocks_def)
    then obtain q c where q: "pprev b = Some q" "st q = Some c" "nHeight b = nHeight c + 1"
      using wf_store_parent[OF wf Suc.prems(1)] by blast
    have "n + 1 + rest = 181" "180 \<le> nHeight c + int (n + 1)" using Suc.prems(3,4) q(3) by auto
    from Suc.IH[OF q(2) r(2) this] show ?thesis
      using Suc.prems(1) r(1) q(1) False by (simp add: Let_def)
  qed
qed simp

lemma last_regular_total:
  assumes wf: "wf_store st" and "st p = Some b"
  shows "\<exists>q c. last_regular st params limit p = Some (nBits c) \<and> st q = Some c"
  using assms
proof (induction rule: ancestors_induct)
  case (root p b)
  then show ?case by (subst last_regular.simps) auto
next
  case (step p b q c)
  then show ?case by (subst last_regular.simps) auto
qed

text \<open>What the deployed parameters satisfy.\<close>

definition params_ok :: "Params \<Rightarrow> bool" where
  "params_ok params =
     (0 < nPowTargetSpacing params \<and> nPowTargetSpacing params \<le> nPowTargetTimespan params \<and>
      180 * nPowTargetSpacing params < 2 ^ 63 \<and> nPowTargetTimespan params < 2 ^ 63)"

definition bits_below :: "block_store \<Rightarrow> nat \<Rightarrow> bool" where
  "bits_below st L = (\<forall>p b. st p = Some b \<longrightarrow> compact_target (nBits b) \<le> L)"

lemma DarkGravityWave_bounded:
  assumes wf: "wf_store st" and b: "st p = Some b" and ok: "params_ok params" and below: "bits_below st L"
    and limits: "bu_val (UintToArith256 (powLimit params)) \<le> L" "bu_val (UintToArith256 (kawpowLimit params)) \<le> L"
  shows "\<exists>c. DarkGravityWave st k p pblock params = Some c \<and> compact_target c \<le> L"
proof -
  let ?lim = "UintToArith256 (powLimit params)"
  obtain cl where cl: "GetCompact ?lim False = Some cl" "compact_target cl \<le> bu_val ?lim"
    by (rule GetCompact_total[of ?lim]) simp_all
  obtain ck where ck: "GetCompact (UintToArith256 (kawpowLimit params)) False = Some ck"
      "compact_target ck \<le> bu_val (UintToArith256 (kawpowLimit params))"
    by (rule GetCompact_total[of "UintToArith256 (kawpowLimit params)"]) simp_all
  obtain q c where q: "last_regular st params cl p = Some (nBits c)" "st q = Some c"
    using last_regular_total[OF wf b] by blast
  have cq: "compact_target (nBits c) \<le> L" using below q(2) by (simp add: bits_below_def)
  show ?thesis
  proof (cases "nHeight b < int nPastBlocks")
    case True
    then show ?thesis using cl limits by (simp add: DarkGravityWave_def b Let_def)
  next
    case high: False
    then have "180 \<le> nHeight b + int 1" by (simp add: nPastBlocks_def)
    from dgw_loop_total[OF wf b length_bu_zero _ this, of 180 k 0] obtain avg found r d where
      r: "dgw_loop st k nPastBlocks (Suc 0) bu_zero 0 p = Some (avg, found, r)" "length avg = 8" "st r = Some d"
      by (auto simp: nPastBlocks_def)
    define T where "T = int nPastBlocks * nPowTargetSpacing params"
    have T: "0 < T" "T < 2 ^ 64" using ok by (auto simp: params_ok_def T_def nPastBlocks_def)
    obtain cr where cr: "retarget avg (clamp (T sdiv 3) (T * 3) (GetBlockTime b - GetBlockTime d)) T ?lim = Some cr"
        "compact_target cr \<le> bu_val ?lim"
      by (rule retarget_total[OF r(2) length_UintToArith256 T])
    show ?thesis
      using high cl ck cr cq limits
      by (auto simp: DarkGravityWave_def b Let_def q(1) r(1,3) T_def[symmetric])
  qed
qed

lemma GetNextWorkRequiredBTC_bounded:
  assumes wf: "wf_store st" and b: "st p = Some b" and ok: "params_ok params" and below: "bits_below st L"
    and limit: "bu_val (UintToArith256 (powLimit params)) \<le> L"
  shows "\<exists>c. GetNextWorkRequiredBTC st p pblock params = Some c \<and> compact_target c \<le> L"
proof -
  let ?lim = "UintToArith256 (powLimit params)" and ?I = "DifficultyAdjustmentInterval params"
  obtain cl where cl: "GetCompact ?lim False = Some cl" "compact_target cl \<le> bu_val ?lim"
    by (rule GetCompact_total[of ?lim]) simp_all
  obtain q c where q: "last_regular st params cl p = Some (nBits c)" "st q = Some c"
    using last_regular_total[OF wf b] by blast
  have cq: "compact_target (nBits c) \<le> L" "compact_target (nBits b) \<le> L"
    using below q(2) b by (simp_all add: bits_below_def)
  have T: "0 < nPowTargetTimespan params" "nPowTargetTimespan params < 2 ^ 64"
    using ok by (auto simp: params_ok_def)
  have b0: "0 \<le> nHeight b" by (rule wf_storeD(1)[OF wf b])
  have I: "0 < ?I"
    using ok by (simp add: DifficultyAdjustmentInterval_def params_ok_def sdiv_nonneg pos_imp_zdiv_pos_iff)
  show ?thesis
  proof (cases "(nHeight b + 1) smod ?I = 0")
    case False
    then show ?thesis using cl q(1) cq limit by (auto simp: GetNextWorkRequiredBTC_def b)
  next
    case True
    then have "(nHeight b + 1) mod ?I = 0" using b0 I by (simp add: smod_nonneg)
    then have le: "?I \<le> nHeight b + 1" using b0 I by (intro zdvd_imp_le) auto
    define h where "h = nHeight b - (?I - 1)"
    have h: "0 \<le> h" "h \<le> nHeight b" using le I by (auto simp: h_def)
    obtain r d where r: "GetAncestor st p h = Some (Some r)" "st r = Some d"
      using anc_ancestor[OF wf b, of "nat (nHeight b - h)"] GetAncestor_anc[OF wf b, of h] h by auto
    obtain cr where cr: "retarget (target_of_bits (nBits b))
        (clamp (nPowTargetTimespan params sdiv 4) (nPowTargetTimespan params * 4) (GetBlockTime b - GetBlockTime d))
        (nPowTargetTimespan params) ?lim = Some cr" "compact_target cr \<le> bu_val ?lim"
      by (rule retarget_total[OF length_target_of_bits length_UintToArith256 T])
    show ?thesis
      using True h(1) r cl(1) cr cq(2) limit
      by (auto simp: GetNextWorkRequiredBTC_def b Let_def h_def[symmetric] CalculateNextWorkRequired_def)
  qed
qed

subsection \<open>Properties\<close>

text \<open>
  C9. \<open>CheckProofOfWork\<close> accepts a hash exactly when the compact target decodes without sign and
  overflow to a non-zero number not above the proof-of-work limit, and the hash is at most that number.
\<close>

theorem CheckProofOfWork_iff:
  "CheckProofOfWork hash bits params \<longleftrightarrow>
     \<not> bit bits 23 \<and> 0 < compact_target bits \<and> compact_target bits < 2 ^ 256 \<and>
     compact_target bits \<le> bu_val (UintToArith256 (powLimit params)) \<and>
     bu_val (UintToArith256 hash) \<le> compact_target bits"
proof -
  obtain t neg ovf where t: "SetCompact bits = (t, neg, ovf)" by (cases "SetCompact bits")
  note spec = SetCompact_spec[OF t]
  define M where "M = (2 :: nat) ^ 256"
  note spec' = spec[folded M_def]
  have cmp: "CompareTo t (UintToArith256 x) > 0 \<longleftrightarrow> bu_val (UintToArith256 x) < bu_val t"
    "CompareTo (UintToArith256 x) t > 0 \<longleftrightarrow> bu_val t < bu_val (UintToArith256 x)" for x
    using spec(1) by (simp_all add: CompareTo_val)
  have zero: "EqualTo t 0 \<longleftrightarrow> bu_val t = 0" by (simp add: EqualTo_val spec(1))
  show ?thesis
    unfolding CheckProofOfWork_def t Let_def prod.case cmp zero M_def[symmetric]
    using spec' by (cases "M \<le> compact_target bits") (auto simp: not_less not_le)
qed

text \<open>
  C8. On every block index a node can build, with the parameters in their ranges,
  \<open>GetNextWorkRequired\<close> always returns (no assertion, null pointer or division fails and its loops
  end), and if no block of the index is easier than a limit \<open>L\<close> covering the two configured limits,
  the target it requires of the next block is not easier than \<open>L\<close> either.
\<close>

theorem GetNextWorkRequired_bounded:
  assumes "index_reachable GetHash s" "blocks s p = Some b" "params_ok params" "bits_below (blocks s) L"
    and "bu_val (UintToArith256 (powLimit params)) \<le> L" "bu_val (UintToArith256 (kawpowLimit params)) \<le> L"
  shows "\<exists>c. GetNextWorkRequired dgw kawpowTime (blocks s) p pblock params = Some c \<and> compact_target c \<le> L"
proof -
  note wf = index_invD(1)[OF index_reachable_inv[OF assms(1)]]
  show ?thesis
    using DarkGravityWave_bounded[OF wf assms(2-6)] GetNextWorkRequiredBTC_bounded[OF wf assms(2-5)] assms(2)
    by (simp add: GetNextWorkRequired_def)
qed

definition sample_params :: Params where
  "sample_params = \<lparr>hashGenesisBlock = [], nSubsidyHalvingInterval = 2100000, nBIP34Enabled = True,
     nBIP65Enabled = True, nBIP66Enabled = True, nRuleChangeActivationThreshold = 108,
     nMinerConfirmationWindow = 144,
     vDeployments = (\<lambda>_. \<lparr>dep_bit = 6, nStartTime = 0, nTimeout = 999999999999,
        nOverrideMinerConfirmationWindow = 0, nOverrideRuleChangeActivationThreshold = 0\<rparr>),
     powLimit = replicate 31 0xff @ [0x7f], kawpowLimit = replicate 31 0xff @ [0x7f],
     fPowAllowMinDifficultyBlocks = False, fPowNoRetargeting = False, nPowTargetSpacing = 60,
     nPowTargetTimespan = 2016 * 60, nMinimumChainWork = [], defaultAssumeValid = [],
     nSegwitEnabled = True, nCSVEnabled = True\<rparr>"

theorem GetNextWorkRequired_bounded_witness:
  "\<exists>c. GetNextWorkRequired 0 0 (blocks sample_index2) 1 (sample_header 2) sample_params = Some c \<and>
     compact_target c \<le> 2 ^ 256"
proof (rule GetNextWorkRequired_bounded[OF sample_index2_reachable sample_index2_blocks(2)])
  show "params_ok sample_params" by (simp add: params_ok_def sample_params_def)
  show "bits_below (blocks sample_index2) (2 ^ 256)"
    by (auto simp: bits_below_def sample_index2_def sample_block_def compact_target_def split: if_splits)
qed (simp_all add: less_imp_le[OF bu_val_less_256] del: power_numeral)

text \<open>
  C28. Away from the no-retargeting networks and while the scaled target fits 256 bits, the Bitcoin rule
  sets the compact form of \<open>target * timespan div T\<close>, capped at the proof-of-work limit, where
  \<open>timespan\<close> is the elapsed time clamped to \<open>[T div 4, 4 * T]\<close>; so one retarget changes the difficulty
  by at most a factor of four.
\<close>

theorem CalculateNextWorkRequired_retargets:
  assumes "st p = Some b" "\<not> fPowNoRetargeting params" "T = nPowTargetTimespan params" "0 < T" "4 * T < 2 ^ 32"
    and "compact_target (nBits b) * nat (4 * T) < 2 ^ 256"
    and "ts = max (T div 4) (min (4 * T) (GetBlockTime b - first))"
  shows "\<exists>n c. CalculateNextWorkRequired st p first params = Some c \<and> GetCompact n False = Some c \<and> length n = 8 \<and>
    bu_val n = min (bu_val (UintToArith256 (powLimit params))) (compact_target (nBits b) * nat ts div nat T) \<and>
    compact_target c \<le> 4 * compact_target (nBits b)"
proof -
  let ?lim = "UintToArith256 (powLimit params)" and ?t = "target_of_bits (nBits b)"
  have tsb: "0 \<le> ts" "ts \<le> 4 * T" "ts < 2 ^ 32" using assms(4,5,7) by (auto simp: max_def min_def)
  have cl: "clamp (T sdiv 4) (T * 4) (GetBlockTime b - first) = ts"
    using assms(4,7) by (auto simp: clamp_def Let_def sdiv_nonneg)
  have "compact_target (nBits b) * 1 \<le> compact_target (nBits b) * nat (4 * T)" using assms(4) by (intro mult_left_mono) auto
  with assms(6) have small: "compact_target (nBits b) < 2 ^ 256" by linarith
  obtain t neg ovf where t: "SetCompact (nBits b) = (t, neg, ovf)" by (cases "SetCompact (nBits b)")
  have val: "bu_val ?t = compact_target (nBits b)"
    using SetCompact_spec(2)[OF t] small by (simp only: target_of_bits_def t fst_conv mod_less)
  have u: "unat (word_of_int ts :: u32) = nat ts" using tsb by (intro unat_word_of_int_32)
  have "nat ts \<le> nat (4 * T)" using tsb by simp
  then have "compact_target (nBits b) * nat ts \<le> compact_target (nBits b) * nat (4 * T)" by (rule mult_left_mono) simp
  then have "compact_target (nBits b) * nat ts < 2 ^ 256" using assms(6) by (rule le_less_trans)
  moreover have "(2 :: nat) ^ (32 * 8) = 2 ^ 256" by simp
  ultimately have "compact_target (nBits b) * nat ts < 2 ^ (32 * 8)" by metis
  then have mul: "bu_val (bu_mul32 ?t (word_of_int ts)) = compact_target (nBits b) * nat ts"
    by (simp only: bu_val_mul32 length_target_of_bits val u mod_less)
  have T64: "T < 2 ^ 64" using assms(5) by simp
  obtain c n where c: "retarget ?t ts T ?lim = Some c" "length n = 8"
      "bu_val n = bu_val (bu_mul32 ?t (word_of_int ts)) div nat T"
      "GetCompact (if bu_val ?lim < bu_val n then ?lim else n) False = Some c" "compact_target c \<le> bu_val n"
    by (rule retarget_total[OF length_target_of_bits length_UintToArith256 assms(4) T64])
  have "compact_target (nBits b) * nat ts div nat T \<le> compact_target (nBits b) * nat (4 * T) div nat T"
    using tsb by (intro div_le_mono mult_left_mono) auto
  also have "\<dots> = 4 * compact_target (nBits b)" using assms(4) by (simp add: nat_mult_distrib)
  finally have "compact_target c \<le> 4 * compact_target (nBits b)" using c(3,5) mul by simp
  moreover have "CalculateNextWorkRequired st p first params = Some c"
    using c(1) assms(1-3) cl by (simp add: CalculateNextWorkRequired_def)
  ultimately show ?thesis
    using c mul by (intro exI[of _ "if bu_val ?lim < bu_val n then ?lim else n"] exI[of _ c]) (auto simp: min_def)
qed

theorem CalculateNextWorkRequired_retargets_witness:
  "\<exists>n c. CalculateNextWorkRequired [0 \<mapsto> (sample_block 0 None None)\<lparr>nBits := 0x1d00ffff\<rparr>] 0 0 sample_params = Some c \<and>
    GetCompact n False = Some c \<and> length n = 8 \<and>
    bu_val n = min (bu_val (UintToArith256 (powLimit sample_params))) (compact_target 0x1d00ffff * 30240 div 120960) \<and>
    compact_target c \<le> 4 * compact_target 0x1d00ffff"
proof -
  let ?b = "(sample_block 0 None None)\<lparr>nBits := 0x1d00ffff\<rparr>"
  have nb: "nBits ?b = 0x1d00ffff" by simp
  have 1: "[0 \<mapsto> ?b] 0 = Some ?b" by simp
  have 2: "\<not> fPowNoRetargeting sample_params" "120960 = nPowTargetTimespan sample_params"
    by (simp_all add: sample_params_def)
  have 3: "compact_target (nBits ?b) * nat (4 * 120960) < 2 ^ 256" by (simp add: compact_target_def)
  have 4: "30240 = max (120960 div 4) (min (4 * 120960) (GetBlockTime ?b - 0))"
    by (simp add: GetBlockTime_def sample_block_def)
  show ?thesis
    by (rule CalculateNextWorkRequired_retargets[of "[0 \<mapsto> ?b]" 0 ?b sample_params 120960 30240 0, unfolded nb nat_numeral])
      (use 1 2 3 4 in \<open>simp_all only: nb nat_numeral\<close>, simp_all)
qed

end
