(* ===== verification/Version_Bits.thy ===== *)
theory Version_Bits
  imports Pow
begin

text \<open>
  BIP9 soft-fork deployments: \<^verbatim>\<open>src/src/versionbits.h\<close>, \<^verbatim>\<open>src/src/versionbits.cpp\<close> and the activation
  tests at the end of \<^verbatim>\<open>src/src/validation.cpp\<close>.

  A condition checker (the virtual functions of \<open>AbstractThresholdConditionChecker\<close>) is a record of its
  functions already applied to the parameters; \<open>VersionBitsConditionChecker\<close> builds it for a deployment.
  \<open>GetStateFor\<close> works on a cache from block pointers (\<open>None\<close> is \<open>nullptr\<close>) to states, which it returns
  updated; an outer \<open>None\<close> is a crash. The reference \<open>bip9\<close> computes a state period by period from the
  genesis block, without the cache and without the shortcut for early blocks.
\<close>

datatype ThresholdState = THRESHOLD_DEFINED | THRESHOLD_STARTED | THRESHOLD_LOCKED_IN
  | THRESHOLD_ACTIVE | THRESHOLD_FAILED

record checker =
  Condition :: "CBlockIndex \<Rightarrow> bool"
  BeginTime :: int
  EndTime :: int
  Period :: int
  Threshold :: int

type_synonym ThresholdConditionCache = "blockptr option \<Rightarrow> ThresholdState option"

partial_function (option) walk_back ::
    "block_store \<Rightarrow> checker \<Rightarrow> blockptr option \<Rightarrow> blockptr list \<Rightarrow> ThresholdConditionCache
     \<Rightarrow> (blockptr option \<times> blockptr list \<times> ThresholdConditionCache) option" where
  "walk_back st c pindexPrev vToCompute cache =
     (if cache pindexPrev \<noteq> None then Some (pindexPrev, vToCompute, cache)
      else
        (case pindexPrev of
           None \<Rightarrow> Some (None, vToCompute, cache(None \<mapsto> THRESHOLD_DEFINED))
         | Some p \<Rightarrow>
             if GetMedianTimePast st p < BeginTime c
             then Some (Some p, vToCompute, cache(Some p \<mapsto> THRESHOLD_DEFINED))
             else
               (case st p of
                  None \<Rightarrow> None
                | Some b \<Rightarrow>
                    (case GetAncestor st p (nHeight b - Period c) of
                       None \<Rightarrow> None
                     | Some q \<Rightarrow> walk_back st c q (p # vToCompute) cache))))"

fun count_condition :: "block_store \<Rightarrow> checker \<Rightarrow> nat \<Rightarrow> blockptr option \<Rightarrow> int option" where
  "count_condition st c 0 p = Some 0"
| "count_condition st c (Suc n) None = None"
| "count_condition st c (Suc n) (Some p) =
     (case st p of
        None \<Rightarrow> None
      | Some b \<Rightarrow> map_option (\<lambda>k. (if Condition c b then 1 else 0) + k) (count_condition st c n (pprev b)))"

definition stateNext :: "block_store \<Rightarrow> checker \<Rightarrow> ThresholdState \<Rightarrow> blockptr \<Rightarrow> ThresholdState option" where
  "stateNext st c state p =
     (case state of
        THRESHOLD_DEFINED \<Rightarrow>
          if GetMedianTimePast st p \<ge> EndTime c then Some THRESHOLD_FAILED
          else if GetMedianTimePast st p \<ge> BeginTime c then Some THRESHOLD_STARTED
          else Some THRESHOLD_DEFINED
      | THRESHOLD_STARTED \<Rightarrow>
          if GetMedianTimePast st p \<ge> EndTime c then Some THRESHOLD_FAILED
          else (case count_condition st c (nat (Period c)) (Some p) of
                  None \<Rightarrow> None
                | Some cnt \<Rightarrow> if cnt \<ge> Threshold c then Some THRESHOLD_LOCKED_IN else Some THRESHOLD_STARTED)
      | THRESHOLD_LOCKED_IN \<Rightarrow> Some THRESHOLD_ACTIVE
      | THRESHOLD_FAILED \<Rightarrow> Some THRESHOLD_FAILED
      | THRESHOLD_ACTIVE \<Rightarrow> Some THRESHOLD_ACTIVE)"

fun walk_forward :: "block_store \<Rightarrow> checker \<Rightarrow> ThresholdState \<Rightarrow> blockptr list \<Rightarrow> ThresholdConditionCache
    \<Rightarrow> (ThresholdState \<times> ThresholdConditionCache) option" where
  "walk_forward st c state [] cache = Some (state, cache)"
| "walk_forward st c state (p # vToCompute) cache =
     (case stateNext st c state p of
        None \<Rightarrow> None
      | Some state' \<Rightarrow> walk_forward st c state' vToCompute (cache(Some p \<mapsto> state')))"

definition period_parent :: "block_store \<Rightarrow> checker \<Rightarrow> blockptr \<Rightarrow> blockptr option option" where
  "period_parent st c p =
     Option.bind (st p) (\<lambda>b. GetAncestor st p (nHeight b - ((nHeight b + 1) smod Period c)))"

definition GetStateFor :: "block_store \<Rightarrow> checker \<Rightarrow> blockptr option \<Rightarrow> ThresholdConditionCache
    \<Rightarrow> (ThresholdState \<times> ThresholdConditionCache) option" where
  "GetStateFor st c pindexPrev cache =
     (case (case pindexPrev of None \<Rightarrow> Some None | Some p \<Rightarrow> period_parent st c p) of
        None \<Rightarrow> None
      | Some start \<Rightarrow>
          (case walk_back st c start [] cache of
             None \<Rightarrow> None
           | Some (known, vToCompute, cache1) \<Rightarrow>
               (case cache1 known of
                  None \<Rightarrow> None
                | Some state \<Rightarrow> walk_forward st c state vToCompute cache1)))"

record BIP9Stats =
  stats_period :: int
  stats_threshold :: int
  stats_elapsed :: int
  stats_count :: int
  stats_possible :: bool

partial_function (option) stats_loop :: "block_store \<Rightarrow> checker \<Rightarrow> int \<Rightarrow> blockptr option \<Rightarrow> int \<Rightarrow> int option" where
  "stats_loop st c endHeight currentIndex cnt =
     (case currentIndex of
        None \<Rightarrow> None
      | Some p \<Rightarrow>
          (case st p of
             None \<Rightarrow> None
           | Some b \<Rightarrow>
               if endHeight \<noteq> nHeight b
               then stats_loop st c endHeight (pprev b) (if Condition c b then cnt + 1 else cnt)
               else Some cnt))"

definition GetStateStatisticsFor :: "block_store \<Rightarrow> checker \<Rightarrow> blockptr option \<Rightarrow> BIP9Stats option" where
  "GetStateStatisticsFor st c pindex =
     (let stats = \<lparr>stats_period = Period c, stats_threshold = Threshold c, stats_elapsed = 0,
                   stats_count = 0, stats_possible = False\<rparr>
      in case pindex of
           None \<Rightarrow> Some stats
         | Some p \<Rightarrow>
             (case (st p, period_parent st c p) of
                (Some b, Some (Some q)) \<Rightarrow>
                  (case st q of
                     None \<Rightarrow> None
                   | Some e \<Rightarrow>
                       (case stats_loop st c (nHeight e) (Some p) 0 of
                          None \<Rightarrow> None
                        | Some cnt \<Rightarrow>
                            let elapsed = nHeight b - nHeight e
                            in Some (stats\<lparr>stats_elapsed := elapsed, stats_count := cnt,
                                   stats_possible := (Period c - Threshold c \<ge> elapsed - cnt)\<rparr>)))
              | _ \<Rightarrow> None))"

partial_function (option) since_loop :: "block_store \<Rightarrow> checker \<Rightarrow> ThresholdState \<Rightarrow> blockptr \<Rightarrow>
    ThresholdConditionCache \<Rightarrow> (int \<times> ThresholdConditionCache) option" where
  "since_loop st c initialState pindexPrev cache =
     (case st pindexPrev of
        None \<Rightarrow> None
      | Some b \<Rightarrow>
          (case GetAncestor st pindexPrev (nHeight b - Period c) of
             None \<Rightarrow> None
           | Some None \<Rightarrow> Some (nHeight b + 1, cache)
           | Some (Some q) \<Rightarrow>
               (case GetStateFor st c (Some q) cache of
                  None \<Rightarrow> None
                | Some (state, cache1) \<Rightarrow>
                    if state = initialState then since_loop st c initialState q cache1
                    else Some (nHeight b + 1, cache1))))"

definition GetStateSinceHeightFor :: "block_store \<Rightarrow> checker \<Rightarrow> blockptr option \<Rightarrow> ThresholdConditionCache
    \<Rightarrow> (int \<times> ThresholdConditionCache) option" where
  "GetStateSinceHeightFor st c pindexPrev cache =
     (case GetStateFor st c pindexPrev cache of
        None \<Rightarrow> None
      | Some (initialState, cache1) \<Rightarrow>
          if initialState = THRESHOLD_DEFINED then Some (0, cache1)
          else (case Option.bind pindexPrev (period_parent st c) of
                  Some (Some q) \<Rightarrow> since_loop st c initialState q cache1
                | _ \<Rightarrow> None))"

subsection \<open>Deployments\<close>

definition Mask :: "DeploymentPos \<Rightarrow> Params \<Rightarrow> u32" where
  "Mask pos params = push_bit (nat (dep_bit (vDeployments params pos))) 1"

definition VersionBitsConditionChecker :: "DeploymentPos \<Rightarrow> Params \<Rightarrow> checker" where
  "VersionBitsConditionChecker pos params =
     (let d = vDeployments params pos
      in \<lparr>Condition = (\<lambda>b. word_of_int (nVersion b) AND Mask pos params \<noteq> 0),
          BeginTime = nStartTime d,
          EndTime = nTimeout d,
          Period = sint (if nOverrideMinerConfirmationWindow d > 0 then nOverrideMinerConfirmationWindow d
                         else nMinerConfirmationWindow params),
          Threshold = sint (if nOverrideRuleChangeActivationThreshold d > 0
                            then nOverrideRuleChangeActivationThreshold d
                            else nRuleChangeActivationThreshold params)\<rparr>)"

type_synonym VersionBitsCache = "DeploymentPos \<Rightarrow> ThresholdConditionCache"

definition VersionBitsState :: "block_store \<Rightarrow> blockptr option \<Rightarrow> Params \<Rightarrow> DeploymentPos \<Rightarrow> VersionBitsCache
    \<Rightarrow> (ThresholdState \<times> VersionBitsCache) option" where
  "VersionBitsState st pindexPrev params pos caches =
     map_option (\<lambda>(state, cache). (state, caches(pos := cache)))
       (GetStateFor st (VersionBitsConditionChecker pos params) pindexPrev (caches pos))"

definition VersionBitsStatistics :: "block_store \<Rightarrow> blockptr option \<Rightarrow> Params \<Rightarrow> DeploymentPos \<Rightarrow> BIP9Stats option" where
  "VersionBitsStatistics st pindexPrev params pos =
     GetStateStatisticsFor st (VersionBitsConditionChecker pos params) pindexPrev"

definition VersionBitsStateSinceHeight :: "block_store \<Rightarrow> blockptr option \<Rightarrow> Params \<Rightarrow> DeploymentPos \<Rightarrow>
    VersionBitsCache \<Rightarrow> (int \<times> VersionBitsCache) option" where
  "VersionBitsStateSinceHeight st pindexPrev params pos caches =
     map_option (\<lambda>(h, cache). (h, caches(pos := cache)))
       (GetStateSinceHeightFor st (VersionBitsConditionChecker pos params) pindexPrev (caches pos))"

definition VersionBitsCache_Clear :: "VersionBitsCache" where
  "VersionBitsCache_Clear = (\<lambda>_. Map.empty)"

subsection \<open>Activation tests\<close>

text \<open>The latches of \<^verbatim>\<open>src/src/consensus/consensus.h\<close> that the tests set; \<open>tip\<close> is the threshold state
  that \<open>VersionBitsTipState\<close> reports for the deployment.\<close>

record activation =
  fAssetsIsActive :: bool
  fRip5IsActive :: bool
  fTransferScriptIsActive :: bool
  fEnforcedValuesIsActive :: bool
  fCheckCoinbaseAssetsIsActive :: bool

definition AreEnforcedValuesDeployed :: "ThresholdState \<Rightarrow> activation \<Rightarrow> activation \<times> bool" where
  "AreEnforcedValuesDeployed tip a =
     (if fEnforcedValuesIsActive a then (a, True)
      else let a' = (if tip = THRESHOLD_ACTIVE \<or> tip = THRESHOLD_LOCKED_IN
                     then a\<lparr>fEnforcedValuesIsActive := True\<rparr> else a)
           in (a', fEnforcedValuesIsActive a'))"

definition AreCoinbaseCheckAssetsDeployed :: "ThresholdState \<Rightarrow> activation \<Rightarrow> activation \<times> bool" where
  "AreCoinbaseCheckAssetsDeployed tip a =
     (if fCheckCoinbaseAssetsIsActive a then (a, True)
      else let a' = (if tip = THRESHOLD_ACTIVE then a\<lparr>fCheckCoinbaseAssetsIsActive := True\<rparr> else a)
           in (a', fCheckCoinbaseAssetsIsActive a'))"

definition AreAssetsDeployed :: "bool \<Rightarrow> ThresholdState \<Rightarrow> activation \<Rightarrow> activation \<times> bool" where
  "AreAssetsDeployed testnet tip a =
     (if fAssetsIsActive a then (a, True)
      else let a' = (if tip = THRESHOLD_ACTIVE then a\<lparr>fAssetsIsActive := True\<rparr> else a)
           in if \<not> fAssetsIsActive a' \<and> testnet \<and> tip = THRESHOLD_LOCKED_IN then (a', True)
              else (a', fAssetsIsActive a'))"

definition IsRip5Active :: "ThresholdState \<Rightarrow> activation \<Rightarrow> activation \<times> bool" where
  "IsRip5Active tip a =
     (if fRip5IsActive a then (a, True)
      else let a' = (if tip = THRESHOLD_ACTIVE then a\<lparr>fRip5IsActive := True\<rparr> else a)
           in (a', fRip5IsActive a'))"

definition AreTransferScriptsSizeDeployed :: "ThresholdState \<Rightarrow> activation \<Rightarrow> activation \<times> bool" where
  "AreTransferScriptsSizeDeployed tip a =
     (if fTransferScriptIsActive a then (a, True)
      else let a' = (if tip = THRESHOLD_ACTIVE then a\<lparr>fTransferScriptIsActive := True\<rparr> else a)
           in (a', fTransferScriptIsActive a'))"

text \<open>\<open>IsMessagingActive\<close> and \<open>IsRestrictedActive\<close>: by height where the network sets one, else by the
  deployment.\<close>

definition IsMessagingActive :: "u32 \<Rightarrow> u32 \<Rightarrow> ThresholdState \<Rightarrow> activation \<Rightarrow> activation \<times> bool" where
  "IsMessagingActive MessagingActivationBlock nBlockNumber tip a =
     (if MessagingActivationBlock \<noteq> 0 then (a, nBlockNumber > MessagingActivationBlock) else IsRip5Active tip a)"

definition IsRestrictedActive :: "u32 \<Rightarrow> u32 \<Rightarrow> ThresholdState \<Rightarrow> activation \<Rightarrow> activation \<times> bool" where
  "IsRestrictedActive RestrictedActivationBlock nBlockNumber tip a =
     (if RestrictedActivationBlock \<noteq> 0 then (a, nBlockNumber > RestrictedActivationBlock) else IsRip5Active tip a)"

subsection \<open>The reference state machine\<close>

text \<open>The state after the block at \<open>p\<close>, the last of a period, from the state before that period.\<close>

definition next_spec :: "block_store \<Rightarrow> checker \<Rightarrow> blockptr \<Rightarrow> ThresholdState \<Rightarrow> ThresholdState" where
  "next_spec st c p state =
     (case state of
        THRESHOLD_DEFINED \<Rightarrow>
          if GetMedianTimePast st p \<ge> EndTime c then THRESHOLD_FAILED
          else if GetMedianTimePast st p \<ge> BeginTime c then THRESHOLD_STARTED else THRESHOLD_DEFINED
      | THRESHOLD_STARTED \<Rightarrow>
          if GetMedianTimePast st p \<ge> EndTime c then THRESHOLD_FAILED
          else if int (length (filter (Condition c) (branch st (nat (Period c)) (Some p)))) \<ge> Threshold c
          then THRESHOLD_LOCKED_IN else THRESHOLD_STARTED
      | THRESHOLD_LOCKED_IN \<Rightarrow> THRESHOLD_ACTIVE
      | THRESHOLD_FAILED \<Rightarrow> THRESHOLD_FAILED
      | THRESHOLD_ACTIVE \<Rightarrow> THRESHOLD_ACTIVE)"

fun bip9 :: "block_store \<Rightarrow> checker \<Rightarrow> nat \<Rightarrow> blockptr option \<Rightarrow> ThresholdState" where
  "bip9 st c 0 p = THRESHOLD_DEFINED"
| "bip9 st c (Suc k) None = THRESHOLD_DEFINED"
| "bip9 st c (Suc k) (Some p) = next_spec st c p (bip9 st c k (anc st (nat (Period c)) p))"

text \<open>\<open>boundary st c k p\<close>: \<open>p\<close> is the last block of the \<open>k\<close>-th period, \<open>nullptr\<close> for \<open>k = 0\<close>.\<close>

definition boundary :: "block_store \<Rightarrow> checker \<Rightarrow> nat \<Rightarrow> blockptr option \<Rightarrow> bool" where
  "boundary st c k p =
     (case p of None \<Rightarrow> k = 0 | Some q \<Rightarrow> \<exists>b. st q = Some b \<and> nHeight b + 1 = int k * Period c)"

definition cache_ok :: "block_store \<Rightarrow> checker \<Rightarrow> ThresholdConditionCache \<Rightarrow> bool" where
  "cache_ok st c cache = (\<forall>p s. cache p = Some s \<longrightarrow> (\<exists>k. boundary st c k p \<and> s = bip9 st c k p))"

definition checker_ok :: "checker \<Rightarrow> bool" where
  "checker_ok c = (0 < Period c \<and> BeginTime c \<le> EndTime c)"

lemma boundary_unique:
  assumes "boundary st c k p" "boundary st c k' p" "0 < Period c"
  shows "k = k'"
  using assms by (auto simp: boundary_def split: option.splits)

lemma cache_okD:
  assumes "cache_ok st c cache" "cache p = Some s" "boundary st c k p" "0 < Period c"
  shows "s = bip9 st c k p"
  using assms boundary_unique unfolding cache_ok_def by metis

lemma cache_ok_upd:
  assumes "cache_ok st c cache" "boundary st c k p" "s = bip9 st c k p"
  shows "cache_ok st c (cache(p \<mapsto> s))"
  using assms unfolding cache_ok_def by (metis fun_upd_apply option.inject)

lemma count_condition_branch:
  assumes "wf_store st" "st p = Some b" "int n \<le> nHeight b + 1"
  shows "count_condition st c n (Some p) = Some (int (length (filter (Condition c) (branch st n (Some p)))))"
  using assms(2,3)
proof (induction n arbitrary: p b)
  case (Suc n)
  show ?case
  proof (cases n)
    case 0
    then show ?thesis using Suc.prems by simp
  next
    case (Suc m)
    with Suc.prems have "0 < nHeight b" by simp
    then obtain q d where q: "pprev b = Some q" "st q = Some d" "nHeight b = nHeight d + 1"
      using wf_store_parent[OF assms(1) Suc.prems(1)] by blast
    from Suc.IH[OF q(2)] Suc.prems q show ?thesis by simp
  qed
qed simp

lemma stateNext_spec:
  assumes "wf_store st" "boundary st c (Suc k) (Some p)" "0 < Period c"
  shows "stateNext st c s p = Some (next_spec st c p s)"
proof -
  obtain b where b: "st p = Some b" "nHeight b + 1 = int (Suc k) * Period c"
    using assms(2) by (auto simp: boundary_def)
  then have "int (nat (Period c)) \<le> nHeight b + 1" using assms(3) by (simp add: distrib_right)
  from count_condition_branch[OF assms(1) b(1) this] show ?thesis
    by (simp add: stateNext_def next_spec_def split: ThresholdState.splits)
qed

lemma boundary_step:
  assumes "wf_store st" "boundary st c (Suc k) (Some p)" "0 < Period c" "st p = Some b"
  shows "GetAncestor st p (nHeight b - Period c) = Some (anc st (nat (Period c)) p)"
    and "boundary st c k (anc st (nat (Period c)) p)"
proof -
  have h: "nHeight b + 1 = int (Suc k) * Period c" using assms(2,4) by (simp add: boundary_def)
  have up: "anc st (Suc (nat (nHeight b))) p = None"
    using anc_beyond[OF assms(1,4)] .
  show "GetAncestor st p (nHeight b - Period c) = Some (anc st (nat (Period c)) p)"
  proof (cases "Period c \<le> nHeight b")
    case True
    then show ?thesis using assms(3) GetAncestor_anc[OF assms(1,4), of "nHeight b - Period c"] by simp
  next
    case False
    have "2 * Period c \<le> int (Suc k) * Period c" if "k \<noteq> 0" using that assms(3) by (intro mult_right_mono) auto
    then have "k = 0" using h assms(3) False by linarith
    then have "nat (Period c) = Suc (nat (nHeight b))" using h wf_storeD(1)[OF assms(1,4)] by auto
    then show ?thesis using False up by (simp add: GetAncestor_def assms(4))
  qed
  show "boundary st c k (anc st (nat (Period c)) p)"
  proof (cases k)
    case 0
    then have "nat (Period c) = Suc (nat (nHeight b))" using h wf_storeD(1)[OF assms(1,4)] by auto
    then show ?thesis using up 0 by (simp add: boundary_def)
  next
    case (Suc m)
    have "0 \<le> int m * Period c" using assms(3) by simp
    moreover have "nHeight b + 1 = 2 * Period c + int m * Period c" using h Suc by (simp add: distrib_right)
    ultimately have "Period c \<le> nHeight b" using assms(3) by linarith
    then have "int (nat (Period c)) \<le> nHeight b" using assms(3) by simp
    from anc_ancestor[OF assms(1,4) this] h Suc assms(3) show ?thesis
      by (auto simp: boundary_def distrib_right)
  qed
qed

text \<open>Before the start time every period is in the initial state.\<close>

lemma bip9_early:
  assumes wf: "wf_store st" and inc: "times_increase st" and ok: "checker_ok c"
    and "boundary st c k (Some p)" "GetMedianTimePast st p < BeginTime c"
  shows "bip9 st c k (Some p) = THRESHOLD_DEFINED"
  using assms(4,5)
proof (induction k arbitrary: p)
  case (Suc k)
  have P: "0 < Period c" using ok by (simp add: checker_ok_def)
  obtain b where b: "st p = Some b" using Suc.prems(1) by (auto simp: boundary_def)
  note step = boundary_step(2)[OF wf Suc.prems(1) P b]
  have "bip9 st c k (anc st (nat (Period c)) p) = THRESHOLD_DEFINED"
  proof (cases "anc st (nat (Period c)) p")
    case None
    then show ?thesis by (cases k) simp_all
  next
    case (Some q)
    have "GetMedianTimePast st q < BeginTime c"
      using GetMedianTimePast_mono[OF wf inc b Some] Suc.prems(2) by simp
    with Suc.IH[of q] step Some show ?thesis by simp
  qed
  then show ?case using Suc.prems(2) ok by (simp add: next_spec_def checker_ok_def)
qed simp

subsection \<open>The cached computation agrees with the reference\<close>

definition resume :: "block_store \<Rightarrow> checker \<Rightarrow> (blockptr option \<times> blockptr list \<times> ThresholdConditionCache) option
    \<Rightarrow> (ThresholdState \<times> ThresholdConditionCache) option" where
  "resume st c w = Option.bind w (\<lambda>(known, v, cache).
     Option.bind (cache known) (\<lambda>s. walk_forward st c s v cache))"

lemma walk_back_resume:
  assumes wf: "wf_store st" and inc: "times_increase st" and ok: "checker_ok c"
    and "boundary st c k p" "cache_ok st c cache"
  shows "\<exists>cache'. resume st c (walk_back st c p v cache) = walk_forward st c (bip9 st c k p) v cache' \<and>
    cache_ok st c cache'"
  using assms(4,5)
proof (induction k arbitrary: p v)
  case 0
  have P: "0 < Period c" using ok by (simp add: checker_ok_def)
  have "p = None"
  proof (cases p)
    case (Some q)
    with 0 obtain b where "st q = Some b" "nHeight b + 1 = 0" by (auto simp: boundary_def)
    with wf_storeD(1)[OF wf, of q b] show ?thesis by simp
  qed
  show ?case
  proof (cases "cache None")
    case None
    then show ?thesis using 0 \<open>p = None\<close>
      by (subst walk_back.simps) (auto simp: resume_def intro!: exI[of _ "cache(None \<mapsto> THRESHOLD_DEFINED)"] cache_ok_upd)
  next
    case (Some s)
    then have "s = THRESHOLD_DEFINED" using cache_okD[OF 0(2) Some _ P] 0(1) \<open>p = None\<close> by auto
    with Some 0 \<open>p = None\<close> show ?thesis by (subst walk_back.simps) (auto simp: resume_def)
  qed
next
  case (Suc k)
  have P: "0 < Period c" using ok by (simp add: checker_ok_def)
  obtain q where q: "p = Some q" using Suc.prems(1) by (cases p) (auto simp: boundary_def)
  obtain b where b: "st q = Some b" using Suc.prems(1) q by (auto simp: boundary_def)
  have bd: "boundary st c (Suc k) (Some q)" using Suc.prems(1) q by simp
  show ?case
  proof (cases "cache p")
    case (Some s)
    then have "s = bip9 st c (Suc k) p" using cache_okD[OF Suc.prems(2) Some Suc.prems(1) P] by simp
    with Some Suc.prems(2) show ?thesis by (subst walk_back.simps) (auto simp: resume_def)
  next
    case None
    show ?thesis
    proof (cases "GetMedianTimePast st q < BeginTime c")
      case True
      then have d: "THRESHOLD_DEFINED = bip9 st c (Suc k) p" using bip9_early[OF wf inc ok bd] q by simp
      have "walk_back st c p v cache = Some (p, v, cache(p \<mapsto> THRESHOLD_DEFINED))"
        using None q True by (subst walk_back.simps) simp
      then show ?thesis
        using cache_ok_upd[OF Suc.prems(2,1) d] d by (auto simp: resume_def)
    next
      case False
      let ?a = "anc st (nat (Period c)) q"
      have "walk_back st c p v cache = walk_back st c ?a (q # v) cache"
        using None q False b boundary_step(1)[OF wf bd P b] by (subst walk_back.simps) simp
      moreover obtain cache' where c': "resume st c (walk_back st c ?a (q # v) cache) =
          walk_forward st c (bip9 st c k ?a) (q # v) cache'" "cache_ok st c cache'"
        using Suc.IH[OF boundary_step(2)[OF wf bd P b] Suc.prems(2)] by blast
      moreover have "stateNext st c (bip9 st c k ?a) q = Some (bip9 st c (Suc k) p)"
        using stateNext_spec[OF wf bd P] q by simp
      ultimately show ?thesis
        using cache_ok_upd[OF c'(2) Suc.prems(1) refl] q by auto
    qed
  qed
qed

lemma period_parent_spec:
  assumes wf: "wf_store st" and P: "0 < Period c" and b: "st p = Some b"
  defines "k \<equiv> nat ((nHeight b + 1) div Period c)" and "j \<equiv> nat ((nHeight b + 1) mod Period c)"
  shows "period_parent st c p = Some (anc st j p)" "boundary st c k (anc st j p)"
proof -
  have b0: "0 \<le> nHeight b" by (rule wf_storeD(1)[OF wf b])
  have j: "int j = (nHeight b + 1) mod Period c" using P by (simp add: j_def)
  have k: "int k = (nHeight b + 1) div Period c" using P b0 by (simp add: k_def pos_imp_zdiv_nonneg_iff)
  have split: "nHeight b + 1 = int k * Period c + int j" unfolding j k by simp
  have h: "nHeight b - ((nHeight b + 1) smod Period c) = nHeight b - int j" using P b0 j by (simp add: smod_nonneg)
  have jle: "int j \<le> nHeight b + 1" using b0 P j by (simp add: zmod_le_nonneg_dividend)
  show pp: "period_parent st c p = Some (anc st j p)"
  proof (cases "int j \<le> nHeight b")
    case True
    then show ?thesis using GetAncestor_anc[OF wf b, of "nHeight b - int j"] by (simp add: period_parent_def b h)
  next
    case False
    then have "j = Suc (nat (nHeight b))" "nHeight b - int j < 0" using jle b0 by linarith+
    then show ?thesis using anc_beyond[OF wf b] unfolding period_parent_def b Option.bind.simps h
      by (simp add: GetAncestor_def b)
  qed
  show "boundary st c k (anc st j p)"
  proof (cases "int j \<le> nHeight b")
    case True
    from anc_ancestor[OF wf b True] split show ?thesis by (auto simp: boundary_def)
  next
    case False
    then have "j = Suc (nat (nHeight b))" "int k * Period c = 0" using jle b0 split by linarith+
    then show ?thesis using anc_beyond[OF wf b] P by (simp add: boundary_def)
  qed
qed

lemma GetStateFor_spec:
  assumes wf: "wf_store st" and inc: "times_increase st" and ok: "checker_ok c" and cache: "cache_ok st c cache"
    and b: "st p = Some b"
  shows "\<exists>cache'. GetStateFor st c (Some p) cache =
      Some (bip9 st c (nat ((nHeight b + 1) div Period c)) (anc st (nat ((nHeight b + 1) mod Period c)) p), cache') \<and>
    cache_ok st c cache'"
proof -
  have P: "0 < Period c" using ok by (simp add: checker_ok_def)
  note pp = period_parent_spec[OF wf P b]
  have "GetStateFor st c (Some p) cache =
      resume st c (walk_back st c (anc st (nat ((nHeight b + 1) mod Period c)) p) [] cache)"
    unfolding GetStateFor_def resume_def option.case pp(1)
    by (auto split: option.splits prod.splits bind_splits)
  with walk_back_resume[OF wf inc ok pp(2) cache, of "[]"] show ?thesis by simp
qed

lemma GetStateFor_genesis:
  assumes wf: "wf_store st" and inc: "times_increase st" and ok: "checker_ok c" and cache: "cache_ok st c cache"
  shows "\<exists>cache'. GetStateFor st c None cache = Some (THRESHOLD_DEFINED, cache') \<and> cache_ok st c cache'"
proof -
  have "boundary st c 0 None" by (simp add: boundary_def)
  moreover have "GetStateFor st c None cache = resume st c (walk_back st c None [] cache)"
    unfolding GetStateFor_def resume_def option.case
    by (auto split: option.splits prod.splits bind_splits)
  ultimately show ?thesis using walk_back_resume[OF wf inc ok _ cache, of 0 None "[]"] by simp
qed

lemma cache_ok_empty: "cache_ok st c Map.empty"
  by (simp add: cache_ok_def)
subsection \<open>Properties\<close>

definition sample_checker :: checker where
  "sample_checker = \<lparr>Condition = (\<lambda>b. nVersion b = 4), BeginTime = 0, EndTime = 1000, Period = 1, Threshold = 1\<rparr>"

lemma sample_checker_ok: "checker_ok sample_checker"
  by (simp add: checker_ok_def sample_checker_def)

text \<open>
  C10. Starting from any coherent cache, \<open>GetStateFor\<close> returns without crashing, on every block of an index
  whose blocks are later than their parents' median time, the state that the BIP9 rules give when they
  are run period by period from the genesis block, and it leaves the cache coherent: neither the cache nor
  the shortcut for blocks before the start time changes a result.
\<close>

theorem GetStateFor_bip9:
  assumes "index_reachable GetHash s" "times_increase (blocks s)" "checker_ok c" "cache_ok (blocks s) c cache"
    and "blocks s p = Some b"
  shows "\<exists>cache'. GetStateFor (blocks s) c (Some p) cache =
      Some (bip9 (blocks s) c (nat ((nHeight b + 1) div Period c))
              (anc (blocks s) (nat ((nHeight b + 1) mod Period c)) p), cache') \<and>
    cache_ok (blocks s) c cache'"
  by (rule GetStateFor_spec[OF index_invD(1)[OF index_reachable_inv[OF assms(1)]] assms(2-5)])

theorem GetStateFor_bip9_witness:
  "\<exists>cache'. GetStateFor (blocks sample_index2) sample_checker (Some 1) Map.empty =
      Some (THRESHOLD_LOCKED_IN, cache')"
proof -
  have mtp: "GetMedianTimePast (blocks sample_index2) p = (if p = 0 then 100 else 160)" if "p < 2" for p
  proof -
    have 0: "past_times (blocks sample_index2) (Suc n) (Some 0) = [100]" for n
      by (simp add: past_times_None sample_block_def GetBlockTime_def)
    have "past_times (blocks sample_index2) (Suc (Suc n)) (Some 1) = [160, 100]" for n
      by (simp add: past_times_None sample_block_def GetBlockTime_def)
    from this[of 9] 0[of 10] show ?thesis
      using that by (auto simp: GetMedianTimePast_def nMedianTimeSpan_def less_Suc_eq numeral_2_eq_2)
  qed
  have "bip9 (blocks sample_index2) sample_checker 2 (Some 1) = THRESHOLD_LOCKED_IN"
    by (simp add: numeral_2_eq_2 next_spec_def mtp sample_checker_def sample_block_def)
  then show ?thesis
    using GetStateFor_bip9[OF sample_index2_reachable sample_times_increase sample_checker_ok cache_ok_empty
        sample_index2_blocks(2)]
    by (auto simp: sample_checker_def sample_block_def)
qed

text \<open>
  C36. From one period to the next a deployment only follows the BIP9 transitions: \<open>ACTIVE\<close> and
  \<open>FAILED\<close> are final, \<open>LOCKED_IN\<close> lasts exactly one period and always becomes \<open>ACTIVE\<close>, a started
  deployment stays, locks in or fails, and a defined one stays, starts or fails.
\<close>

theorem GetStateFor_transitions:
  assumes "index_reachable GetHash s" "times_increase (blocks s)" "checker_ok c"
    and "blocks s p = Some b" "anc (blocks s) (nat (Period c)) p = Some q"
    and "GetStateFor (blocks s) c (Some q) Map.empty = Some (x, c1)"
    and "GetStateFor (blocks s) c (Some p) Map.empty = Some (y, c2)"
  shows "case x of
      THRESHOLD_DEFINED \<Rightarrow> y \<in> {THRESHOLD_DEFINED, THRESHOLD_STARTED, THRESHOLD_FAILED}
    | THRESHOLD_STARTED \<Rightarrow> y \<in> {THRESHOLD_STARTED, THRESHOLD_LOCKED_IN, THRESHOLD_FAILED}
    | THRESHOLD_LOCKED_IN \<Rightarrow> y = THRESHOLD_ACTIVE
    | THRESHOLD_ACTIVE \<Rightarrow> y = THRESHOLD_ACTIVE
    | THRESHOLD_FAILED \<Rightarrow> y = THRESHOLD_FAILED"
proof -
  note wf = index_invD(1)[OF index_reachable_inv[OF assms(1)]]
  have P: "0 < Period c" using assms(3) by (simp add: checker_ok_def)
  have "int (nat (Period c)) \<le> nHeight b"
  proof (rule ccontr)
    assume "\<not> int (nat (Period c)) \<le> nHeight b"
    then have "nat (Period c) = Suc (nat (nHeight b)) + (nat (Period c) - Suc (nat (nHeight b)))"
      using wf_storeD(1)[OF wf assms(4)] P by linarith
    then have "anc (blocks s) (nat (Period c)) p = None"
      using anc_add[of "blocks s" "Suc (nat (nHeight b))" _ p] anc_beyond[OF wf assms(4)] by (metis Option.bind.simps(1))
    with assms(5) show False by simp
  qed
  from anc_ancestor[OF wf assms(4) this] assms(5) P obtain d where
    d: "blocks s q = Some d" "nHeight d = nHeight b - Period c" by auto
  define k where "k = nat ((nHeight d + 1) div Period c)"
  define j where "j = nat ((nHeight b + 1) mod Period c)"
  have b1: "nHeight b + 1 = (nHeight d + 1) + Period c" using d(2) by simp
  have "(nHeight b + 1) div Period c = (nHeight d + 1) div Period c + 1" 
    unfolding b1 using P div_add_self2[of "Period c" "nHeight d + 1"] by simp
  moreover have "0 \<le> (nHeight d + 1) div Period c"
    using P wf_storeD(1)[OF wf d(1)] by (simp add: pos_imp_zdiv_nonneg_iff)
  ultimately have k: "nat ((nHeight b + 1) div Period c) = Suc k" by (simp add: k_def)
  have j: "nat ((nHeight d + 1) mod Period c) = j" unfolding j_def b1 by simp
  have swap: "Option.bind (anc (blocks s) j p) (anc (blocks s) (nat (Period c))) = anc (blocks s) j q"
    using anc_add[of "blocks s" j "nat (Period c)" p] anc_add[of "blocks s" "nat (Period c)" j p] assms(5)
    by (simp add: add.commute)
  have x: "x = bip9 (blocks s) c k (anc (blocks s) j q)"
    using GetStateFor_spec[OF wf assms(2,3) cache_ok_empty d(1)] assms(6) by (auto simp: k_def j)
  have y: "y = bip9 (blocks s) c (Suc k) (anc (blocks s) j p)"
    using GetStateFor_spec[OF wf assms(2,3) cache_ok_empty assms(4)] assms(7) by (auto simp: k j_def)
  show ?thesis
  proof (cases "anc (blocks s) j p")
    case None
    then have "anc (blocks s) j q = None" using swap by simp
    then have "x = THRESHOLD_DEFINED" unfolding x by (cases k) simp_all
    then show ?thesis using y None by simp
  next
    case (Some r)
    then have "y = next_spec (blocks s) c r x" using y x swap by simp
    then show ?thesis by (simp add: next_spec_def split: ThresholdState.splits)
  qed
qed

theorem GetStateFor_transitions_witness:
  "\<exists>x y c1 c2. GetStateFor (blocks sample_index2) sample_checker (Some 0) Map.empty = Some (x, c1) \<and>
     GetStateFor (blocks sample_index2) sample_checker (Some 1) Map.empty = Some (y, c2) \<and>
     (case x of
        THRESHOLD_DEFINED \<Rightarrow> y \<in> {THRESHOLD_DEFINED, THRESHOLD_STARTED, THRESHOLD_FAILED}
      | THRESHOLD_STARTED \<Rightarrow> y \<in> {THRESHOLD_STARTED, THRESHOLD_LOCKED_IN, THRESHOLD_FAILED}
      | THRESHOLD_LOCKED_IN \<Rightarrow> y = THRESHOLD_ACTIVE
      | THRESHOLD_ACTIVE \<Rightarrow> y = THRESHOLD_ACTIVE
      | THRESHOLD_FAILED \<Rightarrow> y = THRESHOLD_FAILED)"
proof -
  note wf = index_invD(1)[OF index_reachable_inv[OF sample_index2_reachable]]
  obtain x c1 where x: "GetStateFor (blocks sample_index2) sample_checker (Some 0) Map.empty = Some (x, c1)"
    using GetStateFor_spec[OF wf sample_times_increase sample_checker_ok cache_ok_empty sample_index2_blocks(1)] by blast
  obtain y c2 where y: "GetStateFor (blocks sample_index2) sample_checker (Some 1) Map.empty = Some (y, c2)"
    using GetStateFor_spec[OF wf sample_times_increase sample_checker_ok cache_ok_empty sample_index2_blocks(2)] by blast
  have "anc (blocks sample_index2) (nat (Period sample_checker)) 1 = Some 0"
    by (simp add: sample_checker_def sample_block_def)
  from GetStateFor_transitions[OF sample_index2_reachable sample_times_increase sample_checker_ok
      sample_index2_blocks(2) this x y] x y
  show ?thesis by blast
qed

text \<open>In the first period of a chain, \<open>GetStateStatisticsFor\<close> dereferences a null pointer: there is no
  block at the end of the previous period, yet its height is read without a test.
\<close>

lemma GetStateStatisticsFor_first_period:
  assumes "index_reachable GetHash s" "0 < Period c" "blocks s p = Some b" "nHeight b + 1 < Period c"
  shows "GetStateStatisticsFor (blocks s) c (Some p) = None"
proof -
  note wf = index_invD(1)[OF index_reachable_inv[OF assms(1)]]
  have "(nHeight b + 1) mod Period c = nHeight b + 1" using wf_storeD(1)[OF wf assms(3)] assms(4) by simp
  then have "nat ((nHeight b + 1) mod Period c) = Suc (nat (nHeight b))" using wf_storeD(1)[OF wf assms(3)] by simp
  with period_parent_spec(1)[OF wf assms(2,3)] anc_beyond[OF wf assms(3)]
  have "period_parent (blocks s) c p = Some None" by (simp del: anc.simps)
  with assms(3) show ?thesis by (simp add: GetStateStatisticsFor_def Let_def)
qed

lemma GetStateStatisticsFor_first_period_witness:
  "GetStateStatisticsFor (blocks sample_index2) (sample_checker\<lparr>Period := 144\<rparr>) (Some 1) = None"
  by (rule GetStateStatisticsFor_first_period[OF sample_index2_reachable _ sample_index2_blocks(2)])
    (simp_all add: sample_block_def)
text \<open>The activation tests are latches: once a test has answered yes (on the main network, for the asset
  test), it answers yes for ever after, whatever threshold state a later tip has; in particular a
  reorganisation to a branch where the deployment is not active does not deactivate it. On the test network
  the asset test also answers yes while the deployment is merely locked in, and that answer is not latched.
\<close>

lemma activation_latches:
  "(snd (AreAssetsDeployed False t a) \<longrightarrow> snd (AreAssetsDeployed n t' (fst (AreAssetsDeployed False t a)))) \<and>
   (snd (IsRip5Active t a) \<longrightarrow> snd (IsRip5Active t' (fst (IsRip5Active t a)))) \<and>
   (snd (AreTransferScriptsSizeDeployed t a) \<longrightarrow>
      snd (AreTransferScriptsSizeDeployed t' (fst (AreTransferScriptsSizeDeployed t a)))) \<and>
   (snd (AreEnforcedValuesDeployed t a) \<longrightarrow>
      snd (AreEnforcedValuesDeployed t' (fst (AreEnforcedValuesDeployed t a)))) \<and>
   (snd (AreCoinbaseCheckAssetsDeployed t a) \<longrightarrow>
      snd (AreCoinbaseCheckAssetsDeployed t' (fst (AreCoinbaseCheckAssetsDeployed t a)))) \<and>
   (\<not> fAssetsIsActive a \<longrightarrow> AreAssetsDeployed True THRESHOLD_LOCKED_IN a = (a, True))"
  by (auto simp: AreAssetsDeployed_def IsRip5Active_def AreTransferScriptsSizeDeployed_def
      AreEnforcedValuesDeployed_def AreCoinbaseCheckAssetsDeployed_def Let_def)

lemma activation_latches_witness:
  "snd (AreAssetsDeployed False THRESHOLD_FAILED (fst (AreAssetsDeployed False THRESHOLD_ACTIVE
     \<lparr>fAssetsIsActive = False, fRip5IsActive = False, fTransferScriptIsActive = False,
      fEnforcedValuesIsActive = False, fCheckCoinbaseAssetsIsActive = False\<rparr>)))"
  using activation_latches[of THRESHOLD_ACTIVE "\<lparr>fAssetsIsActive = False, fRip5IsActive = False,
      fTransferScriptIsActive = False, fEnforcedValuesIsActive = False, fCheckCoinbaseAssetsIsActive = False\<rparr>"
      False THRESHOLD_FAILED]
  by (simp add: AreAssetsDeployed_def)

end
