(* ===== verification/Merkle.thy ===== *)
theory Merkle
  imports Prelude
begin

text \<open>
  Merkle roots and branches: \<^verbatim>\<open>src/src/consensus/merkle.cpp\<close>. \<open>H a b\<close> stands for
  \<open>CHash256().Write(a).Write(b)\<close>; every result holds for an arbitrary function. The counter is the 32-bit
  word of the code, \<open>inner\<close> its array of 32 hashes, and \<open>None\<close> is undefined behaviour (a shift by 32 bits
  and an access past the array). The branch output is \<open>None\<close> where the code passes a null pointer.

  The reference is the level-by-level tree: \<open>merkle_level\<close> pairs up neighbours and hashes a last odd node
  with itself.
\<close>

definition step_branch :: "uint256 list option \<Rightarrow> bool \<Rightarrow> int \<Rightarrow> nat \<Rightarrow> uint256 \<Rightarrow> uint256
    \<Rightarrow> uint256 list option \<times> bool" where
  "step_branch branch matchh matchlevel level sib h =
     (case branch of
        None \<Rightarrow> (None, matchh)
      | Some br \<Rightarrow>
          if matchh then (Some (br @ [sib]), True)
          else if matchlevel = int level then (Some (br @ [h]), True)
          else (Some br, False))"

function merkle_climb :: "(uint256 \<Rightarrow> uint256 \<Rightarrow> uint256) \<Rightarrow> uint256 list \<Rightarrow> u32 \<Rightarrow> int \<Rightarrow> nat \<Rightarrow> uint256 \<Rightarrow> bool
    \<Rightarrow> uint256 list option \<Rightarrow> bool \<Rightarrow> (nat \<times> uint256 \<times> bool \<times> uint256 list option \<times> bool) option" where
  "merkle_climb H inner count matchlevel level h matchh branch mutated =
     (if level \<ge> 32 then None
      else if count AND push_bit level 1 \<noteq> 0 then Some (level, h, matchh, branch, mutated)
      else
        let (branch', matchh') = step_branch branch matchh matchlevel level (inner ! level) h
        in merkle_climb H inner count matchlevel (Suc level) (H (inner ! level) h) matchh' branch'
             (mutated \<or> inner ! level = h))"
  by pat_completeness auto
termination
  by (relation "measure (\<lambda>(_, _, _, _, level, _). 32 - level)") auto

declare merkle_climb.simps [simp del]

fun merkle_leaves :: "(uint256 \<Rightarrow> uint256 \<Rightarrow> uint256) \<Rightarrow> u32 \<Rightarrow> uint256 list \<Rightarrow> u32 \<Rightarrow> uint256 list \<Rightarrow> int
    \<Rightarrow> uint256 list option \<Rightarrow> bool \<Rightarrow> (u32 \<times> uint256 list \<times> int \<times> uint256 list option \<times> bool) option" where
  "merkle_leaves H branchpos [] count inner matchlevel branch mutated =
     Some (count, inner, matchlevel, branch, mutated)"
| "merkle_leaves H branchpos (x # xs) count inner matchlevel branch mutated =
     (case merkle_climb H inner (count + 1) matchlevel 0 x (count = branchpos) branch mutated of
        None \<Rightarrow> None
      | Some (level, h, matchh, branch', mutated') \<Rightarrow>
          merkle_leaves H branchpos xs (count + 1) (inner[level := h])
            (if matchh then int level else matchlevel) branch' mutated')"

function lowest_level :: "u32 \<Rightarrow> nat \<Rightarrow> nat option" where
  "lowest_level count level =
     (if level \<ge> 32 then None
      else if count AND push_bit level 1 \<noteq> 0 then Some level
      else lowest_level count (Suc level))"
  by pat_completeness auto
termination
  by (relation "measure (\<lambda>(_, level). 32 - level)") auto

declare lowest_level.simps [simp del]

lemma merkle_climb_level:
  "merkle_climb H inner count ml level h mh br mu = Some (level', r) \<Longrightarrow> level \<le> level' \<and> level' < 32"
proof (induction H inner count ml level h mh br mu rule: merkle_climb.induct)
  case (1 H inner count ml level h mh br mu)
  show ?case
  proof (cases "level \<ge> 32 \<or> count AND push_bit level 1 \<noteq> 0")
    case True
    with "1.prems" show ?thesis by (auto simp: merkle_climb.simps[of H inner count ml level] split: if_splits)
  next
    case False
    obtain b m where bm: "step_branch br mh ml level (inner ! level) h = (b, m)" by force
    have "merkle_climb H inner count ml level h mh br mu =
        merkle_climb H inner count ml (Suc level) (H (inner ! level) h) m b (mu \<or> inner ! level = h)"
      using False bm by (simp add: merkle_climb.simps[of H inner count ml level])
    with "1.IH"[OF _ _ bm[symmetric] refl] False "1.prems" show ?thesis by auto
  qed
qed

text \<open>The sweep over the rightmost branch; its inner loop is the climb without the test for equal hashes.\<close>

function merkle_sweep :: "(uint256 \<Rightarrow> uint256 \<Rightarrow> uint256) \<Rightarrow> uint256 list \<Rightarrow> int \<Rightarrow> u32 \<Rightarrow> nat \<Rightarrow> uint256 \<Rightarrow> bool
    \<Rightarrow> uint256 list option \<Rightarrow> (uint256 \<times> uint256 list option) option" where
  "merkle_sweep H inner matchlevel count level h matchh branch =
     (if level \<ge> 32 then None
      else if count = push_bit level 1 then Some (h, branch)
      else
        let branch1 = (if matchh then map_option (\<lambda>br. br @ [h]) branch else branch)
        in case merkle_climb H inner (count + push_bit level 1) matchlevel (Suc level) (H h h) matchh branch1 False of
             None \<Rightarrow> None
           | Some (level', h', matchh', branch', _) \<Rightarrow>
               merkle_sweep H inner matchlevel (count + push_bit level 1) level' h' matchh' branch')"
  by pat_completeness auto
termination
  by (relation "measure (\<lambda>(_, _, _, _, level, _). 32 - level)") (auto dest: merkle_climb_level)

declare merkle_sweep.simps [simp del]

definition MerkleComputation :: "(uint256 \<Rightarrow> uint256 \<Rightarrow> uint256) \<Rightarrow> uint256 list \<Rightarrow> u32 \<Rightarrow> bool
    \<Rightarrow> (uint256 \<times> bool \<times> uint256 list option) option" where
  "MerkleComputation H leaves branchpos want_branch =
     (let branch = (if want_branch then Some [] else None)
      in if length leaves = 0 then Some (uint256_null, False, branch)
         else
           (case merkle_leaves H branchpos leaves 0 (replicate 32 uint256_null) (-1) branch False of
              None \<Rightarrow> None
            | Some (count, inner, matchlevel, branch1, mutated) \<Rightarrow>
                (case lowest_level count 0 of
                   None \<Rightarrow> None
                 | Some level \<Rightarrow>
                     map_option (\<lambda>(h, branch2). (h, mutated, branch2))
                       (merkle_sweep H inner matchlevel count level (inner ! level)
                          (matchlevel = int level) branch1))))"

definition ComputeMerkleRoot :: "(uint256 \<Rightarrow> uint256 \<Rightarrow> uint256) \<Rightarrow> uint256 list \<Rightarrow> (uint256 \<times> bool) option" where
  "ComputeMerkleRoot H leaves =
     map_option (\<lambda>(h, mutated, _). (h, mutated)) (MerkleComputation H leaves (-1) False)"

definition ComputeMerkleBranch :: "(uint256 \<Rightarrow> uint256 \<Rightarrow> uint256) \<Rightarrow> uint256 list \<Rightarrow> u32 \<Rightarrow> uint256 list option" where
  "ComputeMerkleBranch H leaves position =
     Option.bind (MerkleComputation H leaves position True) (\<lambda>(_, _, branch). branch)"

fun ComputeMerkleRootFromBranch :: "(uint256 \<Rightarrow> uint256 \<Rightarrow> uint256) \<Rightarrow> uint256 \<Rightarrow> uint256 list \<Rightarrow> u32 \<Rightarrow> uint256" where
  "ComputeMerkleRootFromBranch H hash [] nIndex = hash"
| "ComputeMerkleRootFromBranch H hash (b # branch) nIndex =
     ComputeMerkleRootFromBranch H (if nIndex AND 1 \<noteq> 0 then H b hash else H hash b) branch (drop_bit 1 nIndex)"

text \<open>Over the transactions of a block, given by their two hashes (\<open>GetHash\<close> and \<open>GetWitnessHash\<close>).\<close>

definition BlockMerkleRoot :: "(uint256 \<Rightarrow> uint256 \<Rightarrow> uint256) \<Rightarrow> ('tx \<Rightarrow> uint256) \<Rightarrow> 'tx list \<Rightarrow> (uint256 \<times> bool) option" where
  "BlockMerkleRoot H GetHash vtx = ComputeMerkleRoot H (map GetHash vtx)"

definition BlockWitnessMerkleRoot :: "(uint256 \<Rightarrow> uint256 \<Rightarrow> uint256) \<Rightarrow> ('tx \<Rightarrow> uint256) \<Rightarrow> 'tx list \<Rightarrow> (uint256 \<times> bool) option" where
  "BlockWitnessMerkleRoot H GetWitnessHash vtx =
     (case vtx of
        [] \<Rightarrow> None
      | _ # txs \<Rightarrow> ComputeMerkleRoot H (uint256_null # map GetWitnessHash txs))"

definition BlockMerkleBranch :: "(uint256 \<Rightarrow> uint256 \<Rightarrow> uint256) \<Rightarrow> ('tx \<Rightarrow> uint256) \<Rightarrow> 'tx list \<Rightarrow> u32 \<Rightarrow> uint256 list option" where
  "BlockMerkleBranch H GetHash vtx position = ComputeMerkleBranch H (map GetHash vtx) position"

subsection \<open>The reference tree\<close>

fun merkle_level :: "(uint256 \<Rightarrow> uint256 \<Rightarrow> uint256) \<Rightarrow> uint256 list \<Rightarrow> uint256 list" where
  "merkle_level H [] = []"
| "merkle_level H [x] = [H x x]"
| "merkle_level H (x # y # xs) = H x y # merkle_level H xs"

function merkle_root :: "(uint256 \<Rightarrow> uint256 \<Rightarrow> uint256) \<Rightarrow> uint256 list \<Rightarrow> uint256" where
  "merkle_root H xs =
     (if xs = [] then uint256_null else if length xs = 1 then xs ! 0 else merkle_root H (merkle_level H xs))"
  by pat_completeness auto

lemma length_merkle_level: "length (merkle_level H xs) = (length xs + 1) div 2"
  by (induction H xs rule: merkle_level.induct) auto

termination merkle_root
  by (relation "measure (\<lambda>(_, xs). length xs)") (auto simp: length_merkle_level neq_Nil_conv Suc_lessI)

declare merkle_root.simps [simp del]

lemma nth_merkle_level:
  "i < length (merkle_level H xs) \<Longrightarrow>
    merkle_level H xs ! i = H (xs ! (2 * i)) (if 2 * i + 1 < length xs then xs ! (2 * i + 1) else xs ! (2 * i))"
proof (induction H xs arbitrary: i rule: merkle_level.induct)
  case (3 H x y xs)
  then show ?case by (cases i) auto
qed auto

definition mlevel :: "(uint256 \<Rightarrow> uint256 \<Rightarrow> uint256) \<Rightarrow> uint256 list \<Rightarrow> nat \<Rightarrow> uint256 list" where
  "mlevel H xs l = (merkle_level H ^^ l) xs"

lemma mlevel_0 [simp]: "mlevel H xs 0 = xs"
  by (simp add: mlevel_def)

lemma mlevel_Suc: "mlevel H xs (Suc l) = merkle_level H (mlevel H xs l)"
  by (simp add: mlevel_def)

lemma length_mlevel: "length (mlevel H xs l) = (length xs + 2 ^ l - 1) div 2 ^ l"
proof (induction l)
  case (Suc l)
  have "((length xs + 2 ^ l - 1) div 2 ^ l + 1) div 2 = (length xs + 2 ^ l - 1 + 2 ^ l) div 2 ^ l div 2"
    by (subst div_add_self2) simp_all
  also have "\<dots> = (length xs + 2 ^ Suc l - 1) div 2 ^ Suc l"
  proof -
    have "length xs + 2 ^ l - 1 + 2 ^ l = length xs + 2 ^ Suc l - 1" by (simp add: Suc_le_eq)
    then show ?thesis unfolding div_mult2_eq[symmetric] by (simp add: mult.commute)
  qed
  finally show ?case by (simp add: mlevel_Suc length_merkle_level Suc)
qed simp

lemma merkle_root_mlevel:
  "length (mlevel H xs l) = 1 \<Longrightarrow> (\<And>k. k < l \<Longrightarrow> 1 < length (mlevel H xs k)) \<Longrightarrow>
    merkle_root H xs = mlevel H xs l ! 0"
proof (induction l arbitrary: xs)
  case 0
  then show ?case by (auto simp: merkle_root.simps)
next
  case (Suc l)
  have shift: "mlevel H xs (Suc k) = mlevel H (merkle_level H xs) k" for k
    by (simp add: mlevel_def funpow_swap1)
  have "1 < length xs" using Suc.prems(2)[of 0] by simp
  then have "merkle_root H xs = merkle_root H (merkle_level H xs)"
    by (subst merkle_root.simps) auto
  moreover have "1 < length (mlevel H (merkle_level H xs) k)" if "k < l" for k
    using Suc.prems(2)[of "Suc k"] that by (simp add: shift)
  ultimately show ?case using Suc.IH[of "merkle_level H xs"] Suc.prems(1) by (simp add: shift)
qed

subsection \<open>Bits of the counter\<close>

lemma bit_clear_iff:
  assumes "l < 32" "n < 2 ^ 32"
  shows "(of_nat n :: u32) AND push_bit l 1 = 0 \<longleftrightarrow> even (n div 2 ^ l)"
proof -
  have "(of_nat n :: u32) AND push_bit l 1 = 0 \<longleftrightarrow> \<not> bit (of_nat n :: u32) l"
    by (simp add: push_bit_of_1 and_exp_eq_0_iff_not_bit)
  also have "bit (of_nat n :: u32) l \<longleftrightarrow> odd (n div 2 ^ l)"
    using assms(1) by (simp add: bit_of_nat_iff possible_bit_def) (simp add: bit_iff_odd)
  finally show ?thesis by simp
qed

lemma div_pred_dvd:
  assumes "(2 :: nat) ^ l dvd c" "0 < c"
  shows "(c - 1) div 2 ^ l = c div 2 ^ l - 1"
proof -
  obtain q where q: "c = 2 ^ l * q" using assms(1) by (rule dvdE)
  then have "0 < q" using assms(2) by auto
  then have "c - 1 = 2 ^ l * (q - 1) + (2 ^ l - 1)" using q by (cases q) auto
  then have "(c - 1) div 2 ^ l = q - 1 + (2 ^ l - 1) div 2 ^ l"
    using div_mult_self4[of "2 ^ l" "q - 1" "2 ^ l - 1"] by simp
  also have "((2 :: nat) ^ l - 1) div 2 ^ l = 0" by (simp add: div_eq_0_iff)
  finally show ?thesis using q by simp
qed

lemma div_pred_odd:
  assumes "(2 :: nat) ^ l dvd c" "odd (c div 2 ^ l)" "l < k"
  shows "(c - 1) div 2 ^ k = c div 2 ^ k"
proof -
  have c: "0 < c" using assms(2) by (cases "c = 0") auto
  obtain m where m: "c div 2 ^ l = 2 * m + 1" using assms(2) by (rule oddE)
  have k: "(2 :: nat) ^ k = 2 ^ l * (2 * 2 ^ (k - l - 1))"
    using assms(3) by (simp flip: power_Suc power_add)
  have "(c - 1) div 2 ^ k = (c - 1) div 2 ^ l div 2 div 2 ^ (k - l - 1)" unfolding k div_mult2_eq ..
  also have "(c - 1) div 2 ^ l = 2 * m" using div_pred_dvd[OF assms(1) c] m by simp
  also have "2 * m div 2 = c div 2 ^ l div 2" using m by simp
  also have "c div 2 ^ l div 2 div 2 ^ (k - l - 1) = c div 2 ^ k" unfolding k div_mult2_eq ..
  finally show ?thesis .
qed

lemma div_mono_level:
  assumes "a div (2 :: nat) ^ l = b div 2 ^ l" "l \<le> k"
  shows "a div 2 ^ k = b div 2 ^ k"
proof -
  have "(2 :: nat) ^ k = 2 ^ l * 2 ^ (k - l)" using assms(2) by (simp flip: power_add)
  then show ?thesis using assms(1) by (simp add: div_mult2_eq)
qed

lemma div_Suc_level: "x div 2 ^ Suc l = x div 2 ^ l div (2 :: nat)"
  by (simp flip: div_mult2_eq add: mult.commute)
subsection \<open>The invariant of the computation\<close>

text \<open>After \<open>c\<close> leaves, \<open>inner\<close> holds at every set bit the last complete subtree of that level.\<close>

definition inner_inv :: "(uint256 \<Rightarrow> uint256 \<Rightarrow> uint256) \<Rightarrow> uint256 list \<Rightarrow> nat \<Rightarrow> uint256 list \<Rightarrow> bool" where
  "inner_inv H xs c inner =
     (length inner = 32 \<and> (\<forall>l<32. odd (c div 2 ^ l) \<longrightarrow> inner ! l = mlevel H xs l ! (c div 2 ^ l - 1)))"

text \<open>The siblings along the path from leaf \<open>pos\<close>, up to level \<open>l\<close>.\<close>

definition sibling :: "(uint256 \<Rightarrow> uint256 \<Rightarrow> uint256) \<Rightarrow> uint256 list \<Rightarrow> nat \<Rightarrow> nat \<Rightarrow> uint256" where
  "sibling H xs l i =
     mlevel H xs l ! (if odd i then i - 1 else if i + 1 < length (mlevel H xs l) then i + 1 else i)"

definition leaf_path :: "(uint256 \<Rightarrow> uint256 \<Rightarrow> uint256) \<Rightarrow> uint256 list \<Rightarrow> nat \<Rightarrow> nat \<Rightarrow> uint256 list" where
  "leaf_path H xs pos l = map (\<lambda>j. sibling H xs j (pos div 2 ^ j)) [0..<l]"

lemma leaf_path_0 [simp]: "leaf_path H xs pos 0 = []"
  by (simp add: leaf_path_def)

lemma leaf_path_Suc: "leaf_path H xs pos (Suc l) = leaf_path H xs pos l @ [sibling H xs l (pos div 2 ^ l)]"
  by (simp add: leaf_path_def)

definition match_inv :: "(uint256 \<Rightarrow> uint256 \<Rightarrow> uint256) \<Rightarrow> uint256 list \<Rightarrow> nat \<Rightarrow> nat \<Rightarrow> int \<Rightarrow> uint256 list \<Rightarrow> bool" where
  "match_inv H xs pos c ml bs =
     (if pos < c
      then \<exists>l<32. ml = int l \<and> odd (c div 2 ^ l) \<and> pos div 2 ^ l = c div 2 ^ l - 1 \<and> bs = leaf_path H xs pos l
      else ml = -1 \<and> bs = [])"

text \<open>The same while the climb for the next count \<open>c'\<close> is at \<open>level\<close>.\<close>

definition climb_inv :: "(uint256 \<Rightarrow> uint256 \<Rightarrow> uint256) \<Rightarrow> uint256 list \<Rightarrow> nat \<Rightarrow> nat \<Rightarrow> nat \<Rightarrow> int \<Rightarrow> nat \<Rightarrow> bool
    \<Rightarrow> uint256 list \<Rightarrow> bool" where
  "climb_inv H xs pos c c' ml level mh bs =
     (if mh then pos div 2 ^ level = c' div 2 ^ level - 1 \<and> bs = leaf_path H xs pos level
      else if pos < c
      then \<exists>l. level \<le> l \<and> l < 32 \<and> ml = int l \<and> odd (c div 2 ^ l) \<and> pos div 2 ^ l = c div 2 ^ l - 1 \<and>
               bs = leaf_path H xs pos l
      else c' \<le> pos \<and> ml = -1 \<and> bs = [])"

definition twins :: "(uint256 \<Rightarrow> uint256 \<Rightarrow> uint256) \<Rightarrow> uint256 list \<Rightarrow> nat \<Rightarrow> bool" where
  "twins H xs c = (\<exists>l i. (2 * i + 2) * 2 ^ l \<le> c \<and> mlevel H xs l ! (2 * i) = mlevel H xs l ! (2 * i + 1))"

definition climb_ok :: "nat \<Rightarrow> nat \<Rightarrow> nat \<Rightarrow> nat \<Rightarrow> bool" where
  "climb_ok n c c' l =
     (0 < c' \<and> c' < 2 ^ 32 \<and> c \<le> n \<and> (2 :: nat) ^ l dvd c' \<and> (c' - 1) div 2 ^ l = c div 2 ^ l \<and> c' < n + 2 ^ l)"

lemma climb_ok_even:
  assumes "climb_ok n c c' l" "even (c' div 2 ^ l)"
  shows "climb_ok n c c' (Suc l)" "odd (c div 2 ^ l)" "c div 2 ^ l = c' div 2 ^ l - 1" "2 \<le> c' div 2 ^ l"
    "c' div 2 ^ Suc l = c' div 2 ^ l div 2"
proof -
  obtain q where q: "c' = 2 ^ l * q" using assms(1) by (auto simp: climb_ok_def)
  have qd: "c' div 2 ^ l = q" using q by simp
  have c': "0 < c'" using assms(1) by (simp add: climb_ok_def)
  then have "0 < q" using q by auto
  with assms(2) qd have q2: "2 \<le> q" "even q" by (auto elim!: evenE)
  show "2 \<le> c' div 2 ^ l" using q2 qd by simp
  show cq: "c div 2 ^ l = c' div 2 ^ l - 1"
    using assms(1) div_pred_dvd[of l c'] c' by (simp add: climb_ok_def)
  then show "odd (c div 2 ^ l)" using q2 qd by simp
  show "c' div 2 ^ Suc l = c' div 2 ^ l div 2" by (rule div_Suc_level)
  have "(2 :: nat) ^ Suc l dvd c'" using q q2(2) by (auto simp: mult.commute elim!: evenE)
  moreover have "(c' - 1) div 2 ^ Suc l = c div 2 ^ Suc l"
    using assms(1) div_mono_level[of "c' - 1" l c "Suc l"] by (simp add: climb_ok_def)
  moreover have "c' < n + 2 ^ Suc l" using assms(1) by (simp add: climb_ok_def)
  ultimately show "climb_ok n c c' (Suc l)" using assms(1) by (simp add: climb_ok_def)
qed

lemma climb_ok_nodes:
  assumes "climb_ok (length xs) c c' l"
  shows "c' div 2 ^ l \<le> length (mlevel H xs l)"
proof -
  have "c' \<le> length xs + 2 ^ l - 1" using assms unfolding climb_ok_def by linarith
  then show ?thesis unfolding length_mlevel by (rule div_le_mono)
qed

lemma climb_ok_combine:
  assumes ok: "climb_ok (length xs) c c' l" and ev: "even (c' div 2 ^ l)"
  shows "H (mlevel H xs l ! (c' div 2 ^ l - 2)) (mlevel H xs l ! (c' div 2 ^ l - 1)) =
    mlevel H xs (Suc l) ! (c' div 2 ^ Suc l - 1)"
proof -
  note e = climb_ok_even[OF ok ev]
  obtain m where m: "c' div 2 ^ l = 2 * Suc m" using ev e(4) by (metis evenE mult_0_right not0_implies_Suc not_numeral_le_zero)
  have "2 * Suc m \<le> length (mlevel H xs l)" using climb_ok_nodes[OF ok] m by metis
  then have "m < length (merkle_level H (mlevel H xs l))" "2 * m + 1 < length (mlevel H xs l)"
    by (simp_all add: length_merkle_level)
  then show ?thesis
    using nth_merkle_level[of m H "mlevel H xs l"] m e(5) by (simp add: mlevel_Suc)
qed

lemma climb_inv_step:
  assumes ok: "climb_ok (length xs) c c' l" and ev: "even (c' div 2 ^ l)" and l: "l < 32"
    and inner: "inner_inv H xs c inner" and h: "h = mlevel H xs l ! (c' div 2 ^ l - 1)"
    and ci: "climb_inv H xs pos c c' ml l mh bs"
    and st: "step_branch (Some bs) mh ml l (inner ! l) h = (Some bs', mh')"
  shows "climb_inv H xs pos c c' ml (Suc l) mh' bs'"
proof -
  note e = climb_ok_even[OF ok ev]
  have il: "inner ! l = mlevel H xs l ! (c' div 2 ^ l - 2)"
    using inner l e(2,3) by (simp add: inner_inv_def numeral_2_eq_2)
  have posS: "pos div (2 * 2 ^ l) = pos div 2 ^ l div 2" using div_Suc_level[of pos l] by simp
  obtain m where m: "c' div 2 ^ l = 2 * Suc m" using ev e(4) by (metis evenE mult_0_right not0_implies_Suc not_numeral_le_zero)
  show ?thesis
  proof (cases mh)
    case True
    then have p: "pos div 2 ^ l = 2 * m + 1" "bs = leaf_path H xs pos l" using ci m by (simp_all add: climb_inv_def)
    have "mh'" "bs' = bs @ [inner ! l]" using st True by (simp_all add: step_branch_def)
    then show ?thesis
      using p m e(5) il by (simp add: climb_inv_def leaf_path_Suc sibling_def posS)
  next
    case False
    show ?thesis
    proof (cases "ml = int l")
      case True
      then have p: "pos div 2 ^ l = c div 2 ^ l - 1" "bs = leaf_path H xs pos l"
        using ci \<open>\<not> mh\<close> by (auto simp: climb_inv_def split: if_splits)
      have "mh'" "bs' = bs @ [h]" using st True \<open>\<not> mh\<close> by (simp_all add: step_branch_def)
      moreover have "pos div 2 ^ l = 2 * m" using p(1) e(3) m by simp
      moreover have "2 * m + 1 < length (mlevel H xs l)" using climb_ok_nodes[OF ok, of H] m by simp
      ultimately show ?thesis
        using p m e(5) h by (simp add: climb_inv_def leaf_path_Suc sibling_def posS)
    next
      case ml: False
      then have "mh' = False" "bs' = bs" using st \<open>\<not> mh\<close> by (simp_all add: step_branch_def)
      then show ?thesis
        using ci \<open>\<not> mh\<close> ml by (auto simp: climb_inv_def Suc_le_eq le_less split: if_splits)
    qed
  qed
qed

definition opt_inv :: "('a \<Rightarrow> bool) \<Rightarrow> 'a option \<Rightarrow> bool" where
  "opt_inv P x = (\<forall>y. x = Some y \<longrightarrow> P y)"

lemma merkle_climb_spec:
  assumes "climb_ok (length xs) c c' level" "inner_inv H xs c inner" "level < 32"
    and "h = mlevel H xs level ! (c' div 2 ^ level - 1)"
    and "opt_inv (climb_inv H xs pos c c' ml level mh) br"
  shows "\<exists>level' mh' br'. merkle_climb H inner (of_nat c') ml level h mh br mu =
      Some (level', mlevel H xs level' ! (c' div 2 ^ level' - 1), mh', br',
        mu \<or> (\<exists>l. level \<le> l \<and> l < level' \<and> mlevel H xs l ! (c' div 2 ^ l - 2) = mlevel H xs l ! (c' div 2 ^ l - 1))) \<and>
    level \<le> level' \<and> level' < 32 \<and> climb_ok (length xs) c c' level' \<and> odd (c' div 2 ^ level') \<and>
    (\<forall>l. level \<le> l \<longrightarrow> l < level' \<longrightarrow> even (c' div 2 ^ l)) \<and>
    opt_inv (climb_inv H xs pos c c' ml level' mh') br' \<and> (br' = None \<longleftrightarrow> br = None)"
  using assms
proof (induction "32 - level" arbitrary: level h mh br mu)
  case 0
  then show ?case by simp
next
  case (Suc d)
  have c': "c' < 2 ^ 32" using Suc.prems(1) by (simp add: climb_ok_def)
  note bit = bit_clear_iff[OF Suc.prems(3) c']
  note unf = merkle_climb.simps[of H inner "of_nat c'" ml level h mh br mu]
  show ?case
  proof (cases "even (c' div 2 ^ level)")
    case False
    then show ?thesis
      using Suc.prems bit unf by (intro exI[of _ level] exI[of _ mh] exI[of _ br]) auto
  next
    case True
    note e = climb_ok_even[OF Suc.prems(1) True]
    have "level \<noteq> 31"
    proof
      assume "level = 31"
      with e(4) have "2 * 2 ^ 31 \<le> c' div 2 ^ 31 * 2 ^ 31" by (intro mult_right_mono) simp_all
      also have "\<dots> \<le> c'" by (rule div_times_less_eq_dividend)
      finally show False using c' by simp
    qed
    then have l': "Suc level < 32" using Suc.prems(3) by simp
    have il: "inner ! level = mlevel H xs level ! (c' div 2 ^ level - 2)"
      using Suc.prems(2,3) e(2,3) by (simp add: inner_inv_def numeral_2_eq_2)
    have hn: "H (inner ! level) h = mlevel H xs (Suc level) ! (c' div 2 ^ Suc level - 1)"
      using climb_ok_combine[OF Suc.prems(1) True] il Suc.prems(4) by simp
    obtain b m where bm: "step_branch br mh ml level (inner ! level) h = (b, m)" by force
    have bn: "b = None \<longleftrightarrow> br = None" using bm by (auto simp: step_branch_def split: option.splits if_splits)
    have "opt_inv (climb_inv H xs pos c c' ml (Suc level) m) b"
    proof (cases br)
      case (Some bs)
      then obtain bs' where bs': "b = Some bs'" using bn by auto
      have "climb_inv H xs pos c c' ml level mh bs" using Suc.prems(5) Some by (simp add: opt_inv_def)
      from climb_inv_step[OF Suc.prems(1) True Suc.prems(3,2,4) this] bm Some bs' show ?thesis
        by (simp add: opt_inv_def)
    qed (use bn in \<open>simp add: opt_inv_def\<close>)
    moreover have d: "d = 32 - Suc level" using Suc.hyps(2) by simp
    ultimately obtain level' mh' br' where r: "merkle_climb H inner (of_nat c') ml (Suc level) (H (inner ! level) h) m b (mu \<or> inner ! level = h) =
        Some (level', mlevel H xs level' ! (c' div 2 ^ level' - 1), mh', br', (mu \<or> inner ! level = h) \<or>
          (\<exists>l. Suc level \<le> l \<and> l < level' \<and> mlevel H xs l ! (c' div 2 ^ l - 2) = mlevel H xs l ! (c' div 2 ^ l - 1)))"
      "Suc level \<le> level'" "level' < 32" "climb_ok (length xs) c c' level'" "odd (c' div 2 ^ level')"
      "\<forall>l. Suc level \<le> l \<longrightarrow> l < level' \<longrightarrow> even (c' div 2 ^ l)"
      "opt_inv (climb_inv H xs pos c c' ml level' mh') br'" "br' = None \<longleftrightarrow> b = None"
      using Suc.hyps(1)[OF d e(1) Suc.prems(2) l' hn, of m b "mu \<or> inner ! level = h"] by blast
    have eq: "merkle_climb H inner (of_nat c') ml level h mh br mu =
        merkle_climb H inner (of_nat c') ml (Suc level) (H (inner ! level) h) m b (mu \<or> inner ! level = h)"
      using unf bit True Suc.prems(3) bm by simp
    have mu: "(mu \<or> inner ! level = h) \<or>
        (\<exists>l. Suc level \<le> l \<and> l < level' \<and> mlevel H xs l ! (c' div 2 ^ l - 2) = mlevel H xs l ! (c' div 2 ^ l - 1)) \<longleftrightarrow>
      mu \<or> (\<exists>l. level \<le> l \<and> l < level' \<and> mlevel H xs l ! (c' div 2 ^ l - 2) = mlevel H xs l ! (c' div 2 ^ l - 1))"
    proof -
      have split: "level \<le> l \<and> l < level' \<longleftrightarrow> l = level \<or> Suc level \<le> l \<and> l < level'" for l using r(2) by auto
      have same: "inner ! level = h \<longleftrightarrow> mlevel H xs level ! (c' div 2 ^ level - 2) = mlevel H xs level ! (c' div 2 ^ level - 1)"
        using il Suc.prems(4) by simp
      show ?thesis unfolding same conj_assoc[symmetric] split by blast
    qed
    have "\<forall>l. level \<le> l \<longrightarrow> l < level' \<longrightarrow> even (c' div 2 ^ l)"
    proof (intro allI impI)
      fix l assume "level \<le> l" "l < level'"
      then show "even (c' div 2 ^ l)" using r(6) True by (cases "l = level") simp_all
    qed
    then show ?thesis
      unfolding eq using r mu bn
      by (intro exI[of _ level'] exI[of _ mh'] exI[of _ br'] conjI) (simp_all only: Suc_leD simp_thms)
  qed
qed

lemma inner_inv_store:
  assumes inner: "inner_inv H xs c inner" and dvd: "(2 :: nat) ^ k dvd Suc c" and odd: "odd (Suc c div 2 ^ k)" and k: "k < 32"
  shows "inner_inv H xs (Suc c) (inner[k := mlevel H xs k ! (Suc c div 2 ^ k - 1)])"
proof -
  have len: "length inner = 32" using inner by (simp add: inner_inv_def)
  have "inner[k := mlevel H xs k ! (Suc c div 2 ^ k - 1)] ! l = mlevel H xs l ! (Suc c div 2 ^ l - 1)"
    if l: "l < 32" "odd (Suc c div 2 ^ l)" for l
  proof -
    consider "l < k" | "l = k" | "k < l" by linarith
    then show ?thesis
    proof cases
      case 1
      then have "2 ^ l * 2 dvd Suc c" using dvd by (metis Suc_leI dvd_trans le_imp_power_dvd power_Suc2)
      then have "even (Suc c div 2 ^ l)" by (metis dvd_div_iff_mult dvd_mult_left mult.commute power_not_zero zero_neq_numeral)
      with l show ?thesis by simp
    next
      case 2
      then show ?thesis using len k by simp
    next
      case 3
      then have "c div 2 ^ l = Suc c div 2 ^ l" using div_pred_odd[OF dvd odd 3] by simp
      with l 3 inner show ?thesis by (simp add: inner_inv_def)
    qed
  qed
  then show ?thesis using len by (simp add: inner_inv_def)
qed

lemma div_less_imp_less: "x div d < y div d \<Longrightarrow> x < (y :: nat)"
  by (metis div_le_mono leD le_less_linear)

lemma match_inv_store:
  assumes dvd: "(2 :: nat) ^ k dvd Suc c" and odd: "odd (Suc c div 2 ^ k)" and k: "k < 32"
    and ci: "climb_inv H xs pos c (Suc c) ml k mh bs"
  shows "match_inv H xs pos (Suc c) (if mh then int k else ml) bs"
proof (cases mh)
  case True
  then have p: "pos div 2 ^ k = Suc c div 2 ^ k - 1" "bs = leaf_path H xs pos k" using ci by (simp_all add: climb_inv_def)
  have "pos div 2 ^ k < Suc c div 2 ^ k" using p(1) odd by (cases "Suc c div 2 ^ k") auto
  then have "pos < Suc c" by (rule div_less_imp_less)
  then show ?thesis using True p odd k by (auto simp: match_inv_def)
next
  case False
  show ?thesis
  proof (cases "pos < c")
    case True
    then obtain l where l: "k \<le> l" "l < 32" "ml = int l" "odd (c div 2 ^ l)" "pos div 2 ^ l = c div 2 ^ l - 1"
        "bs = leaf_path H xs pos l"
      using ci False by (auto simp: climb_inv_def)
    have "c div 2 ^ k = Suc c div 2 ^ k - 1" using div_pred_dvd[OF dvd] by simp
    then have "even (c div 2 ^ k)" using odd by simp
    then have "k < l" using l(1,4) by (cases "k = l") auto
    then have "c div 2 ^ l = Suc c div 2 ^ l" using div_pred_odd[OF dvd odd] by simp
    with l True False show ?thesis by (auto simp: match_inv_def)
  next
    case no: False
    then have "Suc c \<le> pos" "ml = -1" "bs = []" using ci False by (auto simp: climb_inv_def split: if_splits)
    then show ?thesis using False by (simp add: match_inv_def)
  qed
qed

lemma twins_Suc:
  assumes dvd: "(2 :: nat) ^ k dvd Suc c" and odd: "odd (Suc c div 2 ^ k)"
    and even: "\<forall>l<k. even (Suc c div 2 ^ l)"
  shows "twins H xs (Suc c) \<longleftrightarrow> twins H xs c \<or>
    (\<exists>l<k. mlevel H xs l ! (Suc c div 2 ^ l - 2) = mlevel H xs l ! (Suc c div 2 ^ l - 1))"
proof
  assume "twins H xs (Suc c)"
  then obtain l i where li: "(2 * i + 2) * 2 ^ l \<le> Suc c" "mlevel H xs l ! (2 * i) = mlevel H xs l ! (2 * i + 1)"
    by (auto simp: twins_def)
  show "twins H xs c \<or> (\<exists>l<k. mlevel H xs l ! (Suc c div 2 ^ l - 2) = mlevel H xs l ! (Suc c div 2 ^ l - 1))"
  proof (cases "(2 * i + 2) * 2 ^ l = Suc c")
    case True
    then have q: "Suc c div 2 ^ l = 2 * i + 2" by (metis nonzero_mult_div_cancel_right power_not_zero zero_neq_numeral)
    have "l < k"
    proof (rule ccontr)
      assume "\<not> l < k"
      then have "l = k \<or> Suc k \<le> l" by auto
      moreover have "l \<noteq> k" using q odd by auto
      ultimately have "Suc k \<le> l" by blast
      then have "(2 :: nat) ^ Suc k dvd 2 ^ l" by (rule le_imp_power_dvd)
      then have "2 ^ Suc k dvd Suc c" using True by (metis dvd_mult)
      then have "even (Suc c div 2 ^ k)"
        by (metis dvd_div_iff_mult dvd_mult_left mult.commute power_Suc2 power_not_zero zero_neq_numeral)
      with odd show False by simp
    qed
    then show ?thesis using q li(2) by auto
  next
    case False
    then show ?thesis using li by (auto simp: twins_def)
  qed
next
  assume "twins H xs c \<or> (\<exists>l<k. mlevel H xs l ! (Suc c div 2 ^ l - 2) = mlevel H xs l ! (Suc c div 2 ^ l - 1))"
  then show "twins H xs (Suc c)"
  proof
    assume "\<exists>l<k. mlevel H xs l ! (Suc c div 2 ^ l - 2) = mlevel H xs l ! (Suc c div 2 ^ l - 1)"
    then obtain l where l: "l < k" "mlevel H xs l ! (Suc c div 2 ^ l - 2) = mlevel H xs l ! (Suc c div 2 ^ l - 1)" by blast
    obtain m where m: "Suc c div 2 ^ l = 2 * m" using even l(1) by (auto elim: evenE)
    have "(2 :: nat) ^ l dvd Suc c" using dvd l(1) by (meson dvd_trans le_imp_power_dvd less_imp_le)
    then have eq: "Suc c = 2 * m * 2 ^ l" using m by (metis dvd_div_mult_self)
    then obtain i where "m = Suc i" by (cases m) auto
    then show ?thesis
      using l(2) m eq unfolding twins_def by (intro exI[of _ l] exI[of _ i]) simp
  qed (auto simp: twins_def intro: le_SucI)
qed

lemma merkle_leaves_spec:
  assumes "length xs < 2 ^ 32" "pos < 2 ^ 32" "xs = zs @ ys" "inner_inv H xs (length zs) inner"
    and "opt_inv (match_inv H xs pos (length zs) ml) br"
  shows "\<exists>inner' ml' br'. merkle_leaves H (of_nat pos) ys (of_nat (length zs)) inner ml br (twins H xs (length zs)) =
      Some (of_nat (length xs), inner', ml', br', twins H xs (length xs)) \<and>
    inner_inv H xs (length xs) inner' \<and> opt_inv (match_inv H xs pos (length xs) ml') br' \<and> (br' = None \<longleftrightarrow> br = None)"
  using assms(3-5)
proof (induction ys arbitrary: zs inner ml br)
  case Nil
  then show ?case by auto
next
  case (Cons y ys)
  define c where "c = length zs"
  have cn: "c < length xs" using Cons.prems(1) by (simp add: c_def)
  have ok: "climb_ok (length xs) c (Suc c) 0" using cn assms(1) by (simp add: climb_ok_def)
  have y: "y = mlevel H xs 0 ! (Suc c div 2 ^ 0 - 1)" using Cons.prems(1) by (simp add: c_def)
  have eqpos: "(of_nat c :: u32) = of_nat pos \<longleftrightarrow> c = pos"
    using cn assms(1,2) by (simp add: word_unat_eq_iff unat_of_nat)
  have "opt_inv (climb_inv H xs pos c (Suc c) ml 0 (c = pos)) br"
    using Cons.prems(3) by (auto simp: opt_inv_def climb_inv_def match_inv_def c_def split: if_splits)
  from merkle_climb_spec[OF ok _ _ y this, of inner "twins H xs c"] Cons.prems(2)
  obtain k mh br1 where r: "merkle_climb H inner (of_nat (Suc c)) ml 0 y (c = pos) br (twins H xs c) =
      Some (k, mlevel H xs k ! (Suc c div 2 ^ k - 1), mh, br1, twins H xs c \<or>
        (\<exists>l. 0 \<le> l \<and> l < k \<and> mlevel H xs l ! (Suc c div 2 ^ l - 2) = mlevel H xs l ! (Suc c div 2 ^ l - 1)))"
    "k < 32" "climb_ok (length xs) c (Suc c) k" "odd (Suc c div 2 ^ k)" "\<forall>l. 0 \<le> l \<longrightarrow> l < k \<longrightarrow> even (Suc c div 2 ^ l)"
    "opt_inv (climb_inv H xs pos c (Suc c) ml k mh) br1" "br1 = None \<longleftrightarrow> br = None"
    unfolding c_def by auto
  have dvd: "(2 :: nat) ^ k dvd Suc c" using r(3) by (simp add: climb_ok_def)
  have tw: "(twins H xs c \<or> (\<exists>l. 0 \<le> l \<and> l < k \<and>
      mlevel H xs l ! (Suc c div 2 ^ l - 2) = mlevel H xs l ! (Suc c div 2 ^ l - 1))) = twins H xs (Suc c)"
    using twins_Suc[OF dvd r(4), of H xs] r(5) by simp
  have inner': "inner_inv H xs (length (zs @ [y])) (inner[k := mlevel H xs k ! (Suc c div 2 ^ k - 1)])"
    using inner_inv_store[OF _ dvd r(4,2)] Cons.prems(2) by (simp add: c_def)
  have match': "opt_inv (match_inv H xs pos (length (zs @ [y])) (if mh then int k else ml)) br1"
    using match_inv_store[OF dvd r(4,2)] r(6) by (simp add: opt_inv_def c_def)
  have xs': "xs = (zs @ [y]) @ ys" using Cons.prems(1) by simp
  from Cons.IH[OF xs' inner' match'] obtain inner2 ml2 br2 where
    r2: "merkle_leaves H (of_nat pos) ys (of_nat (Suc c)) (inner[k := mlevel H xs k ! (Suc c div 2 ^ k - 1)])
        (if mh then int k else ml) br1 (twins H xs (Suc c)) = Some (of_nat (length xs), inner2, ml2, br2, twins H xs (length xs))"
      "inner_inv H xs (length xs) inner2" "opt_inv (match_inv H xs pos (length xs) ml2) br2" "br2 = None \<longleftrightarrow> br1 = None"
    by (auto simp: c_def)
  have "merkle_leaves H (of_nat pos) (y # ys) (of_nat c) inner ml br (twins H xs c) =
      Some (of_nat (length xs), inner2, ml2, br2, twins H xs (length xs))"
    using r(1)[unfolded tw] r2(1) by (simp add: eqpos add.commute)
  with r2 r(7) show ?case unfolding c_def by blast
qed
subsection \<open>The final sweep\<close>

lemma lowest_level_spec:
  assumes "0 < n" "n < 2 ^ 32" "2 ^ level dvd n" "level < 32"
  shows "\<exists>k. lowest_level (of_nat n) level = Some k \<and> level \<le> k \<and> k < 32 \<and> 2 ^ k dvd n \<and> odd (n div 2 ^ k)"
  using assms(3,4)
proof (induction "32 - level" arbitrary: level)
  case (Suc d)
  note bit = bit_clear_iff[OF Suc.prems(2) assms(2)]
  show ?case
  proof (cases "even (n div 2 ^ level)")
    case False
    then show ?thesis using bit Suc.prems by (subst lowest_level.simps) auto
  next
    case True
    then have dvd: "2 ^ Suc level dvd n" using Suc.prems(1) by (auto elim!: evenE dvdE simp: mult_ac)
    then have "2 ^ Suc level \<le> n" using assms(1) by (rule dvd_imp_le)
    then have "(2 :: nat) ^ Suc level < 2 ^ 32" using assms(2) by simp
    then have l: "Suc level < 32" by (rule power_less_imp_less_exp[rotated]) simp
    have "d = 32 - Suc level" using Suc.hyps(2) by simp
    from Suc.hyps(1)[OF this dvd l] show ?thesis
      using True bit Suc.prems(2) by (subst lowest_level.simps) auto
  qed
qed simp

lemma mlevel_wide:
  assumes "n \<le> C" "C < length xs + 2 ^ j" "even (C div 2 ^ j)" "0 < C div 2 ^ j" 
  shows "1 < length (mlevel H xs j)"
proof -
  have "2 \<le> C div 2 ^ j" using assms(3,4) by (auto elim!: evenE)
  also have "C \<le> length xs + 2 ^ j - 1" using assms(2) by linarith
  then have "C div 2 ^ j \<le> length (mlevel H xs j)" unfolding length_mlevel by (rule div_le_mono)
  finally show ?thesis by simp
qed

lemma mlevel_bound:
  assumes "length xs \<le> 2 ^ 31" "l \<le> 31"
  shows "length (mlevel H xs l) * 2 ^ l \<le> 2 ^ 31"
proof -
  have p: "(2 :: nat) ^ 31 = 2 ^ (31 - l) * 2 ^ l" using assms(2) by (simp flip: power_add)
  have "length (mlevel H xs l) \<le> (2 ^ (31 - l) * 2 ^ l + (2 ^ l - 1)) div 2 ^ l"
    unfolding length_mlevel using assms(1) unfolding p by (intro div_le_mono) simp
  also have "\<dots> = 2 ^ (31 - l) + (2 ^ l - 1) div 2 ^ l" by (rule div_mult_self3) simp
  also have "((2 :: nat) ^ l - 1) div 2 ^ l = 0" by (simp add: div_eq_0_iff)
  finally have "length (mlevel H xs l) \<le> 2 ^ (31 - l)" by simp
  then show ?thesis unfolding p by (rule mult_right_mono) simp
qed

lemma length_mlevel_eq:
  assumes "climb_ok (length xs) c C l" "length xs \<le> C"
  shows "length (mlevel H xs l) = C div 2 ^ l"
proof (rule antisym)
  obtain q where q: "C = 2 ^ l * q" using assms(1) by (auto simp: climb_ok_def)
  have "length (mlevel H xs l) \<le> (2 ^ l * q + (2 ^ l - 1)) div 2 ^ l"
    unfolding length_mlevel using assms(2) q by (intro div_le_mono) simp
  also have "\<dots> = q + (2 ^ l - 1) div 2 ^ l" by (rule div_mult_self4) simp
  also have "((2 :: nat) ^ l - 1) div 2 ^ l = 0" by (simp add: div_eq_0_iff)
  finally show "length (mlevel H xs l) \<le> C div 2 ^ l" using q by simp
qed (rule climb_ok_nodes[OF assms(1)])

definition sweep_inv :: "(uint256 \<Rightarrow> uint256 \<Rightarrow> uint256) \<Rightarrow> uint256 list \<Rightarrow> nat \<Rightarrow> int \<Rightarrow> nat \<Rightarrow> bool \<Rightarrow> uint256 list \<Rightarrow> bool" where
  "sweep_inv H xs pos ml level mh bs =
     (if mh then pos div 2 ^ level = length (mlevel H xs level) - 1 \<and> bs = leaf_path H xs pos level
      else \<exists>l. level < l \<and> l < 32 \<and> ml = int l \<and> odd (length xs div 2 ^ l) \<and>
               pos div 2 ^ l = length xs div 2 ^ l - 1 \<and> bs = leaf_path H xs pos l)"

definition top_level :: "(uint256 \<Rightarrow> uint256 \<Rightarrow> uint256) \<Rightarrow> uint256 list \<Rightarrow> nat \<Rightarrow> bool" where
  "top_level H xs k = (length (mlevel H xs k) = 1 \<and> (\<forall>j<k. 1 < length (mlevel H xs j)))"

lemma climb_inv_sweep:
  assumes ok: "climb_ok (length xs) (length xs) C k" and odd: "odd (C div 2 ^ k)" and n: "length xs \<le> C" "pos < length xs"
    and ci: "climb_inv H xs pos (length xs) C ml k mh bs"
  shows "sweep_inv H xs pos ml k mh bs"
proof (cases mh)
  case True
  then show ?thesis using ci length_mlevel_eq[OF ok n(1)] by (simp add: climb_inv_def sweep_inv_def)
next
  case False
  then obtain l where l: "k \<le> l" "l < 32" "ml = int l" "odd (length xs div 2 ^ l)"
      "pos div 2 ^ l = length xs div 2 ^ l - 1" "bs = leaf_path H xs pos l"
    using ci n(2) by (auto simp: climb_inv_def)
  have "length xs div 2 ^ k = C div 2 ^ k - 1"
    using ok div_pred_dvd[of k C] by (simp add: climb_ok_def)
  then have "even (length xs div 2 ^ k)" using odd by simp
  then have "k < l" using l(1,4) by (cases "k = l") auto
  with l False show ?thesis by (auto simp: sweep_inv_def)
qed

lemma sweep_climb_ok:
  assumes n: "0 < length xs" "length xs \<le> 2 ^ 31" and l: "Suc level \<le> 31"
    and q: "length (mlevel H xs level) = q" "odd q" and C: "C = q * 2 ^ level + 2 ^ level"
  shows "climb_ok (length xs) (length xs) C (Suc level)" "C div 2 ^ Suc level = (q + 1) div 2" "length xs < C"
proof -
  obtain m where m: "q = 2 * m + 1" using q(2) by (rule oddE)
  have Cm: "C = (m + 1) * 2 ^ Suc level" unfolding C m by (simp add: algebra_simps)
  have len: "length (mlevel H xs (Suc level)) = m + 1" using q(1) m by (simp add: mlevel_Suc length_merkle_level)
  have "C \<le> 2 ^ 31" using mlevel_bound[OF n(2) l, of H] unfolding len Cm .
  then have C32: "C < 2 ^ 32" by simp
  have ceil: "(length xs + 2 ^ Suc level - 1) div 2 ^ Suc level = m + 1" using len unfolding length_mlevel .
  have "(m + 1) * 2 ^ Suc level \<le> length xs + 2 ^ Suc level - 1"
    by (subst ceil[symmetric]) (rule div_times_less_eq_dividend)
  then have upper: "C < length xs + 2 ^ Suc level" unfolding Cm using n(1) by linarith
  have "length xs + 2 ^ level - 1 < (q + 1) * 2 ^ level"
    using q(1) unfolding length_mlevel by (metis add.commute dividend_less_times_div mult.commute plus_1_eq_Suc mult_Suc_right zero_less_power zero_less_numeral)
  then have lower: "length xs \<le> C" unfolding C using n(1) by (simp add: algebra_simps)
  have "length xs \<noteq> C"
  proof
    assume eq: "length xs = C"
    then have "length (mlevel H xs level) = (2 ^ level * (2 * (m + 1)) + (2 ^ level - 1)) div 2 ^ level"
      unfolding length_mlevel eq Cm by (simp add: mult_ac)
    also have "\<dots> = 2 * (m + 1) + (2 ^ level - 1) div 2 ^ level" by (rule div_mult_self4) simp
    also have "((2 :: nat) ^ level - 1) div 2 ^ level = 0" by (simp add: div_eq_0_iff)
    finally show False using q(1) m by simp
  qed
  with lower show strict: "length xs < C" by simp
  show "C div 2 ^ Suc level = (q + 1) div 2" unfolding Cm m by simp
  have "length xs div 2 ^ Suc level = m"
  proof (rule div_nat_eqI)
    show "2 ^ Suc level * m \<le> length xs" using upper unfolding Cm by (simp add: algebra_simps)
    show "length xs < 2 ^ Suc level * Suc m" using strict unfolding Cm by (simp add: algebra_simps)
  qed
  moreover have "(C - 1) div 2 ^ Suc level = m"
    using div_pred_dvd[of "Suc level" C] strict Cm by simp
  ultimately show "climb_ok (length xs) (length xs) C (Suc level)"
    unfolding climb_ok_def using C32 upper strict Cm by auto
qed

lemma merkle_sweep_spec:
  assumes n: "0 < length xs" "length xs \<le> 2 ^ 31" and inner: "inner_inv H xs (length xs) inner"
    and pos: "br \<noteq> None \<longrightarrow> pos < length xs"
    and "level < 32" "length (mlevel H xs level) = q" "odd q" "h = mlevel H xs level ! (q - 1)"
    and "\<forall>j<level. 1 < length (mlevel H xs j)" "opt_inv (sweep_inv H xs pos ml level mh) br"
  shows "\<exists>br'. merkle_sweep H inner ml (of_nat (q * 2 ^ level)) level h mh br = Some (merkle_root H xs, br') \<and>
    opt_inv (\<lambda>bs. \<exists>k<32. top_level H xs k \<and> bs = leaf_path H xs pos k) br' \<and> (br' = None \<longleftrightarrow> br = None)"
  using assms(4-)
proof (induction "32 - level" arbitrary: level q h mh br rule: less_induct)
  case less
  note pos = less.prems(1) and l = less.prems(2) and q = less.prems(3,4) and h = less.prems(5)
    and wide = less.prems(6) and sw = less.prems(7)
  have Cb: "q * 2 ^ level \<le> 2 ^ 31" using mlevel_bound[OF n(2), of level H] l q(1) by simp
  have eq1: "(of_nat (q * 2 ^ level) :: u32) = push_bit level 1 \<longleftrightarrow> q = 1"
  proof -
    have "(push_bit level 1 :: u32) = of_nat (2 ^ level)" by (simp add: push_bit_of_1)
    moreover have "(2 :: nat) ^ level < 2 ^ 32" using l by (rule power_strict_increasing) simp
    ultimately have "(of_nat (q * 2 ^ level) :: u32) = push_bit level 1 \<longleftrightarrow> q * 2 ^ level = 2 ^ level"
      using Cb by (simp add: word_unat_eq_iff unat_of_nat del: of_nat_mult of_nat_power of_nat_numeral)
    then show ?thesis by simp
  qed
  note unf = merkle_sweep.simps[of H inner ml "of_nat (q * 2 ^ level)" level h mh br]
  show ?case
  proof (cases "q = 1")
    case True
    then have top: "top_level H xs level" using q wide by (simp add: top_level_def)
    have root: "merkle_root H xs = h"
      using merkle_root_mlevel[of H xs level] top True h q by (simp add: top_level_def)
    have "opt_inv (\<lambda>bs. \<exists>k<32. top_level H xs k \<and> bs = leaf_path H xs pos k) br"
      unfolding opt_inv_def
    proof (intro allI impI)
      fix bs assume bs: "br = Some bs"
      with sw have si: "sweep_inv H xs pos ml level mh bs" by (simp add: opt_inv_def)
      have "mh"
      proof (rule ccontr)
        assume "\<not> mh"
        then obtain l' where l': "level < l'" "odd (length xs div 2 ^ l')" using si by (auto simp: sweep_inv_def)
        have "length xs \<le> 2 ^ level"
        proof (rule ccontr)
          assume "\<not> length xs \<le> 2 ^ level"
          then have "2 * 2 ^ level \<le> length xs + 2 ^ level - 1" by linarith
          then have "2 * 2 ^ level div 2 ^ level \<le> length (mlevel H xs level)" unfolding length_mlevel by (rule div_le_mono)
          then show False using q(1) True by simp
        qed
        also have "(2 :: nat) ^ level < 2 ^ l'" using l'(1) by (rule power_strict_increasing) simp
        finally show False using l'(2) by simp
      qed
      then show "\<exists>k<32. top_level H xs k \<and> bs = leaf_path H xs pos k"
        using si top l by (auto simp: sweep_inv_def)
    qed
    then show ?thesis using True l unf eq1 root by auto
  next
    case False
    then have q3: "3 \<le> q" using q(2) by (cases q rule: nat.exhaust) (auto elim!: oddE)
    have l29: "Suc level \<le> 31"
    proof (rule ccontr)
      assume "\<not> Suc level \<le> 31"
      then have "level = 31" using l by simp
      then have "3 * 2 ^ 31 \<le> q * 2 ^ level" using q3 by (intro mult_mono) simp_all
      with Cb show False by simp
    qed
    define C where "C = q * 2 ^ level + 2 ^ level"
    note ok = sweep_climb_ok[OF n l29 q C_def]
    have hh: "H h h = mlevel H xs (Suc level) ! (C div 2 ^ Suc level - 1)"
    proof -
      obtain m where m: "q = 2 * m + 1" using q(2) by (rule oddE)
      then have "m < length (merkle_level H (mlevel H xs level))" using q(1) by (simp add: length_merkle_level)
      from nth_merkle_level[OF this] show ?thesis using h m q(1) ok(2) by (simp add: mlevel_Suc)
    qed
    define br1 where "br1 = (if mh then map_option (\<lambda>bs. bs @ [h]) br else br)"
    have ci: "opt_inv (climb_inv H xs pos (length xs) C ml (Suc level) mh) br1"
      unfolding opt_inv_def
    proof (intro allI impI)
      fix bs1 assume "br1 = Some bs1"
      then obtain bs where bs: "br = Some bs" "bs1 = (if mh then bs @ [h] else bs)" by (auto simp: br1_def split: if_splits)
      then have si: "sweep_inv H xs pos ml level mh bs" and p: "pos < length xs"
        using sw pos by (simp_all add: opt_inv_def)
      show "climb_inv H xs pos (length xs) C ml (Suc level) mh bs1"
      proof (cases mh)
        case True
        then have pp: "pos div 2 ^ level = q - 1" "bs = leaf_path H xs pos level" using si q(1) by (simp_all add: sweep_inv_def)
        have "even (q - 1)" "q - 1 + 1 = q" using q(2) q3 by simp_all
        then have "sibling H xs level (pos div 2 ^ level) = h" using pp h q(1) by (simp add: sibling_def)
        moreover have "pos div 2 ^ Suc level = C div 2 ^ Suc level - 1"
          unfolding div_Suc_level[of pos] pp ok(2) using q(2) by (auto elim!: oddE)
        ultimately show ?thesis using True bs(2) pp by (simp add: climb_inv_def leaf_path_Suc)
      next
        case False
        then show ?thesis using si bs(2) p by (auto simp: sweep_inv_def climb_inv_def Suc_le_eq)
      qed
    qed
    have l': "Suc level < 32" using l29 by simp
    from merkle_climb_spec[OF ok(1) inner l' hh ci, of False] obtain k mh' br' mu where
      r: "merkle_climb H inner (of_nat C) ml (Suc level) (H h h) mh br1 False =
          Some (k, mlevel H xs k ! (C div 2 ^ k - 1), mh', br', mu)"
        "Suc level \<le> k" "k < 32" "climb_ok (length xs) (length xs) C k" "odd (C div 2 ^ k)"
        "\<forall>j. Suc level \<le> j \<longrightarrow> j < k \<longrightarrow> even (C div 2 ^ j)"
        "opt_inv (climb_inv H xs pos (length xs) C ml k mh') br'" "br' = None \<longleftrightarrow> br1 = None"
      by blast
    have Ck: "C = C div 2 ^ k * 2 ^ k" using r(4) by (simp add: climb_ok_def)
    have lenk: "length (mlevel H xs k) = C div 2 ^ k" using length_mlevel_eq[OF r(4)] ok(3) by simp
    have wide': "\<forall>j<k. 1 < length (mlevel H xs j)"
    proof (intro allI impI)
      fix j assume j: "j < k"
      consider "j < level" | "j = level" | "Suc level \<le> j" by linarith
      then show "1 < length (mlevel H xs j)"
      proof cases
        case 3
        have "2 ^ j \<le> (2 :: nat) ^ k" using j by (intro power_increasing) simp_all
        also have "2 ^ k \<le> C" using Ck r(5) by (metis One_nat_def Suc_leI mult_le_mono1 nat_mult_1 odd_pos)
        finally have "0 < C div 2 ^ j" by (simp add: div_greater_zero_iff)
        moreover have "C < length xs + 2 ^ j"
          using ok(1) power_increasing[OF 3, of "2 :: nat"] unfolding climb_ok_def by linarith
        ultimately show ?thesis using mlevel_wide[of 0 C xs j] r(6) 3 j by simp
      qed (use wide q(1) q3 in auto)
    qed
    have pos': "br' \<noteq> None \<longrightarrow> pos < length xs" using pos r(8) by (auto simp: br1_def)
    have sw': "opt_inv (sweep_inv H xs pos ml k mh') br'"
      using climb_inv_sweep[OF r(4,5)] ok(3) r(7) pos' by (simp add: opt_inv_def)
    have dec: "32 - k < 32 - level" using r(2,3) by simp
    from less.hyps[OF dec pos' r(3) lenk r(5) refl wide' sw'] obtain br2 where
      f: "merkle_sweep H inner ml (of_nat C) k (mlevel H xs k ! (C div 2 ^ k - 1)) mh' br' = Some (merkle_root H xs, br2)"
        "opt_inv (\<lambda>bs. \<exists>k<32. top_level H xs k \<and> bs = leaf_path H xs pos k) br2" "br2 = None \<longleftrightarrow> br' = None"
      using Ck by auto
    have "(of_nat (q * 2 ^ level) :: u32) + push_bit level 1 = of_nat C" by (simp add: C_def push_bit_of_1)
    then have "merkle_sweep H inner ml (of_nat (q * 2 ^ level)) level h mh br = Some (merkle_root H xs, br2)"
      using unf eq1 False l r(1) f(1) by (simp add: br1_def)
    moreover have "br2 = None \<longleftrightarrow> br = None" using f(3) r(8) by (auto simp: br1_def)
    ultimately show ?thesis using f(2) by blast
  qed
qed

lemma climb_ok_self:
  assumes "0 < (n :: nat)" "n < 2 ^ 32" "2 ^ k dvd n" "odd (n div 2 ^ k)" "j \<le> k"
  shows "n < n + 2 ^ j" "j < k \<Longrightarrow> even (n div 2 ^ j) \<and> 0 < n div 2 ^ j"
proof -
  assume j: "j < k"
  then have "2 ^ Suc j dvd n" using assms(3) by (meson Suc_leI dvd_trans le_imp_power_dvd)
  then obtain m where "n = 2 ^ j * (2 * m)" by (auto elim!: dvdE simp: mult_ac)
  then show "even (n div 2 ^ j) \<and> 0 < n div 2 ^ j" using assms(1) by simp
qed simp

lemma MerkleComputation_spec:
  assumes n: "0 < length xs" "length xs \<le> 2 ^ 31" and p: "pos < 2 ^ 32" "want \<longrightarrow> pos < length xs"
  shows "\<exists>br. MerkleComputation H xs (of_nat pos) want = Some (merkle_root H xs, twins H xs (length xs), br) \<and>
    opt_inv (\<lambda>bs. \<exists>k<32. top_level H xs k \<and> bs = leaf_path H xs pos k) br \<and> (br = None \<longleftrightarrow> \<not> want)"
proof -
  have n32: "length xs < 2 ^ 32" using n(2) by simp
  define br0 where "br0 = (if want then Some ([] :: uint256 list) else None)"
  have i0: "inner_inv H xs (length ([] :: uint256 list)) (replicate 32 uint256_null)" by (simp add: inner_inv_def)
  have m0: "opt_inv (match_inv H xs pos (length ([] :: uint256 list)) (-1)) br0"
    by (simp add: opt_inv_def match_inv_def br0_def)
  have t0: "twins H xs (length ([] :: uint256 list)) = False" by (auto simp: twins_def)
  have xs: "xs = [] @ xs" by simp
  from merkle_leaves_spec[OF n32 p(1) xs i0 m0, unfolded t0] obtain inner ml br1 where
    a: "merkle_leaves H (of_nat pos) xs 0 (replicate 32 uint256_null) (-1) br0 False =
        Some (of_nat (length xs), inner, ml, br1, twins H xs (length xs))"
      "inner_inv H xs (length xs) inner" "opt_inv (match_inv H xs pos (length xs) ml) br1" "br1 = None \<longleftrightarrow> br0 = None"
    by auto
  from lowest_level_spec[OF n(1) n32, of 0] obtain k where
    k: "lowest_level (of_nat (length xs)) 0 = Some k" "k < 32" "2 ^ k dvd length xs" "odd (length xs div 2 ^ k)" by auto
  define q where "q = length xs div 2 ^ k"
  have nq: "length xs = q * 2 ^ k" using k(3) by (simp add: q_def)
  have lenk: "length (mlevel H xs k) = q"
  proof -
    have "length (mlevel H xs k) = (2 ^ k * q + (2 ^ k - 1)) div 2 ^ k"
      unfolding length_mlevel nq by (simp add: mult.commute)
    also have "\<dots> = q + (2 ^ k - 1) div 2 ^ k" by (rule div_mult_self4) simp
    finally show ?thesis by (simp add: div_eq_0_iff)
  qed
  have hk: "inner ! k = mlevel H xs k ! (q - 1)" using a(2) k(2,4) by (simp add: inner_inv_def q_def)
  have wide: "\<forall>j<k. 1 < length (mlevel H xs j)"
    using climb_ok_self[OF n(1) n32 k(3,4)] mlevel_wide[of 0 "length xs" xs] by (simp add: less_imp_le)
  have pos1: "br1 \<noteq> None \<longrightarrow> pos < length xs" using a(4) p(2) by (auto simp: br0_def)
  have sw: "opt_inv (sweep_inv H xs pos ml k (ml = int k)) br1"
    unfolding opt_inv_def
  proof (intro allI impI)
    fix bs assume bs: "br1 = Some bs"
    then obtain l where l: "l < 32" "ml = int l" "odd (length xs div 2 ^ l)" "pos div 2 ^ l = length xs div 2 ^ l - 1"
        "bs = leaf_path H xs pos l"
      using a(3) pos1 by (auto simp: opt_inv_def match_inv_def)
    have "\<not> l < k" using climb_ok_self[OF n(1) n32 k(3,4), of l] l(3) by auto
    then show "sweep_inv H xs pos ml k (ml = int k) bs"
      using l lenk by (cases "l = k") (auto simp: sweep_inv_def q_def)
  qed
  from merkle_sweep_spec[OF n a(2) pos1 k(2) lenk _ hk wide sw] k(4) obtain br2 where
    f: "merkle_sweep H inner ml (of_nat (length xs)) k (inner ! k) (ml = int k) br1 = Some (merkle_root H xs, br2)"
      "opt_inv (\<lambda>bs. \<exists>k<32. top_level H xs k \<and> bs = leaf_path H xs pos k) br2" "br2 = None \<longleftrightarrow> br1 = None"
    unfolding nq[symmetric] by (auto simp: q_def)
  have "MerkleComputation H xs (of_nat pos) want = Some (merkle_root H xs, twins H xs (length xs), br2)"
    using n(1) a(1) k(1) f(1) by (auto simp: MerkleComputation_def Let_def br0_def)
  moreover have "br2 = None \<longleftrightarrow> \<not> want" using f(3) a(4) by (simp add: br0_def)
  ultimately show ?thesis using f(2) by blast
qed

lemma RootFromBranch_path:
  assumes "pos < length xs" "length xs < 2 ^ 32"
  shows "ComputeMerkleRootFromBranch H (mlevel H xs j ! (pos div 2 ^ j))
      (map (\<lambda>i. sibling H xs i (pos div 2 ^ i)) [j..<j + d]) (of_nat (pos div 2 ^ j)) =
    mlevel H xs (j + d) ! (pos div 2 ^ (j + d))"
proof (induction d arbitrary: j)
  case (Suc d)
  define i where "i = pos div 2 ^ j"
  have "pos div 2 ^ j \<le> pos" by (rule div_le_dividend)
  then have i32: "i < 2 ^ 32" using assms unfolding i_def by linarith
  have odd: "(of_nat i :: u32) AND 1 \<noteq> 0 \<longleftrightarrow> odd i"
    using bit_clear_iff[of 0 i] i32 by simp
  have drop: "drop_bit 1 (of_nat i :: u32) = of_nat (i div 2)"
    using i32 by (simp add: word_unat_eq_iff unat_div drop_bit_eq_div unat_of_nat)
  have len: "i < length (mlevel H xs j)"
  proof -
    have "Suc (pos div 2 ^ j) * 2 ^ j \<le> pos + 2 ^ j" using div_times_less_eq_dividend[of pos "2 ^ j"] by simp
    also have "\<dots> \<le> length xs + 2 ^ j - 1" using assms(1) by simp
    finally show ?thesis unfolding length_mlevel i_def by (simp add: less_eq_div_iff_mult_less_eq Suc_le_eq[symmetric])
  qed
  then have "i div 2 < length (merkle_level H (mlevel H xs j))" by (simp add: length_merkle_level)
  from nth_merkle_level[OF this] have up: "mlevel H xs (Suc j) ! (i div 2) =
      (if odd i then H (sibling H xs j i) (mlevel H xs j ! i) else H (mlevel H xs j ! i) (sibling H xs j i))"
    using len by (auto simp: mlevel_Suc sibling_def elim!: evenE oddE)
  have "pos div 2 ^ Suc j = i div 2" unfolding i_def by (rule div_Suc_level)
  with Suc.IH[of "Suc j"] up show ?case
    by (cases "odd i") (simp_all add: upt_conv_Cons i_def[symmetric] odd drop[unfolded One_nat_def] del: upt_Suc power_Suc)
qed simp

subsection \<open>Properties\<close>

text \<open>
  C1. For every non-empty list of at most \<open>2 ^ 31\<close> leaves the constant-space computation never leaves its
  array, and its root is the root of the tree built level by level, a last odd node being hashed
  with itself. Its \<open>mutated\<close> flag is raised exactly when at some level two complete sibling subtrees have equal
  hashes, the condition that CVE-2012-2459 exploits.
\<close>

theorem ComputeMerkleRoot_correct:
  assumes "0 < length leaves" "length leaves \<le> 2 ^ 31"
  shows "ComputeMerkleRoot H leaves =
    Some (merkle_root H leaves,
      \<exists>l i. (2 * i + 2) * 2 ^ l \<le> length leaves \<and> mlevel H leaves l ! (2 * i) = mlevel H leaves l ! (2 * i + 1))"
proof -
  have "(- 1 :: u32) = of_nat (2 ^ 32 - 1)" by simp
  moreover have "(2 ^ 32 - 1 :: nat) < 2 ^ 32" by simp
  ultimately obtain br where "MerkleComputation H leaves (- 1) False =
      Some (merkle_root H leaves, twins H leaves (length leaves), br)"
    using MerkleComputation_spec[OF assms, of "2 ^ 32 - 1" False] by metis
  then show ?thesis by (simp add: ComputeMerkleRoot_def twins_def)
qed

theorem ComputeMerkleRoot_correct_witness:
  "ComputeMerkleRoot (\<lambda>a b. a @ b) [[1], [2], [3]] = Some ([1, 2, 3, 3], False)"
proof -
  let ?xs = "[[1], [2], [3]] :: uint256 list"
  have root: "merkle_root (\<lambda>a b. a @ b) ?xs = [1, 2, 3, 3]" by (simp add: merkle_root.simps)
  have "\<not> (\<exists>l i. (2 * i + 2) * 2 ^ l \<le> length ?xs \<and>
      mlevel (\<lambda>a b. a @ b) ?xs l ! (2 * i) = mlevel (\<lambda>a b. a @ b) ?xs l ! (2 * i + 1))"
  proof
    assume "\<exists>l i. (2 * i + 2) * 2 ^ l \<le> length ?xs \<and>
      mlevel (\<lambda>a b. a @ b) ?xs l ! (2 * i) = mlevel (\<lambda>a b. a @ b) ?xs l ! (2 * i + 1)"
    then obtain l i where li: "(2 * i + 2) * 2 ^ l \<le> length ?xs"
        "mlevel (\<lambda>a b. a @ b) ?xs l ! (2 * i) = mlevel (\<lambda>a b. a @ b) ?xs l ! (2 * i + 1)" by blast
    have "l = 0"
    proof (cases l)
      case (Suc m)
      have "4 * 2 ^ m \<le> (2 * i + 2) * 2 ^ l" unfolding Suc by simp
      moreover have "1 \<le> (2 :: nat) ^ m" by simp
      ultimately have "4 \<le> (2 * i + 2) * 2 ^ l" by linarith
      with li(1) show ?thesis by simp
    qed simp
    moreover have "i = 0" using li(1) calculation by simp
    ultimately show False using li(2) by simp
  qed
  with root ComputeMerkleRoot_correct[of ?xs "\<lambda>a b. a @ b"] show ?thesis by simp
qed

text \<open>
  C11. The branch computed for any leaf position proves the leaf: folding it with
  \<open>ComputeMerkleRootFromBranch\<close> from the leaf at that position gives the Merkle root of the list.
\<close>

theorem ComputeMerkleBranch_proves:
  assumes "pos < length leaves" "length leaves \<le> 2 ^ 31"
  shows "\<exists>branch. ComputeMerkleBranch H leaves (of_nat pos) = Some branch \<and>
    ComputeMerkleRootFromBranch H (leaves ! pos) branch (of_nat pos) = merkle_root H leaves"
proof -
  have n: "0 < length leaves" using assms(1) by linarith
  have n32: "pos < 2 ^ 32" "length leaves < 2 ^ 32" using assms by simp_all
  from MerkleComputation_spec[OF n assms(2) n32(1), of True H] assms(1) obtain bs k where
    b: "MerkleComputation H leaves (of_nat pos) True = Some (merkle_root H leaves, twins H leaves (length leaves), Some bs)"
      "top_level H leaves k" "bs = leaf_path H leaves pos k"
    by (auto simp: opt_inv_def)
  have "pos div 2 ^ k = 0"
  proof -
    have "length leaves + 2 ^ k - 1 < 2 * 2 ^ k"
      using b(2) unfolding top_level_def length_mlevel
      by (metis (no_types) dividend_less_div_times mult.commute mult_2_right nat_mult_1_right zero_less_numeral zero_less_power mult_1)
    then show ?thesis using assms(1) by (simp add: div_eq_0_iff)
  qed
  moreover have "merkle_root H leaves = mlevel H leaves k ! 0"
    using merkle_root_mlevel[of H leaves k] b(2) by (simp add: top_level_def)
  ultimately have "ComputeMerkleRootFromBranch H (leaves ! pos) bs (of_nat pos) = merkle_root H leaves"
    using RootFromBranch_path[OF assms(1) n32(2), of H 0 k] b(3) by (simp add: leaf_path_def)
  with b(1) show ?thesis by (simp add: ComputeMerkleBranch_def)
qed

theorem ComputeMerkleBranch_proves_witness:
  "\<exists>branch. ComputeMerkleBranch (\<lambda>a b. a @ b) [[1], [2], [3]] (of_nat 2) = Some branch \<and>
    ComputeMerkleRootFromBranch (\<lambda>a b. a @ b) ([[1], [2], [3]] ! 2) branch (of_nat 2) =
      merkle_root (\<lambda>a b. a @ b) [[1], [2], [3]]"
  by (rule ComputeMerkleBranch_proves) simp_all

end
