(* ===== verification/Bool_Expr.thy ===== *)
theory Bool_Expr
  imports Prelude
begin

text \<open>
  The evaluator of verifier strings of restricted assets: \<open>LibBoolEE\<close> of \<^verbatim>\<open>src/src/LibBoolEE.cpp\<close>. A thrown
  \<open>runtime_error\<close> is an \<open>Inl\<close> value that carries the type recorded in the error report; the valuation is a
  partial map from names. The character tests \<open>isalnum\<close> and \<open>isspace\<close> are those of the C locale.

  The reference is a syntax tree with the usual precedence (negation, then conjunction, then disjunction),
  its printer and its truth value.
\<close>

datatype bool_error = ParenthesisParity | EmptySubExpression | InvalidQualifierName | VariableNotFound

definition isalnum :: "char \<Rightarrow> bool" where
  "isalnum c = (let n = of_char c :: nat in (48 \<le> n \<and> n \<le> 57) \<or> (65 \<le> n \<and> n \<le> 90) \<or> (97 \<le> n \<and> n \<le> 122))"

definition isspace :: "char \<Rightarrow> bool" where
  "isspace c = (let n = of_char c :: nat in n = 32 \<or> (9 \<le> n \<and> n \<le> 13))"

definition belongsToName :: "char \<Rightarrow> bool" where
  "belongsToName ch = (isalnum ch \<or> ch = CHR ''_'' \<or> ch = CHR ''#'' \<or> ch = CHR ''.'')"

definition removeWhitespaces :: "string \<Rightarrow> string" where
  "removeWhitespaces source = filter (\<lambda>c. \<not> isspace c) source"

definition removeCharacter :: "string \<Rightarrow> char \<Rightarrow> string" where
  "removeCharacter source ch = filter (\<lambda>c. ch \<noteq> c) source"

definition substr :: "string \<Rightarrow> nat \<Rightarrow> nat \<Rightarrow> string" where
  "substr s start len = take len (drop start s)"

text \<open>One character of the scan of \<open>singleParse\<close>, at position \<open>i\<close>; the state is the start of the current
  subexpression (\<open>-1\<close> for none), the open parentheses and the subexpressions found.\<close>

type_synonym parse_state = "int \<times> int \<times> string list"

fun parse_step :: "string \<Rightarrow> char \<Rightarrow> nat \<Rightarrow> char \<Rightarrow> parse_state \<Rightarrow> bool_error + parse_state" where
  "parse_step formula op i c (start_pos, parity_count, subexpressions) =
     (if c = CHR '')'' then Inr (start_pos, parity_count - 1, subexpressions)
      else if c = CHR ''('' then
        Inr (if start_pos = -1 then int i else start_pos, parity_count + 1, subexpressions)
      else if parity_count = 0 then
        (if start_pos = -1 then
           Inr (if belongsToName c \<or> c = CHR ''!'' then int i else start_pos, parity_count, subexpressions)
         else if \<not> (belongsToName c \<or> c = CHR ''!'') then
           (if op = c then
              Inr (int (i + 1), parity_count,
                   subexpressions @ [substr formula (nat start_pos) (i - nat start_pos)])
            else if c \<noteq> CHR ''&'' \<and> c \<noteq> CHR ''|'' then Inl EmptySubExpression
            else Inr (start_pos, parity_count, subexpressions))
         else Inr (start_pos, parity_count, subexpressions))
      else Inr (start_pos, parity_count, subexpressions))"

fun parse_loop :: "string \<Rightarrow> char \<Rightarrow> nat \<Rightarrow> string \<Rightarrow> parse_state \<Rightarrow> bool_error + parse_state" where
  "parse_loop formula op i [] s = Inr s"
| "parse_loop formula op i (c # cs) s =
     (case parse_step formula op i c s of Inl e \<Rightarrow> Inl e | Inr s' \<Rightarrow> parse_loop formula op (i + 1) cs s')"

definition singleParse :: "string \<Rightarrow> char \<Rightarrow> bool_error + string list" where
  "singleParse formula op =
     (case parse_loop formula op 0 formula (-1, 0, []) of
        Inl e \<Rightarrow> Inl e
      | Inr (start_pos, parity_count, subexpressions) \<Rightarrow>
          let subs = (if start_pos \<noteq> -1
                      then subexpressions @ [substr formula (nat start_pos) (length formula - nat start_pos)]
                      else subexpressions)
          in if parity_count \<noteq> 0 then Inl ParenthesisParity else Inr subs)"

text \<open>Evaluating all subexpressions in order: the first exception wins, there is no short circuit.\<close>

fun combine :: "(bool \<Rightarrow> bool \<Rightarrow> bool) \<Rightarrow> bool \<Rightarrow> (bool_error + bool) list \<Rightarrow> bool_error + bool" where
  "combine f acc [] = Inr acc"
| "combine f acc (Inl e # rs) = Inl e"
| "combine f acc (Inr b # rs) = combine f (f acc b) rs"

definition state_ok :: "nat \<Rightarrow> parse_state \<Rightarrow> bool" where
  "state_ok i = (\<lambda>(st, pc, subs). if st = -1 then subs = []
     else 0 \<le> st \<and> nat st \<le> i \<and> sum_list (map length subs) + length subs \<le> nat st)"

lemma parse_step_cases:
  assumes "(if a then Inr (st, pc - 1, subs)
      else if b then Inr (if st = -1 then x else st, pc + 1, subs)
      else if pc = 0 then
        (if st = -1 then Inr (if d then x else st, pc, subs)
         else if \<not> d then (if e then Inr y else if g then Inl E else Inr (st, pc, subs))
         else Inr (st, pc, subs))
      else Inr (st, pc, subs)) = Inr (s' :: int \<times> int \<times> string list)"
    and "\<not> (\<not> a \<and> \<not> b \<and> pc = 0 \<and> st \<noteq> -1 \<and> \<not> d \<and> e)"
  shows "\<exists>pc'. s' = (st, pc', subs) \<or> st = -1 \<and> s' = (x, pc', subs)"
  using assms by (auto split: if_splits)

lemma parse_step_ok:
  assumes "parse_step F op i c s = Inr s'" "state_ok i s"
  shows "state_ok (i + 1) s'"
proof -
  obtain st pc subs where s: "s = (st, pc, subs)" by (cases s)
  have len: "length (substr F (nat st) (i - nat st)) \<le> i - nat st" by (simp add: substr_def)
  show ?thesis
  proof (cases "c \<noteq> CHR '')'' \<and> c \<noteq> CHR ''('' \<and> pc = 0 \<and> st \<noteq> -1 \<and> \<not> (belongsToName c \<or> c = CHR ''!'') \<and> op = c")
    case True
    then have s': "s' = (int (i + 1), 0, subs @ [substr F (nat st) (i - nat st)])" using assms(1) unfolding s by simp
    have "0 \<le> st" "nat st \<le> i" "sum_list (map length subs) + length subs \<le> nat st"
      using assms(2) True unfolding s by (simp_all add: state_ok_def)
    then have "sum_list (map length subs) + length (substr F (nat st) (i - nat st)) + length subs \<le> i"
      using len by linarith
    then show ?thesis unfolding s' by (simp add: state_ok_def nat_add_distrib)
  next
    case False
    with assms(1) have "\<exists>pc'. s' = (st, pc', subs) \<or> st = -1 \<and> s' = (int i, pc', subs)"
      unfolding s parse_step.simps by (rule parse_step_cases)
    then show ?thesis using assms(2) unfolding s by (auto simp: state_ok_def)
  qed
qed

lemma parse_loop_ok:
  "parse_loop F op i cs s = Inr s' \<Longrightarrow> state_ok i s \<Longrightarrow> state_ok (i + length cs) s'"
proof (induction cs arbitrary: i s)
  case (Cons c cs)
  then obtain s1 where "parse_step F op i c s = Inr s1" "parse_loop F op (i + 1) cs s1 = Inr s'"
    by (auto split: sum.splits)
  with Cons.IH[of "i + 1" s1] parse_step_ok Cons.prems(2) show ?case by fastforce
qed simp

lemma singleParse_shorter:
  assumes "singleParse F op = Inr subs" "2 \<le> length subs" "s \<in> set subs"
  shows "length s < length F"
proof -
  obtain st pc ss where p: "parse_loop F op 0 F (-1, 0, []) = Inr (st, pc, ss)"
    using assms(1) by (cases "parse_loop F op 0 F (-1, 0, [])") (auto simp: singleParse_def)
  have ok: "state_ok (length F) (st, pc, ss)" using parse_loop_ok[OF p] by (simp add: state_ok_def)
  have subs: "subs = (if st \<noteq> -1 then ss @ [substr F (nat st) (length F - nat st)] else ss)"
    using assms(1) p by (auto simp: singleParse_def Let_def split: if_splits)
  have st: "st \<noteq> -1" using ok subs assms(2) by (auto simp: state_ok_def)
  have "length (substr F (nat st) (length F - nat st)) \<le> length F - nat st" by (simp add: substr_def)
  then have total: "sum_list (map length subs) + length ss \<le> length F"
    using ok st unfolding subs by (simp add: state_ok_def) linarith
  have "1 \<le> length ss" using subs st assms(2) by simp
  moreover have "length s \<le> sum_list (map length subs)" using assms(3) by (simp add: member_le_sum_list)
  ultimately show ?thesis using total by linarith
qed

lemma length_removeWhitespaces: "length (removeWhitespaces s) \<le> length s"
  by (simp add: removeWhitespaces_def)

text \<open>\<open>resolve\<close> is \<open>resolveRec\<close> on the string without its white space; \<open>None\<close> for a name is a missing entry.\<close>

function resolveRec :: "string \<Rightarrow> (string \<Rightarrow> bool option) \<Rightarrow> bool_error + bool" where
  "resolveRec source valuation =
     (if source = [] then Inl EmptySubExpression
      else
        (case singleParse source (CHR ''|'') of
           Inl e \<Rightarrow> Inl e
         | Inr subs1 \<Rightarrow>
             if 2 \<le> length subs1 then
               combine (\<or>) False (map (\<lambda>s. resolveRec (removeWhitespaces s) valuation) subs1)
             else
               (case (if length subs1 = 1 then singleParse source (CHR ''&'') else Inr subs1) of
                  Inl e \<Rightarrow> Inl e
                | Inr subs2 \<Rightarrow>
                    if length subs2 = 0 then Inl InvalidQualifierName
                    else if 2 \<le> length subs2 then
                      combine (\<and>) True (map (\<lambda>s. resolveRec (removeWhitespaces s) valuation) subs2)
                    else if source ! 0 = CHR ''!'' then
                      (case resolveRec (removeWhitespaces (substr source 1 (length source))) valuation of
                         Inl e \<Rightarrow> Inl e
                       | Inr b \<Rightarrow> Inr (\<not> b))
                    else if source ! 0 = CHR ''('' then
                      resolveRec (removeWhitespaces (substr source 1 (length source - 2))) valuation
                    else if source = ''1'' then Inr True
                    else if source = ''0'' then Inr False
                    else (case valuation source of None \<Rightarrow> Inl VariableNotFound | Some b \<Rightarrow> Inr b))))"
  by pat_completeness auto
termination
proof (relation "measure (\<lambda>(s, _). length s)", goal_cases)
  case 1
  show ?case by simp
next
  case (2 source valuation subs1 s)
  then show ?case using singleParse_shorter[of source "CHR ''|''" subs1 s] length_removeWhitespaces[of s] by simp
next
  case (3 source valuation subs1 subs2 s)
  then show ?case
    using singleParse_shorter[of source "CHR ''&''" subs2 s] length_removeWhitespaces[of s] by (auto split: if_splits)
next
  case (4 source valuation subs1 subs2)
  then show ?case
    using length_removeWhitespaces[of "substr source 1 (length source)"] by (cases source) (auto simp: substr_def)
next
  case (5 source valuation subs1 subs2)
  then show ?case
    using length_removeWhitespaces[of "substr source 1 (length source - 2)"] by (cases source) (auto simp: substr_def)
qed

declare resolveRec.simps [simp del]

definition resolve :: "string \<Rightarrow> (string \<Rightarrow> bool option) \<Rightarrow> bool_error + bool" where
  "resolve source valuation = resolveRec (removeWhitespaces source) valuation"

subsection \<open>Reference syntax\<close>

text \<open>A formula is a disjunction of conjunctions of units; a unit is a constant, a name, a negated unit or a
  formula in parentheses.\<close>

datatype bunit = Lit bool | Var string | Neg bunit | Paren "bunit list list"

fun join :: "string \<Rightarrow> string list \<Rightarrow> string" where
  "join sep [] = []"
| "join sep [x] = x"
| "join sep (x # y # xs) = x @ sep @ join sep (y # xs)"

fun print_unit :: "bunit \<Rightarrow> string" where
  "print_unit (Lit b) = (if b then ''1'' else ''0'')"
| "print_unit (Var v) = v"
| "print_unit (Neg u) = ''!'' @ print_unit u"
| "print_unit (Paren f) = ''('' @ join ''|'' (map (\<lambda>us. join ''&'' (map print_unit us)) f) @ '')''"

definition print_conj :: "bunit list \<Rightarrow> string" where
  "print_conj us = join ''&'' (map print_unit us)"

definition print_formula :: "bunit list list \<Rightarrow> string" where
  "print_formula f = join ''|'' (map print_conj f)"

lemma print_Paren: "print_unit (Paren f) = ''('' @ print_formula f @ '')''"
  by (simp add: print_formula_def print_conj_def[abs_def])

fun eval_unit :: "(string \<Rightarrow> bool) \<Rightarrow> bunit \<Rightarrow> bool" where
  "eval_unit v (Lit b) = b"
| "eval_unit v (Var x) = v x"
| "eval_unit v (Neg u) = (\<not> eval_unit v u)"
| "eval_unit v (Paren f) = list_ex (list_all (eval_unit v)) f"

definition eval_formula :: "(string \<Rightarrow> bool) \<Rightarrow> bunit list list \<Rightarrow> bool" where
  "eval_formula v f = list_ex (list_all (eval_unit v)) f"

fun vars_unit :: "bunit \<Rightarrow> string set" where
  "vars_unit (Lit b) = {}"
| "vars_unit (Var x) = {x}"
| "vars_unit (Neg u) = vars_unit u"
| "vars_unit (Paren f) = (\<Union>us\<in>set f. \<Union>u\<in>set us. vars_unit u)"

definition vars_formula :: "bunit list list \<Rightarrow> string set" where
  "vars_formula f = (\<Union>us\<in>set f. \<Union>u\<in>set us. vars_unit u)"

fun wf_unit :: "bunit \<Rightarrow> bool" where
  "wf_unit (Lit b) = True"
| "wf_unit (Var x) = (x \<noteq> [] \<and> list_all belongsToName x \<and> x \<noteq> ''0'' \<and> x \<noteq> ''1'')"
| "wf_unit (Neg u) = wf_unit u"
| "wf_unit (Paren f) = (f \<noteq> [] \<and> list_all (\<lambda>us. us \<noteq> [] \<and> list_all wf_unit us) f)"

definition wf_formula :: "bunit list list \<Rightarrow> bool" where
  "wf_formula f = (f \<noteq> [] \<and> list_all (\<lambda>us. us \<noteq> [] \<and> list_all wf_unit us) f)"

lemma belongsToName_special:
  assumes "belongsToName c"
  shows "c \<noteq> CHR ''('' \<and> c \<noteq> CHR '')'' \<and> c \<noteq> CHR ''!'' \<and> c \<noteq> CHR ''|'' \<and> c \<noteq> CHR ''&'' \<and> \<not> isspace c"
proof -
  have "\<not> belongsToName (CHR ''('')" "\<not> belongsToName (CHR '')'')" "\<not> belongsToName (CHR ''!'')"
    "\<not> belongsToName (CHR ''|'')" "\<not> belongsToName (CHR ''&'')"
    by (simp_all add: belongsToName_def isalnum_def)
  moreover have "\<not> isspace c"
    using assms by (auto simp: belongsToName_def isalnum_def isspace_def Let_def)
  ultimately show ?thesis using assms by auto
qed

lemma op_not_name [simp]:
  "\<not> belongsToName (CHR ''|'')" "\<not> belongsToName (CHR ''&'')" "\<not> belongsToName (CHR ''('')"
  "\<not> belongsToName (CHR '')'')" "\<not> belongsToName (CHR ''!'')" "belongsToName (CHR ''0'')" "belongsToName (CHR ''1'')"
  by (simp_all add: belongsToName_def isalnum_def)

subsection \<open>Scanning\<close>

text \<open>A segment is scanned at the top level as one piece, and inside parentheses without effect.\<close>

definition inert :: "string \<Rightarrow> bool" where
  "inert s = (\<forall>F op i rest st k subs. 0 < k \<longrightarrow> st \<noteq> -1 \<longrightarrow>
     parse_loop F op i (s @ rest) (st, k, subs) = parse_loop F op (i + length s) rest (st, k, subs))"

definition segment :: "char \<Rightarrow> string \<Rightarrow> bool" where
  "segment op s = (s \<noteq> [] \<and> (\<forall>F i rest st subs.
     parse_loop F op i (s @ rest) (st, 0, subs) =
     parse_loop F op (i + length s) rest (if st = -1 then int i else st, 0, subs)))"

lemma segmentD:
  "segment op s \<Longrightarrow> parse_loop F op i (s @ rest) (st, 0, subs) =
     parse_loop F op (i + length s) rest (if st = -1 then int i else st, 0, subs)"
  unfolding segment_def by blast

lemma inert_append: "inert a \<Longrightarrow> inert b \<Longrightarrow> inert (a @ b)"
  by (simp add: inert_def add.assoc)

lemma inert_Nil [simp]: "inert []"
  by (simp add: inert_def)

lemma inert_char: "c \<noteq> CHR ''('' \<Longrightarrow> c \<noteq> CHR '')'' \<Longrightarrow> inert [c]"
  by (simp add: inert_def)

lemma inert_paren:
  assumes "inert s"
  shows "inert (''('' @ s @ '')'')"
  using assms unfolding inert_def by (simp add: add.assoc)

lemma inert_join:
  assumes "\<And>x. x \<in> set xs \<Longrightarrow> inert x" "inert sep"
  shows "inert (join sep xs)"
  using assms by (induction sep xs rule: join.induct) (auto intro!: inert_append)

lemma inert_name: "list_all belongsToName v \<Longrightarrow> inert v"
proof (induction v)
  case (Cons c v)
  then have "inert [c]" using belongsToName_special[of c] by (intro inert_char) auto
  with Cons inert_append[of "[c]" v] show ?case by simp
qed simp

lemma inert_unit: "wf_unit u \<Longrightarrow> inert (print_unit u)"
proof (induction u)
  case (Lit b)
  show ?case by (cases b) (auto intro: inert_char)
next
  case (Var x)
  then show ?case by (auto intro: inert_name)
next
  case (Neg u)
  then have "inert (''!'' @ print_unit u)" by (intro inert_append inert_char) auto
  then show ?case by simp
next
  case (Paren f)
  have "inert (print_formula f)" unfolding print_formula_def print_conj_def
    using Paren by (intro inert_join) (auto intro!: inert_join inert_char simp: list_all_iff)
  then show ?case unfolding print_Paren by (rule inert_paren)
qed

lemma inert_formula: "wf_formula f \<Longrightarrow> inert (print_formula f)"
  unfolding print_formula_def print_conj_def
  by (intro inert_join) (auto intro!: inert_join inert_char inert_unit simp: list_all_iff wf_formula_def)

lemma segment_name:
  assumes "list_all belongsToName v" "v \<noteq> []"
  shows "segment op v"
proof -
  have tail: "list_all belongsToName v \<Longrightarrow> st \<noteq> -1 \<Longrightarrow>
      parse_loop F op i (v @ rest) (st, 0, subs) = parse_loop F op (i + length v) rest (st, 0, subs)" for F i rest st subs v
  proof (induction v arbitrary: i)
    case (Cons c v)
    then show ?case using belongsToName_special[of c] by simp
  qed simp
  obtain c w where v: "v = c # w" using assms(2) by (cases v) auto
  have "parse_loop F op i (v @ rest) (st, 0, subs) =
      parse_loop F op (i + 1) (w @ rest) (if st = -1 then int i else st, 0, subs)" for F i rest st subs
    using assms(1) belongsToName_special[of c] v by simp
  with tail[of w] assms(1) v show ?thesis by (simp add: segment_def)
qed

lemma segment_unit: "wf_unit u \<Longrightarrow> segment op (print_unit u)"
proof (induction u)
  case (Lit b)
  then show ?case by (cases b) (auto intro!: segment_name)
next
  case (Var x)
  then show ?case by (auto intro: segment_name)
next
  case (Neg u)
  then have "segment op (print_unit u)" by simp
  then show ?case by (simp add: segment_def)
next
  case (Paren f)
  then have "inert (print_formula f)" by (intro inert_formula) (simp add: wf_formula_def)
  then show ?case unfolding print_Paren segment_def inert_def by (simp add: add.assoc)
qed

lemma segment_conj:
  assumes "us \<noteq> []" "list_all wf_unit us"
  shows "segment (CHR ''|'') (print_conj us)"
  using assms
proof (induction us rule: list_nonempty_induct)
  case (single u)
  then show ?case by (simp add: print_conj_def segment_unit)
next
  case (cons u us)
  then obtain w ws where us: "us = w # ws" by (cases us) auto
  have "segment (CHR ''|'') (print_unit u)" "segment (CHR ''|'') (print_conj us)"
    using cons by (auto intro: segment_unit)
  moreover have "print_conj (u # us) = print_unit u @ ''&'' @ print_conj us" by (simp add: print_conj_def us)
  ultimately show ?case by (simp add: segment_def add.assoc)
qed

lemma parse_loop_segments:
  assumes "segs \<noteq> []" "\<And>s. s \<in> set segs \<Longrightarrow> segment op s" "op = CHR ''|'' \<or> op = CHR ''&''"
    and "F = pre @ join [op] segs" "st = -1 \<or> st = int (length pre)"
  shows "\<exists>k. parse_loop F op (length pre) (join [op] segs) (st, 0, subs) = Inr (int k, 0, subs @ butlast segs) \<and>
    substr F k (length F - k) = last segs"
  using assms(1,2,4,5)
proof (induction segs arbitrary: pre st subs rule: list_nonempty_induct)
  case (single s)
  have "parse_loop F op (length pre) (s @ []) (st, 0, subs) =
      parse_loop F op (length pre + length s) [] (if st = -1 then int (length pre) else st, 0, subs)"
    by (rule segmentD) (use single(1) in simp)
  then show ?case using single by (intro exI[of _ "length pre"]) (auto simp: substr_def)
next
  case (cons s segs)
  obtain t ts where segs: "segs = t # ts" using cons(1) by (cases segs) auto
  have J: "join [op] (s # segs) = s @ op # join [op] segs" by (simp add: segs)
  have op: "\<not> belongsToName op" "op \<noteq> CHR ''!''" "op \<noteq> CHR ''(''" "op \<noteq> CHR '')''" using assms(3) by auto
  have F: "F = (pre @ s @ [op]) @ join [op] segs" using cons.prems(2) J by simp
  have "parse_loop F op (length pre) (join [op] (s # segs)) (st, 0, subs) =
      parse_loop F op (length pre + length s) (op # join [op] segs) (int (length pre), 0, subs)"
    unfolding J using segmentD[of op s F "length pre" "op # join [op] segs" st subs] cons.prems(1,3) by auto
  also have "\<dots> = parse_loop F op (length (pre @ s @ [op])) (join [op] segs) (int (length (pre @ s @ [op])), 0, subs @ [s])"
    using op cons.prems(2) by (simp add: substr_def J)
  finally show ?case
    using cons.IH[of "pre @ s @ [op]" "int (length (pre @ s @ [op]))" "subs @ [s]"] cons.prems(1) F cons(1)
    by simp
qed

lemma singleParse_join:
  assumes "segs \<noteq> []" "\<And>s. s \<in> set segs \<Longrightarrow> segment op s" "op = CHR ''|'' \<or> op = CHR ''&''"
  shows "singleParse (join [op] segs) op = Inr segs"
proof -
  obtain k where k: "parse_loop (join [op] segs) op 0 (join [op] segs) (-1, 0, []) = Inr (int k, 0, butlast segs)"
      "substr (join [op] segs) k (length (join [op] segs) - k) = last segs"
    using parse_loop_segments[OF assms, of "join [op] segs" "[]" "-1" "[]"] by auto
  then show ?thesis using assms(1) by (simp add: singleParse_def)
qed

subsection \<open>Evaluation\<close>

lemma combine_Inr: "combine f acc (map Inr bs) = Inr (foldl f acc bs)"
  by (induction bs arbitrary: acc) auto

lemma combine_Inl: "Inl e \<in> set rs \<Longrightarrow> \<exists>e. combine f acc rs = Inl e"
proof (induction rs arbitrary: acc)
  case (Cons r rs)
  then show ?case by (cases r) auto
qed simp

lemma foldl_or: "foldl (\<or>) acc bs \<longleftrightarrow> acc \<or> list_ex id bs"
  by (induction bs arbitrary: acc) auto

lemma foldl_and: "foldl (\<and>) acc bs \<longleftrightarrow> acc \<and> list_all id bs"
  by (induction bs arbitrary: acc) auto

lemma no_space_op [simp]: "removeWhitespaces ''&'' = ''&''" "removeWhitespaces ''|'' = ''|''"
  by (simp_all add: removeWhitespaces_def isspace_def)

lemma no_space_join: "(\<And>x. x \<in> set xs \<Longrightarrow> removeWhitespaces x = x) \<Longrightarrow> removeWhitespaces sep = sep \<Longrightarrow>
    removeWhitespaces (join sep xs) = join sep xs"
  by (induction sep xs rule: join.induct) (auto simp: removeWhitespaces_def)

lemma no_space_unit: "wf_unit u \<Longrightarrow> removeWhitespaces (print_unit u) = print_unit u"
proof (induction u)
  case (Lit b)
  then show ?case by (simp add: removeWhitespaces_def isspace_def)
next
  case (Var x)
  then show ?case using belongsToName_special by (auto simp: removeWhitespaces_def list_all_iff filter_id_conv)
next
  case (Neg u)
  then show ?case by (simp add: removeWhitespaces_def isspace_def)
next
  case (Paren f)
  have "removeWhitespaces (print_formula f) = print_formula f" unfolding print_formula_def print_conj_def
    using Paren by (intro no_space_join) (auto intro!: no_space_join simp: list_all_iff)
  then show ?case unfolding print_Paren by (simp add: removeWhitespaces_def isspace_def)
qed

lemma no_space_conj: "list_all wf_unit us \<Longrightarrow> removeWhitespaces (print_conj us) = print_conj us"
  unfolding print_conj_def
  by (intro no_space_join) (auto simp: no_space_unit list_all_iff)

lemma no_space_formula: "wf_formula f \<Longrightarrow> removeWhitespaces (print_formula f) = print_formula f"
  unfolding print_formula_def
  by (intro no_space_join) (auto simp: no_space_conj list_all_iff wf_formula_def)

definition agrees :: "(string \<Rightarrow> bool option) \<Rightarrow> bunit list list \<Rightarrow> bool_error + bool \<Rightarrow> bool" where
  "agrees val f r =
     (if vars_formula f \<subseteq> dom val then r = Inr (eval_formula (\<lambda>x. the (val x)) f) else \<exists>e. r = Inl e)"

lemma combine_agrees:
  assumes "\<And>x. x \<in> set xs \<Longrightarrow> agrees val (F x) (R x)"
  shows "if (\<Union>x\<in>set xs. vars_formula (F x)) \<subseteq> dom val
    then combine f acc (map R xs) = Inr (foldl f acc (map (\<lambda>x. eval_formula (\<lambda>x. the (val x)) (F x)) xs))
    else \<exists>e. combine f acc (map R xs) = Inl e"
proof (cases "(\<Union>x\<in>set xs. vars_formula (F x)) \<subseteq> dom val")
  case True
  have "R x = Inr (eval_formula (\<lambda>x. the (val x)) (F x))" if "x \<in> set xs" for x
  proof -
    have "vars_formula (F x) \<subseteq> dom val" using True that by blast
    then show ?thesis using assms[OF that] by (simp add: agrees_def)
  qed
  then have "map R xs = map Inr (map (\<lambda>x. eval_formula (\<lambda>x. the (val x)) (F x)) xs)" by simp
  then show ?thesis using True combine_Inr by metis
next
  case False
  then obtain x where x: "x \<in> set xs" "\<not> vars_formula (F x) \<subseteq> dom val" by blast
  then obtain e where "R x = Inl e" using assms[of x] by (auto simp: agrees_def)
  then have "Inl e \<in> set (map R xs)" using x(1) by (metis imageI list.set_map)
  with False combine_Inl[of e "map R xs" f acc] show ?thesis by auto
qed

lemma vars_formula_units: "vars_formula f = (\<Union>us\<in>set f. vars_formula [us])"
  by (simp add: vars_formula_def)

lemma vars_conj_units: "vars_formula [us] = (\<Union>u\<in>set us. vars_formula [[u]])"
  by (simp add: vars_formula_def)

lemma print_unit_nonempty: "wf_unit u \<Longrightarrow> print_unit u \<noteq> []"
  using segment_unit[of u] by (auto simp: segment_def)

lemma print_conj_nonempty: "us \<noteq> [] \<Longrightarrow> list_all wf_unit us \<Longrightarrow> print_conj us \<noteq> []"
  using segment_conj[of us] by (auto simp: segment_def)

lemma length_join_less: "2 \<le> length xs \<Longrightarrow> x \<in> set xs \<Longrightarrow> length x < length (join [c] xs)"
proof (induction xs)
  case (Cons y ys)
  then obtain z zs where ys: "ys = z # zs" by (cases ys) auto
  show ?case
  proof (cases "2 \<le> length ys")
    case True
    with Cons ys show ?thesis by auto
  next
    case False
    then have "zs = []" using ys by (cases zs) auto
    with Cons.prems ys show ?thesis by auto
  qed
qed simp

lemma singleParse_formula:
  assumes "wf_formula f"
  shows "singleParse (print_formula f) (CHR ''|'') = Inr (map print_conj f)"
proof -
  have f: "f \<noteq> []" "\<And>us. us \<in> set f \<Longrightarrow> us \<noteq> [] \<and> list_all wf_unit us"
    using assms by (auto simp: wf_formula_def list_all_iff)
  have "segment (CHR ''|'') s" if "s \<in> set (map print_conj f)" for s
    using that f(2) by (auto intro!: segment_conj)
  then show ?thesis unfolding print_formula_def by (intro singleParse_join) (use f(1) in auto)
qed

lemma singleParse_conj:
  assumes "us \<noteq> []" "list_all wf_unit us"
  shows "singleParse (print_conj us) (CHR ''&'') = Inr (map print_unit us)"
proof -
  have "segment (CHR ''&'') s" if "s \<in> set (map print_unit us)" for s
    using that assms(2) by (auto intro!: segment_unit simp: list_all_iff)
  then show ?thesis unfolding print_conj_def by (intro singleParse_join) (use assms(1) in auto)
qed

lemma print_formula_single [simp]: "print_formula [us] = print_conj us" "print_conj [u] = print_unit u"
  by (simp_all add: print_formula_def print_conj_def)

lemma resolveRec_disj:
  assumes wf: "wf_formula f" and two: "2 \<le> length f"
    and IH: "\<And>g. length (print_formula g) < length (print_formula f) \<Longrightarrow> wf_formula g
      \<Longrightarrow> agrees val g (resolveRec (print_formula g) val)"
  shows "agrees val f (resolveRec (print_formula f) val)"
proof -
  have f: "f \<noteq> []" "\<And>us. us \<in> set f \<Longrightarrow> us \<noteq> [] \<and> list_all wf_unit us"
    using wf by (auto simp: wf_formula_def list_all_iff)
  have step: "agrees val [us] (resolveRec (removeWhitespaces (print_conj us)) val)" if "us \<in> set f" for us
  proof -
    have "length (print_conj us) < length (print_formula f)"
      unfolding print_formula_def by (rule length_join_less) (use two that in auto)
    then show ?thesis
      using IH[of "[us]"] f(2)[OF that] no_space_conj[of us] by (simp add: wf_formula_def)
  qed
  have ne: "print_formula f \<noteq> []"
    using length_join_less[of "map print_conj f" "print_conj (hd f)" "CHR ''|''"] two f(1)
    by (auto simp: print_formula_def)
  have eq: "resolveRec (print_formula f) val =
      combine (\<or>) False (map (\<lambda>us. resolveRec (removeWhitespaces (print_conj us)) val) f)"
    using ne singleParse_formula[OF wf] two by (subst resolveRec.simps) (simp add: comp_def)
  from combine_agrees[of f val "\<lambda>us. [us]" _ "(\<or>)" False, OF step]
  show ?thesis
    unfolding agrees_def eq vars_formula_units[of f] foldl_or by (simp add: eval_formula_def list_ex_iff)
qed

lemma resolveRec_conj:
  assumes us: "us \<noteq> []" "list_all wf_unit us" and two: "2 \<le> length us"
    and IH: "\<And>g. length (print_formula g) < length (print_conj us) \<Longrightarrow> wf_formula g
      \<Longrightarrow> agrees val g (resolveRec (print_formula g) val)"
  shows "agrees val [us] (resolveRec (print_conj us) val)"
proof -
  have step: "agrees val [[u]] (resolveRec (removeWhitespaces (print_unit u)) val)" if "u \<in> set us" for u
  proof -
    have "length (print_unit u) < length (print_conj us)"
      unfolding print_conj_def by (rule length_join_less) (use two that in auto)
    moreover have "wf_unit u" using us(2) that by (simp add: list_all_iff)
    ultimately show ?thesis using IH[of "[[u]]"] no_space_unit[of u] by (simp add: wf_formula_def)
  qed
  have "singleParse (print_conj us) (CHR ''|'') = Inr [print_conj us]"
    using singleParse_formula[of "[us]"] us by (simp add: wf_formula_def)
  then have eq: "resolveRec (print_conj us) val =
      combine (\<and>) True (map (\<lambda>u. resolveRec (removeWhitespaces (print_unit u)) val) us)"
    using print_conj_nonempty[OF us] singleParse_conj[OF us] two us(1)
    by (subst resolveRec.simps) (simp add: comp_def)
  from combine_agrees[of us val "\<lambda>u. [[u]]" _ "(\<and>)" True, OF step]
  show ?thesis
    unfolding agrees_def eq vars_conj_units[of us] foldl_and by (simp add: eval_formula_def list_all_iff)
qed

lemma resolveRec_unit:
  assumes wfu: "wf_unit u"
    and IH: "\<And>g. length (print_formula g) < length (print_unit u) \<Longrightarrow> wf_formula g
      \<Longrightarrow> agrees val g (resolveRec (print_formula g) val)"
  shows "agrees val [[u]] (resolveRec (print_unit u) val)"
proof -
  have P: "singleParse (print_unit u) (CHR ''|'') = Inr [print_unit u]"
      "singleParse (print_unit u) (CHR ''&'') = Inr [print_unit u]"
    using singleParse_formula[of "[[u]]"] singleParse_conj[of "[u]"] wfu by (simp_all add: wf_formula_def)
  note unf = resolveRec.simps[of "print_unit u" val, unfolded P, simplified]
  note defs = agrees_def vars_formula_def eval_formula_def
  show ?thesis
  proof (cases u)
    case (Lit b)
    then show ?thesis using unf by (simp add: defs)
  next
    case (Var x)
    then obtain c w where x: "x = c # w" "belongsToName c" using wfu by (cases x) auto
    then have "print_unit u \<noteq> []" "print_unit u ! 0 \<noteq> CHR ''!''" "print_unit u ! 0 \<noteq> CHR ''(''"
      using belongsToName_special[of c] Var by simp_all
    moreover have "print_unit u \<noteq> ''1''" "print_unit u \<noteq> ''0''" using wfu Var by simp_all
    ultimately have "resolveRec (print_unit u) val = (case val x of None \<Rightarrow> Inl VariableNotFound | Some b \<Rightarrow> Inr b)"
      using unf Var by simp
    then show ?thesis unfolding Var by (cases "val x") (simp_all add: defs domIff)
  next
    case (Neg w)
    have sub: "substr (print_unit u) 1 (length (print_unit u)) = print_unit w" by (simp add: Neg substr_def)
    have "agrees val [[w]] (resolveRec (print_unit w) val)"
      using IH[of "[[w]]"] wfu by (simp add: Neg wf_formula_def)
    moreover have "resolveRec (print_unit u) val =
        (case resolveRec (print_unit w) val of Inl e \<Rightarrow> Inl e | Inr b \<Rightarrow> Inr (\<not> b))"
      using unf sub wfu no_space_unit[of w] by (simp add: Neg)
    ultimately show ?thesis by (cases "vars_unit w \<subseteq> dom val") (auto simp: defs Neg)
  next
    case (Paren g)
    have wfg: "wf_formula g" using wfu by (simp add: Paren wf_formula_def)
    have sub: "substr (print_unit u) 1 (length (print_unit u) - 2) = print_formula g"
      unfolding Paren print_Paren by (simp add: substr_def)
    have "agrees val g (resolveRec (print_formula g) val)"
      using IH[of g] wfg by (simp add: Paren print_Paren del: print_unit.simps)
    moreover have "resolveRec (print_unit u) val = resolveRec (print_formula g) val"
    proof -
      have "print_unit u \<noteq> []" "print_unit u ! 0 = CHR ''(''" by (simp_all add: Paren)
      with unf sub no_space_formula[OF wfg] show ?thesis by simp
    qed
    moreover have "vars_formula [[u]] = vars_formula g" "eval_formula v [[u]] = eval_formula v g" for v
      by (simp_all add: Paren vars_formula_def eval_formula_def)
    ultimately show ?thesis by (simp only: agrees_def)
  qed
qed

lemma resolveRec_formula:
  "wf_formula f \<Longrightarrow> agrees val f (resolveRec (print_formula f) val)"
proof (induction "length (print_formula f)" arbitrary: f rule: less_induct)
  case less
  show ?case
  proof (cases "2 \<le> length f")
    case True
    with less show ?thesis by (blast intro: resolveRec_disj)
  next
    case False
    with less.prems obtain us where f: "f = [us]" "us \<noteq> []" "list_all wf_unit us"
      by (cases f rule: remdups_adj.cases) (auto simp: wf_formula_def)
    show ?thesis
    proof (cases "2 \<le> length us")
      case True
      with resolveRec_conj[OF f(2,3) True, of val] less.hyps f(1) show ?thesis by simp
    next
      case False
      with f(2,3) obtain u where u: "us = [u]" "wf_unit u" by (cases us rule: remdups_adj.cases) auto
      with resolveRec_unit[OF u(2), of val] less.hyps f(1) show ?thesis by simp
    qed
  qed
qed

text \<open>C18. Evaluation of restricted-asset verifier strings. For every well-formed formula (disjunctions of
  conjunctions of constants, names, negations and parenthesised formulas, with the usual priorities) and every string
  that is the printed formula up to white space, \<open>resolve\<close> returns the truth value of the formula exactly when the
  valuation has all of its names, and otherwise it throws: a name that is missing is an error even where the value of
  the formula is already decided.\<close>

theorem resolve_print:
  assumes "wf_formula f" "removeWhitespaces s = print_formula f"
  shows "(vars_formula f \<subseteq> dom val \<longrightarrow> resolve s val = Inr (eval_formula (\<lambda>x. the (val x)) f))
    \<and> (\<not> vars_formula f \<subseteq> dom val \<longrightarrow> (\<exists>e. resolve s val = Inl e))"
  using resolveRec_formula[OF assms(1), of val] assms(2) unfolding resolve_def agrees_def by auto

theorem resolve_print_witness:
  "resolve ''#KYC & !(#BAN | 0)'' [''#KYC'' \<mapsto> True, ''#BAN'' \<mapsto> False] = Inr True
    \<and> (\<exists>e. resolve ''#KYC & !(#BAN | 0)'' [''#KYC'' \<mapsto> False] = Inl e)"
proof -
  let ?f = "[[Var ''#KYC'', Neg (Paren [[Var ''#BAN''], [Lit False]])]]"
  have wf: "wf_formula ?f" by (simp add: wf_formula_def belongsToName_def isalnum_def)
  have pr: "removeWhitespaces ''#KYC & !(#BAN | 0)'' = print_formula ?f"
    by (simp add: removeWhitespaces_def isspace_def print_formula_def print_conj_def)
  have v: "vars_formula ?f = {''#KYC'', ''#BAN''}" by (auto simp: vars_formula_def)
  show ?thesis
    using resolve_print[OF wf pr, of "[''#KYC'' \<mapsto> True, ''#BAN'' \<mapsto> False]"]
      resolve_print[OF wf pr, of "[''#KYC'' \<mapsto> False]"]
    unfolding v by (simp add: eval_formula_def)
qed

text \<open>The scan accepts more than the grammar that \<open>LibBoolEE.h\<close> documents ("nothing else is a formula"): an
  operator, or any other character that is no part of a name, is skipped as long as no subexpression has started, so
  that \<open>|a|b\<close> and \<open>$a|b\<close> evaluate like \<open>a|b\<close>, while the same character after a name is an error (reported as an empty subexpression).\<close>

theorem resolve_leading_garbage:
  "resolve ''|a|b'' [''a'' \<mapsto> False, ''b'' \<mapsto> True] = Inr True
   \<and> resolve ''$a|b'' [''a'' \<mapsto> False, ''b'' \<mapsto> True] = Inr True
   \<and> resolve ''a$|b'' [''a'' \<mapsto> False, ''b'' \<mapsto> True] = Inl EmptySubExpression"
  unfolding resolve_def by (intro conjI; code_simp)

end
