(* ===== verification/Script.thy ===== *)
theory Script
  imports Prelude
begin

text \<open>
  Scripts: \<^verbatim>\<open>src/src/script/script.h\<close> and \<^verbatim>\<open>src/src/script/script.cpp\<close>. A script is its list of bytes and an
  iterator into it is the rest of the script from its position, so that \<open>end()\<close> is the empty list. An operation that
  moves an iterator returns it. An \<open>opcodetype\<close> is its number.

  The theory has the opcodes, \<open>CScriptNum\<close>, appending to and reading from scripts, \<open>FindAndDelete\<close>, the script
  templates that consensus code tests for, and the counting of signature operations.
\<close>

type_synonym valtype = bytes
type_synonym script = bytes
type_synonym opcodetype = nat

subsection \<open>Opcodes\<close>

abbreviation (input) OP_0 :: opcodetype where "OP_0 \<equiv> 0"
abbreviation (input) OP_FALSE :: opcodetype where "OP_FALSE \<equiv> OP_0"
abbreviation (input) OP_PUSHDATA1 :: opcodetype where "OP_PUSHDATA1 \<equiv> 76"
abbreviation (input) OP_PUSHDATA2 :: opcodetype where "OP_PUSHDATA2 \<equiv> 77"
abbreviation (input) OP_PUSHDATA4 :: opcodetype where "OP_PUSHDATA4 \<equiv> 78"
abbreviation (input) OP_1NEGATE :: opcodetype where "OP_1NEGATE \<equiv> 79"
abbreviation (input) OP_RESERVED :: opcodetype where "OP_RESERVED \<equiv> 80"
abbreviation (input) OP_1 :: opcodetype where "OP_1 \<equiv> 81"
abbreviation (input) OP_TRUE :: opcodetype where "OP_TRUE \<equiv> OP_1"
abbreviation (input) OP_2 :: opcodetype where "OP_2 \<equiv> 82"
abbreviation (input) OP_3 :: opcodetype where "OP_3 \<equiv> 83"
abbreviation (input) OP_4 :: opcodetype where "OP_4 \<equiv> 84"
abbreviation (input) OP_5 :: opcodetype where "OP_5 \<equiv> 85"
abbreviation (input) OP_6 :: opcodetype where "OP_6 \<equiv> 86"
abbreviation (input) OP_7 :: opcodetype where "OP_7 \<equiv> 87"
abbreviation (input) OP_8 :: opcodetype where "OP_8 \<equiv> 88"
abbreviation (input) OP_9 :: opcodetype where "OP_9 \<equiv> 89"
abbreviation (input) OP_10 :: opcodetype where "OP_10 \<equiv> 90"
abbreviation (input) OP_11 :: opcodetype where "OP_11 \<equiv> 91"
abbreviation (input) OP_12 :: opcodetype where "OP_12 \<equiv> 92"
abbreviation (input) OP_13 :: opcodetype where "OP_13 \<equiv> 93"
abbreviation (input) OP_14 :: opcodetype where "OP_14 \<equiv> 94"
abbreviation (input) OP_15 :: opcodetype where "OP_15 \<equiv> 95"
abbreviation (input) OP_16 :: opcodetype where "OP_16 \<equiv> 96"
abbreviation (input) OP_NOP :: opcodetype where "OP_NOP \<equiv> 97"
abbreviation (input) OP_VER :: opcodetype where "OP_VER \<equiv> 98"
abbreviation (input) OP_IF :: opcodetype where "OP_IF \<equiv> 99"
abbreviation (input) OP_NOTIF :: opcodetype where "OP_NOTIF \<equiv> 100"
abbreviation (input) OP_VERIF :: opcodetype where "OP_VERIF \<equiv> 101"
abbreviation (input) OP_VERNOTIF :: opcodetype where "OP_VERNOTIF \<equiv> 102"
abbreviation (input) OP_ELSE :: opcodetype where "OP_ELSE \<equiv> 103"
abbreviation (input) OP_ENDIF :: opcodetype where "OP_ENDIF \<equiv> 104"
abbreviation (input) OP_VERIFY :: opcodetype where "OP_VERIFY \<equiv> 105"
abbreviation (input) OP_RETURN :: opcodetype where "OP_RETURN \<equiv> 106"
abbreviation (input) OP_TOALTSTACK :: opcodetype where "OP_TOALTSTACK \<equiv> 107"
abbreviation (input) OP_FROMALTSTACK :: opcodetype where "OP_FROMALTSTACK \<equiv> 108"
abbreviation (input) OP_2DROP :: opcodetype where "OP_2DROP \<equiv> 109"
abbreviation (input) OP_2DUP :: opcodetype where "OP_2DUP \<equiv> 110"
abbreviation (input) OP_3DUP :: opcodetype where "OP_3DUP \<equiv> 111"
abbreviation (input) OP_2OVER :: opcodetype where "OP_2OVER \<equiv> 112"
abbreviation (input) OP_2ROT :: opcodetype where "OP_2ROT \<equiv> 113"
abbreviation (input) OP_2SWAP :: opcodetype where "OP_2SWAP \<equiv> 114"
abbreviation (input) OP_IFDUP :: opcodetype where "OP_IFDUP \<equiv> 115"
abbreviation (input) OP_DEPTH :: opcodetype where "OP_DEPTH \<equiv> 116"
abbreviation (input) OP_DROP :: opcodetype where "OP_DROP \<equiv> 117"
abbreviation (input) OP_DUP :: opcodetype where "OP_DUP \<equiv> 118"
abbreviation (input) OP_NIP :: opcodetype where "OP_NIP \<equiv> 119"
abbreviation (input) OP_OVER :: opcodetype where "OP_OVER \<equiv> 120"
abbreviation (input) OP_PICK :: opcodetype where "OP_PICK \<equiv> 121"
abbreviation (input) OP_ROLL :: opcodetype where "OP_ROLL \<equiv> 122"
abbreviation (input) OP_ROT :: opcodetype where "OP_ROT \<equiv> 123"
abbreviation (input) OP_SWAP :: opcodetype where "OP_SWAP \<equiv> 124"
abbreviation (input) OP_TUCK :: opcodetype where "OP_TUCK \<equiv> 125"
abbreviation (input) OP_CAT :: opcodetype where "OP_CAT \<equiv> 126"
abbreviation (input) OP_SUBSTR :: opcodetype where "OP_SUBSTR \<equiv> 127"
abbreviation (input) OP_LEFT :: opcodetype where "OP_LEFT \<equiv> 128"
abbreviation (input) OP_RIGHT :: opcodetype where "OP_RIGHT \<equiv> 129"
abbreviation (input) OP_SIZE :: opcodetype where "OP_SIZE \<equiv> 130"
abbreviation (input) OP_INVERT :: opcodetype where "OP_INVERT \<equiv> 131"
abbreviation (input) OP_AND :: opcodetype where "OP_AND \<equiv> 132"
abbreviation (input) OP_OR :: opcodetype where "OP_OR \<equiv> 133"
abbreviation (input) OP_XOR :: opcodetype where "OP_XOR \<equiv> 134"
abbreviation (input) OP_EQUAL :: opcodetype where "OP_EQUAL \<equiv> 135"
abbreviation (input) OP_EQUALVERIFY :: opcodetype where "OP_EQUALVERIFY \<equiv> 136"
abbreviation (input) OP_RESERVED1 :: opcodetype where "OP_RESERVED1 \<equiv> 137"
abbreviation (input) OP_RESERVED2 :: opcodetype where "OP_RESERVED2 \<equiv> 138"
abbreviation (input) OP_1ADD :: opcodetype where "OP_1ADD \<equiv> 139"
abbreviation (input) OP_1SUB :: opcodetype where "OP_1SUB \<equiv> 140"
abbreviation (input) OP_2MUL :: opcodetype where "OP_2MUL \<equiv> 141"
abbreviation (input) OP_2DIV :: opcodetype where "OP_2DIV \<equiv> 142"
abbreviation (input) OP_NEGATE :: opcodetype where "OP_NEGATE \<equiv> 143"
abbreviation (input) OP_ABS :: opcodetype where "OP_ABS \<equiv> 144"
abbreviation (input) OP_NOT :: opcodetype where "OP_NOT \<equiv> 145"
abbreviation (input) OP_0NOTEQUAL :: opcodetype where "OP_0NOTEQUAL \<equiv> 146"
abbreviation (input) OP_ADD :: opcodetype where "OP_ADD \<equiv> 147"
abbreviation (input) OP_SUB :: opcodetype where "OP_SUB \<equiv> 148"
abbreviation (input) OP_MUL :: opcodetype where "OP_MUL \<equiv> 149"
abbreviation (input) OP_DIV :: opcodetype where "OP_DIV \<equiv> 150"
abbreviation (input) OP_MOD :: opcodetype where "OP_MOD \<equiv> 151"
abbreviation (input) OP_LSHIFT :: opcodetype where "OP_LSHIFT \<equiv> 152"
abbreviation (input) OP_RSHIFT :: opcodetype where "OP_RSHIFT \<equiv> 153"
abbreviation (input) OP_BOOLAND :: opcodetype where "OP_BOOLAND \<equiv> 154"
abbreviation (input) OP_BOOLOR :: opcodetype where "OP_BOOLOR \<equiv> 155"
abbreviation (input) OP_NUMEQUAL :: opcodetype where "OP_NUMEQUAL \<equiv> 156"
abbreviation (input) OP_NUMEQUALVERIFY :: opcodetype where "OP_NUMEQUALVERIFY \<equiv> 157"
abbreviation (input) OP_NUMNOTEQUAL :: opcodetype where "OP_NUMNOTEQUAL \<equiv> 158"
abbreviation (input) OP_LESSTHAN :: opcodetype where "OP_LESSTHAN \<equiv> 159"
abbreviation (input) OP_GREATERTHAN :: opcodetype where "OP_GREATERTHAN \<equiv> 160"
abbreviation (input) OP_LESSTHANOREQUAL :: opcodetype where "OP_LESSTHANOREQUAL \<equiv> 161"
abbreviation (input) OP_GREATERTHANOREQUAL :: opcodetype where "OP_GREATERTHANOREQUAL \<equiv> 162"
abbreviation (input) OP_MIN :: opcodetype where "OP_MIN \<equiv> 163"
abbreviation (input) OP_MAX :: opcodetype where "OP_MAX \<equiv> 164"
abbreviation (input) OP_WITHIN :: opcodetype where "OP_WITHIN \<equiv> 165"
abbreviation (input) OP_RIPEMD160 :: opcodetype where "OP_RIPEMD160 \<equiv> 166"
abbreviation (input) OP_SHA1 :: opcodetype where "OP_SHA1 \<equiv> 167"
abbreviation (input) OP_SHA256 :: opcodetype where "OP_SHA256 \<equiv> 168"
abbreviation (input) OP_HASH160 :: opcodetype where "OP_HASH160 \<equiv> 169"
abbreviation (input) OP_HASH256 :: opcodetype where "OP_HASH256 \<equiv> 170"
abbreviation (input) OP_CODESEPARATOR :: opcodetype where "OP_CODESEPARATOR \<equiv> 171"
abbreviation (input) OP_CHECKSIG :: opcodetype where "OP_CHECKSIG \<equiv> 172"
abbreviation (input) OP_CHECKSIGVERIFY :: opcodetype where "OP_CHECKSIGVERIFY \<equiv> 173"
abbreviation (input) OP_CHECKMULTISIG :: opcodetype where "OP_CHECKMULTISIG \<equiv> 174"
abbreviation (input) OP_CHECKMULTISIGVERIFY :: opcodetype where "OP_CHECKMULTISIGVERIFY \<equiv> 175"
abbreviation (input) OP_NOP1 :: opcodetype where "OP_NOP1 \<equiv> 176"
abbreviation (input) OP_CHECKLOCKTIMEVERIFY :: opcodetype where "OP_CHECKLOCKTIMEVERIFY \<equiv> 177"
abbreviation (input) OP_NOP2 :: opcodetype where "OP_NOP2 \<equiv> OP_CHECKLOCKTIMEVERIFY"
abbreviation (input) OP_CHECKSEQUENCEVERIFY :: opcodetype where "OP_CHECKSEQUENCEVERIFY \<equiv> 178"
abbreviation (input) OP_NOP3 :: opcodetype where "OP_NOP3 \<equiv> OP_CHECKSEQUENCEVERIFY"
abbreviation (input) OP_NOP4 :: opcodetype where "OP_NOP4 \<equiv> 179"
abbreviation (input) OP_NOP5 :: opcodetype where "OP_NOP5 \<equiv> 180"
abbreviation (input) OP_NOP6 :: opcodetype where "OP_NOP6 \<equiv> 181"
abbreviation (input) OP_NOP7 :: opcodetype where "OP_NOP7 \<equiv> 182"
abbreviation (input) OP_NOP8 :: opcodetype where "OP_NOP8 \<equiv> 183"
abbreviation (input) OP_NOP9 :: opcodetype where "OP_NOP9 \<equiv> 184"
abbreviation (input) OP_NOP10 :: opcodetype where "OP_NOP10 \<equiv> 185"
abbreviation (input) OP_HNB_ASSET :: opcodetype where "OP_HNB_ASSET \<equiv> 192"
abbreviation (input) OP_SMALLINTEGER :: opcodetype where "OP_SMALLINTEGER \<equiv> 250"
abbreviation (input) OP_PUBKEYS :: opcodetype where "OP_PUBKEYS \<equiv> 251"
abbreviation (input) OP_PUBKEYHASH :: opcodetype where "OP_PUBKEYHASH \<equiv> 253"
abbreviation (input) OP_PUBKEY :: opcodetype where "OP_PUBKEY \<equiv> 254"
abbreviation (input) OP_INVALIDOPCODE :: opcodetype where "OP_INVALIDOPCODE \<equiv> 255"

abbreviation (input) MAX_SCRIPT_ELEMENT_SIZE :: nat where "MAX_SCRIPT_ELEMENT_SIZE \<equiv> 520"
abbreviation (input) MAX_OPS_PER_SCRIPT :: int where "MAX_OPS_PER_SCRIPT \<equiv> 201"
abbreviation (input) MAX_PUBKEYS_PER_MULTISIG :: int where "MAX_PUBKEYS_PER_MULTISIG \<equiv> 20"
abbreviation (input) MAX_SCRIPT_SIZE :: nat where "MAX_SCRIPT_SIZE \<equiv> 10000"
abbreviation (input) MAX_STACK_SIZE :: nat where "MAX_STACK_SIZE \<equiv> 1000"
abbreviation (input) LOCKTIME_THRESHOLD :: nat where "LOCKTIME_THRESHOLD \<equiv> 500000000"
abbreviation (input) MAX_OPCODE :: opcodetype where "MAX_OPCODE \<equiv> OP_NOP10"

subsection \<open>Script numbers\<close>

text \<open>The value of a \<open>CScriptNum\<close> is an \<open>int64_t\<close>, here an integer; \<open>serialize\<close> and \<open>set_vch\<close> compute in 64 bits as the code does.
  For a string of more than eight bytes the shift in \<open>set_vch\<close> is by the width or more, which C++ leaves undefined, and the
  model has no meaning there; every caller limits the size to four or five. \<open>None\<close> is a thrown \<open>scriptnum_error\<close>.\<close>

fun abs_bytes :: "nat \<Rightarrow> bytes" where
  "abs_bytes absvalue = (if absvalue = 0 then [] else of_nat absvalue # abs_bytes (absvalue div 256))"

declare abs_bytes.simps [simp del]

definition serialize :: "int \<Rightarrow> bytes" where
  "serialize value =
     (if value = 0 then []
      else
        let neg = value < 0; absvalue = (word_of_int (if neg then - value else value) :: u64); result = abs_bytes (unat absvalue) in
        if last result AND 0x80 \<noteq> 0 then result @ [if neg then 0x80 else 0]
        else if neg then butlast result @ [last result OR 0x80]
        else result)"

fun vch_bits :: "nat \<Rightarrow> bytes \<Rightarrow> u64" where
  "vch_bits i [] = 0"
| "vch_bits i (b # vch) = push_bit (8 * i) (ucast b) OR vch_bits (i + 1) vch"

definition set_vch :: "bytes \<Rightarrow> int" where
  "set_vch vch =
     (if vch = [] then 0
      else
        let result = vch_bits 0 vch in
        if last vch AND 0x80 \<noteq> 0 then - sint (result AND NOT (push_bit (8 * (length vch - 1)) 0x80))
        else sint result)"

definition CScriptNum :: "bytes \<Rightarrow> bool \<Rightarrow> nat \<Rightarrow> int option" where
  "CScriptNum vch fRequireMinimal nMaxNumSize =
     (if nMaxNumSize < length vch then None
      else if fRequireMinimal \<and> 0 < length vch \<and> last vch AND 0x7f = 0
        \<and> (length vch \<le> 1 \<or> (vch ! (length vch - 2)) AND 0x80 = 0) then None
      else Some (set_vch vch))"

definition getint :: "int \<Rightarrow> int" where
  "getint m_value = (if 2 ^ 31 - 1 < m_value then 2 ^ 31 - 1 else if m_value < - (2 ^ 31) then - (2 ^ 31) else m_value)"

subsection \<open>Appending to a script\<close>

definition WriteLE16 :: "u16 \<Rightarrow> bytes" where
  "WriteLE16 x = [ucast x, ucast (drop_bit 8 x)]"

definition ReadLE16 :: "bytes \<Rightarrow> u16" where
  "ReadLE16 p = ucast (p ! 0) OR push_bit 8 (ucast (p ! 1))"

definition push_opcode :: "script \<Rightarrow> opcodetype \<Rightarrow> script" where
  "push_opcode s opcode = s @ [of_nat opcode]"

definition push_vch :: "script \<Rightarrow> bytes \<Rightarrow> script" where
  "push_vch s b =
     (if length b < OP_PUSHDATA1 then s @ [of_nat (length b)]
      else if length b \<le> 0xff then s @ [of_nat OP_PUSHDATA1, of_nat (length b)]
      else if length b \<le> 0xffff then s @ [of_nat OP_PUSHDATA2] @ WriteLE16 (of_nat (length b))
      else s @ [of_nat OP_PUSHDATA4] @ WriteLE32 (of_nat (length b))) @ b"

definition push_int64 :: "script \<Rightarrow> int \<Rightarrow> script" where
  "push_int64 s n =
     (if n = -1 \<or> (n \<ge> 1 \<and> n \<le> 16) then s @ [of_int (n + (int OP_1 - 1))]
      else if n = 0 then s @ [of_nat OP_0]
      else push_vch s (serialize n))"

subsection \<open>Reading a script\<close>

text \<open>The size of an immediate operand and the iterator behind it; \<open>None\<close> when the script ends before.\<close>

definition push_size :: "opcodetype \<Rightarrow> script \<Rightarrow> (nat \<times> script) option" where
  "push_size opcode pc =
     (if opcode < OP_PUSHDATA1 then Some (opcode, pc)
      else if opcode = OP_PUSHDATA1 then
        (if length pc < 1 then None else Some (unat (hd pc), tl pc))
      else if opcode = OP_PUSHDATA2 then
        (if length pc < 2 then None else Some (unat (ReadLE16 pc), drop 2 pc))
      else
        (if length pc < 4 then None else Some (unat (ReadLE32 pc), drop 4 pc)))"

text \<open>\<open>GetOp2\<close>: success, the iterator after the call, the opcode and its data.\<close>

fun GetOp2 :: "script \<Rightarrow> bool \<times> script \<times> opcodetype \<times> bytes" where
  "GetOp2 [] = (False, [], OP_INVALIDOPCODE, [])"
| "GetOp2 (b # pc) =
     (let opcode = unat b in
      if opcode \<le> OP_PUSHDATA4 then
        (case push_size opcode pc of
           None \<Rightarrow> (False, pc, OP_INVALIDOPCODE, [])
         | Some (nSize, pc') \<Rightarrow>
             if length pc' < nSize then (False, pc', OP_INVALIDOPCODE, [])
             else (True, drop nSize pc', opcode, take nSize pc'))
      else if opcode = OP_HNB_ASSET then (True, [], opcode, pc)
      else (True, pc, opcode, []))"

text \<open>The code asserts that the argument is a small-number opcode, or a number up to sixteen. The callers of \<open>DecodeOP_N\<close> test
  that first; a multisignature script is built for at most sixteen keys.\<close>

definition DecodeOP_N :: "opcodetype \<Rightarrow> int" where
  "DecodeOP_N opcode = (if opcode = OP_0 then 0 else int opcode - (int OP_1 - 1))"

definition EncodeOP_N :: "int \<Rightarrow> opcodetype" where
  "EncodeOP_N n = (if n = 0 then OP_0 else nat (int OP_1 + n - 1))"

lemma push_size_shorter: "push_size opcode pc = Some (n, pc') \<Longrightarrow> length pc' \<le> length pc"
  by (auto simp: push_size_def split: if_splits)

lemma GetOp2_shorter: "pc \<noteq> [] \<Longrightarrow> length (fst (snd (GetOp2 pc))) < length pc"
  by (cases pc) (auto simp: Let_def dest: push_size_shorter split: option.splits)

lemma GetOp2_shorter': "GetOp2 pc = (True, pc', opcode, vch) \<Longrightarrow> length pc' < length pc"
  using GetOp2_shorter[of pc] by (cases "pc = []") auto

subsection \<open>Removing occurrences\<close>

text \<open>\<open>skip_matches\<close> is the inner loop, which moves \<open>pc\<close> over copies of \<open>b\<close>; \<open>delete_loop\<close> the outer one.\<close>

function skip_matches :: "script \<Rightarrow> script \<Rightarrow> nat \<Rightarrow> script \<times> nat" where
  "skip_matches b pc nFound =
     (if b \<noteq> [] \<and> length b \<le> length pc \<and> take (length b) pc = b
      then skip_matches b (drop (length b) pc) (nFound + 1)
      else (pc, nFound))"
  by pat_completeness auto
termination by (relation "measure (\<lambda>(b, pc, n). length pc)")
    (auto intro!: diff_less simp: le_eq_less_or_eq)

declare skip_matches.simps [simp del]

lemma skip_matches_shorter: "length (fst (skip_matches b pc n)) \<le> length pc"
  by (induction b pc n rule: skip_matches.induct) (subst skip_matches.simps, auto)

function delete_loop :: "script \<Rightarrow> script \<Rightarrow> script \<Rightarrow> script \<Rightarrow> nat \<Rightarrow> script \<times> nat \<times> script" where
  "delete_loop b pc2 pc result nFound =
     (let result = result @ take (length pc2 - length pc) pc2;
          (pc, nFound) = skip_matches b pc nFound in
      case GetOp2 pc of
        (fRet, pc', opcode, vch) \<Rightarrow>
          if fRet then delete_loop b pc pc' result nFound else (result, nFound, pc))"
  by pat_completeness auto
termination
proof (relation "measure (\<lambda>(b, pc2, pc, result, n). length pc)", goal_cases)
  case (2 b pc2 pc result n result1 u pc1 n1 fRet v pc' w opcode vch)
  then have "length pc' < length pc1" "length pc1 \<le> length pc"
    using GetOp2_shorter'[of pc1 pc' opcode vch] skip_matches_shorter[of b pc n] by (metis, metis fst_conv)
  then show ?case by simp
qed simp

declare delete_loop.simps [simp del]

definition FindAndDelete :: "script \<Rightarrow> script \<Rightarrow> nat \<times> script" where
  "FindAndDelete s b =
     (if b = [] then (0, s)
      else case delete_loop b s s [] 0 of
        (result, nFound, pc2) \<Rightarrow> if 0 < nFound then (nFound, result @ pc2) else (nFound, s))"

subsection \<open>Counting signature operations\<close>

definition sigop_inc :: "bool \<Rightarrow> opcodetype \<Rightarrow> opcodetype \<Rightarrow> nat" where
  "sigop_inc fAccurate lastOpcode opcode =
     (if opcode = OP_CHECKSIG \<or> opcode = OP_CHECKSIGVERIFY then 1
      else if opcode = OP_CHECKMULTISIG \<or> opcode = OP_CHECKMULTISIGVERIFY then
        (if fAccurate \<and> OP_1 \<le> lastOpcode \<and> lastOpcode \<le> OP_16 then nat (DecodeOP_N lastOpcode)
         else nat MAX_PUBKEYS_PER_MULTISIG)
      else 0)"

function sigop_loop :: "bool \<Rightarrow> script \<Rightarrow> opcodetype \<Rightarrow> nat \<Rightarrow> nat" where
  "sigop_loop fAccurate pc lastOpcode n =
     (case GetOp2 pc of
        (fRet, pc', opcode, vch) \<Rightarrow>
          if \<not> fRet then n else sigop_loop fAccurate pc' opcode (n + sigop_inc fAccurate lastOpcode opcode))"
  by pat_completeness auto
termination
  by (relation "measure (\<lambda>(a, pc, l, n). length pc)") (auto dest: GetOp2_shorter'[OF sym])

declare sigop_loop.simps [simp del]

definition GetSigOpCount :: "bool \<Rightarrow> script \<Rightarrow> nat" where
  "GetSigOpCount fAccurate s = sigop_loop fAccurate s OP_INVALIDOPCODE 0"

definition IsPayToPublicKeyHash :: "script \<Rightarrow> bool" where
  "IsPayToPublicKeyHash s =
     (length s = 25 \<and> s ! 0 = of_nat OP_DUP \<and> s ! 1 = of_nat OP_HASH160 \<and> s ! 2 = 0x14
      \<and> s ! 23 = of_nat OP_EQUALVERIFY \<and> s ! 24 = of_nat OP_CHECKSIG)"

definition IsPayToScriptHash :: "script \<Rightarrow> bool" where
  "IsPayToScriptHash s =
     (length s = 23 \<and> s ! 0 = of_nat OP_HASH160 \<and> s ! 1 = 0x14 \<and> s ! 22 = of_nat OP_EQUAL)"

text \<open>The last item that a \<open>scriptSig\<close> pushes; \<open>None\<close> where the loop returns 0.\<close>

function last_push :: "script \<Rightarrow> bytes \<Rightarrow> bytes option" where
  "last_push pc vData =
     (if pc = [] then Some vData
      else case GetOp2 pc of
        (fRet, pc', opcode, vch) \<Rightarrow> if \<not> fRet \<or> OP_16 < opcode then None else last_push pc' vch)"
  by pat_completeness auto
termination
  by (relation "measure (\<lambda>(pc, v). length pc)") (auto dest: GetOp2_shorter'[OF sym])

declare last_push.simps [simp del]

definition GetSigOpCount_p2sh :: "script \<Rightarrow> script \<Rightarrow> nat" where
  "GetSigOpCount_p2sh s scriptSig =
     (if \<not> IsPayToScriptHash s then GetSigOpCount True s
      else case last_push scriptSig [] of
        None \<Rightarrow> 0
      | Some vData \<Rightarrow> GetSigOpCount True vData)"

subsection \<open>Script templates\<close>

abbreviation (input) HNB_R :: u8 where "HNB_R \<equiv> 114"
abbreviation (input) HNB_V :: u8 where "HNB_V \<equiv> 118"
abbreviation (input) HNB_N :: u8 where "HNB_N \<equiv> 110"
abbreviation (input) HNB_Q :: u8 where "HNB_Q \<equiv> 113"
abbreviation (input) HNB_T :: u8 where "HNB_T \<equiv> 116"
abbreviation (input) HNB_O :: u8 where "HNB_O \<equiv> 111"

datatype asset_type = TX_NEW_ASSET | TX_REISSUE_ASSET | TX_TRANSFER_ASSET

text \<open>The type, whether it is an owner asset, and the index where the asset data begins; \<open>None\<close> when the script is no
  asset script. The callers initialise \<open>fIsOwner\<close> to false.\<close>

definition asset_index :: "script \<Rightarrow> nat option" where
  "asset_index s =
     (if s ! 27 = HNB_R then (if s ! 28 = HNB_V \<and> s ! 29 = HNB_N then Some 30 else None)
      else if s ! 28 = HNB_R \<and> s ! 29 = HNB_V \<and> s ! 30 = HNB_N then Some 31 else None)"

definition IsAssetScript :: "script \<Rightarrow> (asset_type \<times> bool \<times> nat) option" where
  "IsAssetScript s =
     (if 31 < length s \<and> s ! 25 = of_nat OP_HNB_ASSET then
        (case asset_index s of
           None \<Rightarrow> None
         | Some index \<Rightarrow>
             if s ! index = HNB_T then Some (TX_TRANSFER_ASSET, False, index + 1)
             else if s ! index = HNB_Q \<and> 39 < length s then Some (TX_NEW_ASSET, False, index + 1)
             else if s ! index = HNB_O then Some (TX_NEW_ASSET, True, index + 1)
             else if s ! index = HNB_R then Some (TX_REISSUE_ASSET, False, index + 1)
             else None)
      else None)"

definition IsNewAsset :: "script \<Rightarrow> bool" where
  "IsNewAsset s =
     (case IsAssetScript s of None \<Rightarrow> False | Some (nType, fIsOwner, _) \<Rightarrow> \<not> fIsOwner \<and> nType = TX_NEW_ASSET)"

definition IsOwnerAsset :: "script \<Rightarrow> bool" where
  "IsOwnerAsset s =
     (case IsAssetScript s of None \<Rightarrow> False | Some (nType, fIsOwner, _) \<Rightarrow> fIsOwner \<and> nType = TX_NEW_ASSET)"

definition IsReissueAsset :: "script \<Rightarrow> bool" where
  "IsReissueAsset s = (case IsAssetScript s of None \<Rightarrow> False | Some (nType, _, _) \<Rightarrow> nType = TX_REISSUE_ASSET)"

definition IsTransferAsset :: "script \<Rightarrow> bool" where
  "IsTransferAsset s = (case IsAssetScript s of None \<Rightarrow> False | Some (nType, _, _) \<Rightarrow> nType = TX_TRANSFER_ASSET)"

definition IsNullAssetTxDataScript :: "script \<Rightarrow> bool" where
  "IsNullAssetTxDataScript s = (23 < length s \<and> s ! 0 = of_nat OP_HNB_ASSET \<and> s ! 1 = 0x14)"

definition IsNullGlobalRestrictionAssetTxDataScript :: "script \<Rightarrow> bool" where
  "IsNullGlobalRestrictionAssetTxDataScript s =
     (6 < length s \<and> s ! 0 = of_nat OP_HNB_ASSET \<and> s ! 1 = of_nat OP_RESERVED \<and> s ! 2 = of_nat OP_RESERVED)"

definition IsNullAssetVerifierTxDataScript :: "script \<Rightarrow> bool" where
  "IsNullAssetVerifierTxDataScript s =
     (3 < length s \<and> s ! 0 = of_nat OP_HNB_ASSET \<and> s ! 1 = of_nat OP_RESERVED \<and> s ! 2 \<noteq> of_nat OP_RESERVED)"

definition IsNullAsset :: "script \<Rightarrow> bool" where
  "IsNullAsset s =
     (IsNullAssetTxDataScript s \<or> IsNullGlobalRestrictionAssetTxDataScript s \<or> IsNullAssetVerifierTxDataScript s)"

definition IsPayToWitnessScriptHash :: "script \<Rightarrow> bool" where
  "IsPayToWitnessScriptHash s = (length s = 34 \<and> s ! 0 = of_nat OP_0 \<and> s ! 1 = 0x20)"

definition IsWitnessProgram :: "script \<Rightarrow> (int \<times> bytes) option" where
  "IsWitnessProgram s =
     (if length s < 4 \<or> 42 < length s then None
      else if unat (s ! 0) \<noteq> OP_0 \<and> (unat (s ! 0) < OP_1 \<or> OP_16 < unat (s ! 0)) then None
      else if unat (s ! 1) + 2 = length s then Some (DecodeOP_N (unat (s ! 0)), drop 2 s)
      else None)"

definition IsPayToPublicKey :: "script \<Rightarrow> bool" where
  "IsPayToPublicKey s =
     (if length s = 35 then (s ! 1 = 0x02 \<or> s ! 1 = 0x03) \<and> s ! 34 = of_nat OP_CHECKSIG
      else if length s = 67 then s ! 1 = 0x04 \<and> s ! 66 = of_nat OP_CHECKSIG
      else False)"

function IsPushOnly :: "script \<Rightarrow> bool" where
  "IsPushOnly pc =
     (if pc = [] then True
      else case GetOp2 pc of (fRet, pc', opcode, vch) \<Rightarrow> if \<not> fRet \<or> OP_16 < opcode then False else IsPushOnly pc')"
  by pat_completeness auto
termination
  by (relation "measure length") (auto dest: GetOp2_shorter'[OF sym])

function HasValidOps :: "script \<Rightarrow> bool" where
  "HasValidOps pc =
     (if pc = [] then True
      else case GetOp2 pc of
        (fRet, pc', opcode, item) \<Rightarrow>
          if \<not> fRet \<or> MAX_OPCODE < opcode \<or> MAX_SCRIPT_ELEMENT_SIZE < length item then False
          else HasValidOps pc')"
  by pat_completeness auto
termination
  by (relation "measure length") (auto dest: GetOp2_shorter'[OF sym])

declare IsPushOnly.simps [simp del] HasValidOps.simps [simp del]

subsection \<open>Script numbers round-trip\<close>

fun leval :: "bytes \<Rightarrow> int" where
  "leval [] = 0"
| "leval (b # bs) = uint b + 256 * leval bs"

lemma leval_append: "leval (bs @ cs) = leval bs + 256 ^ length bs * leval cs"
  by (induction bs) (simp_all add: algebra_simps)

lemma leval_nonneg: "0 \<le> leval bs"
  by (induction bs) simp_all

lemma leval_bound: "leval bs < 256 ^ length bs"
proof (induction bs)
  case (Cons b bs)
  have "uint b < 256" using uint_lt2p[of b] by simp
  with Cons show ?case by simp
qed simp

lemma or_shift_add:
  fixes x y :: int
  assumes "0 \<le> x" "x < 2 ^ n"
  shows "x OR push_bit n y = x + push_bit n y"
proof -
  have "take_bit n x = x" using assms by (simp add: take_bit_int_eq_self)
  then have "\<not> bit x i \<or> \<not> bit (push_bit n y) i" for i
    by (metis bit_push_bit_iff bit_take_bit_iff linorder_not_less)
  then show ?thesis by (simp add: disjunctive_add)
qed

lemma word_of_int_push_bit: "(word_of_int (push_bit k x) :: u64) = push_bit k (word_of_int x)"
  by (simp add: push_bit_eq_mult)

lemma vch_bits_leval: "vch_bits i bs = word_of_int (push_bit (8 * i) (leval bs))"
proof (induction bs arbitrary: i)
  case (Cons b bs)
  have "uint b < 2 ^ 8" using uint_lt2p[of b] by simp
  then have "uint b OR push_bit 8 (leval bs) = leval (b # bs)"
    using or_shift_add[of "uint b" 8 "leval bs"] by (simp add: push_bit_eq_mult mult.commute)
  then have e: "leval (b # bs) = uint b OR push_bit 8 (leval bs)" by (rule sym)
  have a: "8 * i + 8 = 8 * (i + 1)" by simp
  have "(word_of_int (uint b) :: u64) = ucast b" by (rule bit_word_eqI) (simp add: bit_simps)
  then show ?case
    unfolding e vch_bits.simps Cons.IH push_bit_or push_bit_push_bit a of_int_or_eq word_of_int_push_bit by simp
qed simp

lemma byte_top: "(b :: u8) AND 0x80 = 0 \<longleftrightarrow> \<not> bit b 7"
  using and_exp_eq_0_iff_not_bit[of b 7] by simp

lemma byte_low: "(b :: u8) AND 0x7f = take_bit 7 b"
  by (simp add: take_bit_eq_mask mask_eq_exp_minus_1)

lemma bit_128: "bit (128 :: int) n = (n = 7)"
  using bit_exp_iff[where ?'a = int, of 7 n] by (auto simp: possible_bit_def)

lemma byte_cases: "b = take_bit 7 b \<and> \<not> bit b 7 \<or> b = take_bit 7 b OR 0x80 \<and> bit b 7" for b :: u8
proof -
  have *: "n < 7 \<or> n = 7" if "n < LENGTH(8)" for n :: nat using that by auto
  have "b = (if bit b 7 then take_bit 7 b OR 0x80 else take_bit 7 b)"
    by (rule bit_word_eqI) (use * in \<open>auto simp: bit_or_iff bit_take_bit_iff bit_128\<close>)
  then show ?thesis by presburger
qed

lemma byte_top_or: "bit (b OR 0x80 :: u8) 7" "(0x80 :: u8) AND 0x80 \<noteq> 0" "take_bit 7 (0x80 :: u8) = 0" "bit (0x80 :: u8) 7"
  by (simp_all add: bit_or_iff bit_128)

lemma take_bit_or_128: "take_bit 7 (b OR 0x80 :: u8) = take_bit 7 b"
  by (rule bit_word_eqI) (auto simp: bit_or_iff bit_take_bit_iff bit_128)

lemma uint_top: "uint b = uint (take_bit 7 b) + 128 * of_bool (bit b 7)" for b :: u8
proof -
  have "uint (take_bit 7 b) + 128 * of_bool (bit b 7) = uint b mod 2 ^ 7 + 2 ^ 7 * of_bool (bit (uint b) 7)"
    by (subst unsigned_take_bit_eq) (simp add: take_bit_eq_mod bit_uint_iff)
  moreover have "of_bool (bit (uint b) 7) = uint b div 2 ^ 7"
  proof -
    define x where "x = uint b div 2 ^ 7"
    have "uint b < 256" "0 \<le> uint b" using uint_lt2p[of b] by simp_all
    then have "0 \<le> x" "x < 2" unfolding x_def by (simp_all add: div_less_iff_less_mult pos_imp_zdiv_nonneg_iff)
    then have "x = 0 \<or> x = 1" by linarith
    then show ?thesis unfolding bit_iff_odd x_def[symmetric] by auto
  qed
  ultimately show ?thesis by presburger
qed

lemma sint_small: "0 \<le> x \<Longrightarrow> x < 2 ^ 63 \<Longrightarrow> sint (word_of_int x :: u64) = x"
  by (simp add: signed_of_int signed_take_bit_int_eq_self)

lemma set_vch_snoc:
  assumes "length bs < 8"
  shows "set_vch (bs @ [b]) = (if bit b 7 then -1 else 1) * leval (bs @ [take_bit 7 b])"
proof -
  let ?n = "8 * length bs + 7" and ?r = "leval (bs @ [b])" and ?v = "leval (bs @ [take_bit 7 b])"
  have r: "?r = ?v + of_bool (bit b 7) * 2 ^ ?n"
    using uint_top[of b] by (simp add: leval_append distrib_left power_add power_mult)
  have small: "?v < 2 ^ ?n"
  proof -
    have "uint (take_bit 7 b) < 2 ^ 7" using take_bit_int_less_exp[of 7 "uint b"] by (subst unsigned_take_bit_eq)
    then have "256 ^ length bs * uint (take_bit 7 b) + 256 ^ length bs \<le> 256 ^ length bs * (2 ^ 7 :: int)"
      using mult_left_mono[of "uint (take_bit 7 b) + 1" "2 ^ 7" "256 ^ length bs"] by (simp add: distrib_left)
    with leval_bound[of bs] have "leval bs + 256 ^ length bs * uint (take_bit 7 b) < 256 ^ length bs * 2 ^ 7" by linarith
    then show ?thesis by (simp add: leval_append power_add power_mult)
  qed
  moreover have "(2 :: int) ^ ?n \<le> 2 ^ 63" using assms by (intro power_increasing) auto
  ultimately have v: "sint (word_of_int ?v :: u64) = ?v" by (intro sint_small leval_nonneg) linarith
  show ?thesis
  proof (cases "bit b 7")
    case True
    have r': "?r = ?v OR push_bit ?n 1"
      unfolding or_shift_add[OF leval_nonneg small] r using True by (simp add: push_bit_eq_mult)
    have "bit ?r ?n" unfolding r' by (simp only: bit_or_iff bit_push_bit_iff) (simp add: possible_bit_def)
    then have "unset_bit ?n ?r = ?v" using r True by (simp add: unset_bit_eq)
    then have u: "?r AND NOT (push_bit ?n 1) = ?v" by (simp only: unset_bit_eq_and_not)
    have m: "push_bit (8 * length bs) (0x80 :: u64) = word_of_int (push_bit ?n 1)"
      by (simp add: push_bit_eq_mult power_add)
    have "vch_bits 0 (bs @ [b]) = word_of_int ?r" by (simp add: vch_bits_leval)
    then have "vch_bits 0 (bs @ [b]) AND NOT (push_bit (8 * length bs) 0x80) = word_of_int (?r AND NOT (push_bit ?n 1))"
      unfolding m by (simp only: of_int_and_eq of_int_not_eq)
    then have "vch_bits 0 (bs @ [b]) AND NOT (push_bit (8 * length bs) 0x80) = word_of_int ?v" unfolding u .
    then show ?thesis using True byte_top[of b] v by (simp add: set_vch_def Let_def)
  next
    case False
    then have "vch_bits 0 (bs @ [b]) = word_of_int ?v" using r by (simp add: vch_bits_leval)
    then show ?thesis using False byte_top[of b] v by (simp add: set_vch_def Let_def)
  qed
qed

lemma set_vch_abs:
  assumes "length vch \<le> 8"
  shows "\<bar>set_vch vch\<bar> < 256 ^ length vch"
proof (cases vch rule: rev_cases)
  case (snoc bs b)
  then show ?thesis
    using leval_bound[of "bs @ [take_bit 7 b]"] leval_nonneg[of "bs @ [take_bit 7 b]"] assms by (simp add: set_vch_snoc abs_mult)
qed (simp add: set_vch_def)

lemma unat_absvalue: "\<bar>n\<bar> < 2 ^ 64 \<Longrightarrow> unat (word_of_int (if n < 0 then - n else n) :: u64) = nat \<bar>n\<bar>"
  by (simp add: unsigned_of_int take_bit_int_eq_self flip: nat_take_bit_eq)

lemma serialize_eq:
  "\<bar>value\<bar> < 2 ^ 64 \<Longrightarrow> serialize value =
     (if value = 0 then []
      else let neg = value < 0; result = abs_bytes (nat \<bar>value\<bar>) in
        if last result AND 0x80 \<noteq> 0 then result @ [if neg then 0x80 else 0]
        else if neg then butlast result @ [last result OR 0x80]
        else result)"
  unfolding serialize_def Let_def by (simp only: unat_absvalue)

lemma abs_bytes_0 [simp]: "abs_bytes 0 = []"
  by (simp add: abs_bytes.simps)

lemma abs_bytes_Nil_iff [simp]: "abs_bytes n = [] \<longleftrightarrow> n = 0"
  by (subst abs_bytes.simps) simp

lemma uint_of_nat_byte: "uint (of_nat n :: u8) = int (n mod 256)"
  by (simp add: unsigned_of_nat take_bit_eq_mod zmod_int)

lemma leval_abs_bytes: "leval (abs_bytes n) = int n"
proof (induction n rule: abs_bytes.induct)
  case (1 n)
  show ?case
  proof (cases "n = 0")
    case False
    with 1 have "leval (abs_bytes n) = int (n mod 256) + 256 * int (n div 256)"
      by (subst abs_bytes.simps) (simp add: uint_of_nat_byte)
    also have "\<dots> = int n" by (simp add: zmod_int zdiv_int)
    finally show ?thesis .
  qed simp
qed

lemma last_abs_bytes: "n \<noteq> 0 \<Longrightarrow> last (abs_bytes n) \<noteq> 0"
proof (induction n rule: abs_bytes.induct)
  case (1 n)
  show ?case
  proof (cases "n div 256 = 0")
    case True
    then have "n < 256" by simp
    moreover have "uint (of_nat n :: u8) \<noteq> 0" using \<open>n < 256\<close> 1(2) by (simp add: uint_of_nat_byte)
    ultimately show ?thesis using True 1(2) by (subst abs_bytes.simps) (auto simp: uint_0_iff)
  next
    case False
    with 1 show ?thesis by (subst abs_bytes.simps) auto
  qed
qed

lemma abs_bytes_leval: "bs = [] \<or> last bs \<noteq> 0 \<Longrightarrow> abs_bytes (nat (leval bs)) = bs"
proof (induction bs)
  case (Cons b bs)
  have b: "uint b < 256" "0 \<le> uint b" using uint_lt2p[of b] by simp_all
  define m where "m = nat (leval bs)"
  have m: "int m = leval bs" by (simp add: m_def leval_nonneg)
  have n: "nat (leval (b # bs)) = unat b + 256 * m"
    using m by (simp add: nat_add_distrib nat_mult_distrib m_def leval_nonneg)
  have tl: "abs_bytes m = bs" using Cons by (auto simp: m_def split: if_splits)
  have "unat b < 256" by (rule unat_lt_8)
  then have "(unat b + 256 * m) div 256 = m" by simp
  moreover have "(of_nat (unat b + 256 * m) :: u8) = b"
    using \<open>unat b < 256\<close> unfolding word_uint_eq_iff uint_of_nat_byte by simp
  moreover have "unat b + 256 * m \<noteq> 0"
    using Cons.prems tl by (cases "bs = []") (auto simp: unat_eq_0)
  ultimately show ?case unfolding n using tl by (subst abs_bytes.simps) simp
qed simp

lemma leval_snoc_0: "leval (bs @ [0]) = leval bs"
  by (simp add: leval_append)

lemma take_bit_7_not_top: "\<not> bit (take_bit 7 b :: u8) 7"
  by (simp add: bit_take_bit_iff)

text \<open>A byte string without superfluous bytes, with the sign in the top bit of its last byte.\<close>

definition minimal_vch :: "bytes \<Rightarrow> bool" where
  "minimal_vch vch = (vch = [] \<or> take_bit 7 (last vch) \<noteq> 0
    \<or> 1 < length vch \<and> bit (vch ! (length vch - 2)) 7)"

lemma leval_pos: "bs \<noteq> [] \<Longrightarrow> last bs \<noteq> 0 \<Longrightarrow> 0 < leval bs"
  using abs_bytes_leval[of bs] leval_nonneg[of bs] by (cases "leval bs = 0") auto

lemma serialize_set_vch:
  assumes "minimal_vch vch" "length vch \<le> 8"
  shows "serialize (set_vch vch) = vch"
proof (cases vch rule: rev_cases)
  case (snoc bs b)
  have l: "length bs < 8" using assms(2) snoc by simp
  have "(256 :: int) ^ length (bs @ [take_bit 7 b]) \<le> 256 ^ 8" using l by (intro power_increasing) auto
  then have lv: "leval (bs @ [take_bit 7 b]) < 2 ^ 64" using leval_bound[of "bs @ [take_bit 7 b]"] by simp
  show ?thesis
  proof (cases "take_bit 7 b = 0")
    case False
    let ?r = "bs @ [take_bit 7 b]"
    have "0 < leval ?r" using leval_pos[of ?r] False by simp
    moreover have "abs_bytes (nat (leval ?r)) = ?r" using False by (intro abs_bytes_leval) simp
    ultimately show ?thesis
      using byte_cases[of b] lv by (auto simp: snoc serialize_eq set_vch_snoc[OF l] Let_def byte_top take_bit_7_not_top)
  next
    case True
    with assms(1) snoc have bs: "bs \<noteq> []" "bit (last bs) 7"
      by (auto simp: minimal_vch_def nth_append last_conv_nth Suc_le_eq)
    then have "last bs \<noteq> 0" by (metis bit_0_eq bot_apply bot_bool_def)
    then have "0 < leval bs" "abs_bytes (nat (leval bs)) = bs" using bs leval_pos abs_bytes_leval by blast+
    moreover have "b = (if bit b 7 then 0x80 else 0)" using byte_cases[of b] True by auto
    ultimately show ?thesis
      using bs lv by (auto simp: snoc serialize_eq set_vch_snoc[OF l] True leval_snoc_0 Let_def byte_top)
  qed
qed (simp add: set_vch_def serialize_def)

lemma set_vch_serialize:
  assumes n: "\<bar>n\<bar> < 2 ^ 64" and l: "length (serialize n) \<le> 8"
  shows "set_vch (serialize n) = n" "minimal_vch (serialize n)"
proof -
  note ser = serialize_eq[OF n]
  have "set_vch (serialize n) = n \<and> minimal_vch (serialize n)"
  proof (cases "n = 0")
    case False
    then obtain bs b where r: "abs_bytes (nat \<bar>n\<bar>) = bs @ [b]" by (metis abs_bytes_Nil_iff nat_0_iff rev_exhaust zero_less_abs_iff linorder_not_less)
    then have b: "b \<noteq> 0" using last_abs_bytes[of "nat \<bar>n\<bar>"] False by simp
    have v: "leval (bs @ [b]) = \<bar>n\<bar>" using leval_abs_bytes[of "nat \<bar>n\<bar>"] r by simp
    show ?thesis
    proof (cases "bit b 7")
      case True
      have "serialize n = (bs @ [b]) @ [if n < 0 then 0x80 else 0]"
        using False r True by (simp add: ser Let_def byte_top)
      moreover have "bit (0 :: u8) 7 = False" by simp
      ultimately show ?thesis
        using v True l by (auto simp: set_vch_snoc byte_top_or leval_snoc_0 minimal_vch_def nth_append simp del: append_assoc)
    next
      case F: False
      then have t: "take_bit 7 b = b" using byte_cases[of b] by auto
      then have "serialize n = bs @ [if n < 0 then b OR 0x80 else b]"
        using False r F by (simp add: ser Let_def byte_top)
      then show ?thesis using v F t b l
        by (auto simp: set_vch_snoc byte_top_or take_bit_or_128 minimal_vch_def)
    qed
  qed (simp add: serialize_def set_vch_def minimal_vch_def)
  then show "set_vch (serialize n) = n" "minimal_vch (serialize n)" by blast+
qed

lemma CScriptNum_minimal:
  "CScriptNum vch True m = (if length vch \<le> m \<and> minimal_vch vch then Some (set_vch vch) else None)"
  by (auto simp: CScriptNum_def minimal_vch_def byte_top byte_low not_le not_less)

text \<open>C20. Script numbers have one encoding. For a size limit of at most eight bytes (the interpreter uses four and five) and
  every value \<open>n\<close> of \<open>int64_t\<close>, with minimality required, reading a byte string as a number gives \<open>n\<close> exactly when the string
  is \<open>CScriptNum::serialize(n)\<close> and not longer than the limit. So encoding and decoding in 64 bits are inverse to each
  other and every other string (superfluous zero bytes, negative zero, too long) throws.\<close>

theorem CScriptNum_canonical:
  assumes "nMaxNumSize \<le> 8" "- (2 ^ 63) \<le> n" "n < 2 ^ 63"
  shows "CScriptNum vch True nMaxNumSize = Some n \<longleftrightarrow> vch = serialize n \<and> length vch \<le> nMaxNumSize"
proof -
  have "\<bar>n\<bar> < 2 ^ 64" using assms(2,3) by simp
  then show ?thesis using serialize_set_vch[of vch] set_vch_serialize[of n] assms(1) by (auto simp: CScriptNum_minimal)
qed

theorem CScriptNum_canonical_witness:
  "CScriptNum [0xff, 0x80] True 4 = Some (- 255) \<and> CScriptNum [0xff, 0, 0] True 4 \<noteq> Some 255"
proof -
  have a: "abs_bytes 255 = [0xff]" by (simp add: abs_bytes.simps)
  have "serialize (- 255) = [0xff, 0x80]" "serialize 255 = [0xff, 0]" by (simp_all add: serialize_eq a)
  then show ?thesis
    using CScriptNum_canonical[of 4 "- 255" "[0xff, 0x80]"] CScriptNum_canonical[of 4 255 "[0xff, 0, 0]"] by simp
qed

subsection \<open>Reading back what was pushed\<close>

lemma unat_of_nat_byte: "n < 256 \<Longrightarrow> unat (of_nat n :: u8) = n"
  by (simp add: unsigned_of_nat take_bit_eq_mod)

lemma ReadLE16_WriteLE16: "ReadLE16 (WriteLE16 x @ rest) = x"
proof -
  have "ucast (ucast x :: u8) OR push_bit 8 (ucast (ucast (drop_bit 8 x) :: u8) :: u16) = x"
    by (rule bit_word_eqI) (auto simp: bit_simps)
  then show ?thesis by (simp add: ReadLE16_def WriteLE16_def)
qed

lemma length_WriteLE16 [simp]: "length (WriteLE16 x) = 2"
  by (simp add: WriteLE16_def)

text \<open>The opcode that \<open>operator<<\<close> writes for a byte string.\<close>

definition push_op :: "bytes \<Rightarrow> opcodetype" where
  "push_op b = (if length b < OP_PUSHDATA1 then length b else if length b \<le> 0xff then OP_PUSHDATA1
    else if length b \<le> 0xffff then OP_PUSHDATA2 else OP_PUSHDATA4)"

lemma push_vch_append: "push_vch s b = s @ push_vch [] b"
  by (simp add: push_vch_def)

lemma GetOp2_push_vch:
  assumes "length b < 2 ^ 32"
  shows "GetOp2 (push_vch [] b @ rest) = (True, rest, push_op b, b)"
proof -
  have ln: "unat (of_nat (length b) :: u8) = length b" if "length b \<le> 255" using that by (simp add: unat_of_nat_byte)
  have l16: "unat (of_nat (length b) :: u16) = length b" if "length b \<le> 65535"
    using that by (simp add: unsigned_of_nat take_bit_eq_mod)
  have l32: "unat (of_nat (length b) :: u32) = length b"
    using assms by (simp add: unsigned_of_nat take_bit_eq_mod)
  consider "length b < 76" | "76 \<le> length b" "length b \<le> 255" | "255 < length b" "length b \<le> 65535" | "65535 < length b"
    by linarith
  then show ?thesis
  proof cases
    case 1
    then show ?thesis using ln by (simp add: push_vch_def push_op_def push_size_def)
  next
    case 2
    then show ?thesis using ln by (simp add: push_vch_def push_op_def push_size_def)
  next
    case 3
    then show ?thesis using l16 by (simp add: push_vch_def push_op_def push_size_def ReadLE16_WriteLE16)
  next
    case 4
    then show ?thesis using l32 by (simp add: push_vch_def push_op_def push_size_def ReadLE32_WriteLE32)
  qed
qed

lemma GetOp2_opcode:
  assumes "OP_PUSHDATA4 < op" "op < 256" "op \<noteq> OP_HNB_ASSET"
  shows "GetOp2 (of_nat op # rest) = (True, rest, op, [])"
  using assms by (simp add: unat_of_nat_byte)

lemma GetOp2_asset: "GetOp2 (0xc0 # rest) = (True, [], OP_HNB_ASSET, rest)"
  by simp

text \<open>C31. What is appended to a script is read back. After \<open>script << b\<close> for any byte string below \<open>2 ^ 32\<close> bytes,
  \<open>GetOp\<close> at that position returns exactly \<open>b\<close>, with the shortest push opcode that has room for its length, and stops
  at the bytes that followed; an opcode other than a push is read back alone, except \<open>OP_HNB_ASSET\<close>, which takes
  all the bytes behind it as its data.\<close>

theorem GetOp_reads_pushes:
  assumes "length b < 2 ^ 32" "OP_PUSHDATA4 < op" "op < 256"
  shows "GetOp2 (push_vch [] b @ rest) = (True, rest, push_op b, b)
    \<and> GetOp2 (push_opcode [] op @ rest) = (if op = OP_HNB_ASSET then (True, [], op, rest) else (True, rest, op, []))"
  using GetOp2_push_vch[OF assms(1), of rest] GetOp2_opcode[OF assms(2,3)] by (auto simp: push_opcode_def)

theorem GetOp_reads_pushes_witness:
  "GetOp2 (push_vch [] (replicate 80 7) @ [118, 1]) = (True, [118, 1], OP_PUSHDATA1, replicate 80 7)
    \<and> GetOp2 (push_opcode [] OP_HNB_ASSET @ [1, 2]) = (True, [], OP_HNB_ASSET, [1, 2])"
  using GetOp_reads_pushes[of "replicate 80 7" OP_HNB_ASSET] by (simp add: push_op_def)

lemma sigop_inc_bounds: "sigop_inc True op opcode \<le> sigop_inc False op opcode" "sigop_inc b op opcode \<le> 20"
  by (auto simp: sigop_inc_def DecodeOP_N_def)

lemma sigop_loop_step:
  "sigop_loop b pc op n = (if fst (GetOp2 pc)
    then sigop_loop b (fst (snd (GetOp2 pc))) (fst (snd (snd (GetOp2 pc)))) (n + sigop_inc b op (fst (snd (snd (GetOp2 pc)))))
    else n)"
  by (subst sigop_loop.simps) (simp split: prod.splits)

lemma sigop_loop_mono: "n \<le> n' \<Longrightarrow> sigop_loop True pc op n \<le> sigop_loop False pc op n'"
proof (induction "length pc" arbitrary: pc op n n' rule: less_induct)
  case less
  show ?case
    unfolding sigop_loop_step[of _ pc]
    using less.prems sigop_inc_bounds(1)[of op "fst (snd (snd (GetOp2 pc)))"] GetOp2_shorter[of pc]
    by (cases "pc = []") (auto intro!: less.hyps)
qed

lemma sigop_loop_bound: "sigop_loop b pc op n \<le> n + 20 * length pc"
proof (induction "length pc" arbitrary: pc op n rule: less_induct)
  case less
  show ?case
  proof (cases "fst (GetOp2 pc)")
    case True
    define pc' opcode where "pc' = fst (snd (GetOp2 pc))" and "opcode = fst (snd (snd (GetOp2 pc)))"
    have sh: "length pc' < length pc" using True GetOp2_shorter[of pc] by (cases "pc = []") (auto simp: pc'_def)
    have "sigop_loop b pc' opcode (n + sigop_inc b op opcode) \<le> n + sigop_inc b op opcode + 20 * length pc'"
      by (rule less.hyps[OF sh])
    moreover have "sigop_inc b op opcode \<le> 20" by (rule sigop_inc_bounds(2))
    ultimately show ?thesis using True sh by (subst sigop_loop_step) (simp flip: pc'_def opcode_def)
  qed (simp add: sigop_loop_step)
qed

text \<open>The two counts of signature operations. The accurate count never exceeds the legacy one that counts every
  \<open>CHECKMULTISIG\<close> as 20, and both are at most 20 for each byte of the script, so that the 32-bit counter cannot wrap
  for a script that fits into a block.\<close>

lemma GetSigOpCount_bounds:
  "GetSigOpCount True s \<le> GetSigOpCount False s \<and> GetSigOpCount False s \<le> 20 * length s"
  unfolding GetSigOpCount_def
  using sigop_loop_mono[of 0 0 s OP_INVALIDOPCODE] sigop_loop_bound[of False s OP_INVALIDOPCODE 0] by simp

end
