(* ===== verification/Interpreter.thy ===== *)
theory Interpreter
  imports Script "HOL-Library.Sublist"
begin

text \<open>
  The script interpreter: \<^verbatim>\<open>src/src/script/interpreter.cpp\<close>. A stack is the list of its elements with the top first,
  so \<open>stacktop(-1)\<close> is the head; a computation that ends with \<open>set_error(serror, e)\<close> is \<open>Inl e\<close>, and the exceptions that
  \<open>EvalScript\<close> catches are \<open>Inl SCRIPT_ERR_UNKNOWN_ERROR\<close>. The virtual signature checker is a record of functions,
  and the hash functions and the low-S test of the signature library are fields of a record \<open>crypto\<close>.

  The lemmas at the end are about single operations (what each keeps of the limits, and that no verification flag
  makes a failing operation succeed); the theorems are about whole scripts.
\<close>

datatype ScriptError =
    SCRIPT_ERR_UNKNOWN_ERROR | SCRIPT_ERR_EVAL_FALSE | SCRIPT_ERR_OP_RETURN
  | SCRIPT_ERR_SCRIPT_SIZE | SCRIPT_ERR_PUSH_SIZE | SCRIPT_ERR_OP_COUNT | SCRIPT_ERR_STACK_SIZE
  | SCRIPT_ERR_SIG_COUNT | SCRIPT_ERR_PUBKEY_COUNT
  | SCRIPT_ERR_VERIFY | SCRIPT_ERR_EQUALVERIFY | SCRIPT_ERR_CHECKMULTISIGVERIFY | SCRIPT_ERR_CHECKSIGVERIFY
  | SCRIPT_ERR_NUMEQUALVERIFY
  | SCRIPT_ERR_BAD_OPCODE | SCRIPT_ERR_DISABLED_OPCODE | SCRIPT_ERR_INVALID_STACK_OPERATION
  | SCRIPT_ERR_INVALID_ALTSTACK_OPERATION | SCRIPT_ERR_UNBALANCED_CONDITIONAL
  | SCRIPT_ERR_NEGATIVE_LOCKTIME | SCRIPT_ERR_UNSATISFIED_LOCKTIME
  | SCRIPT_ERR_SIG_HASHTYPE | SCRIPT_ERR_SIG_DER | SCRIPT_ERR_MINIMALDATA | SCRIPT_ERR_SIG_PUSHONLY
  | SCRIPT_ERR_SIG_HIGH_S | SCRIPT_ERR_SIG_NULLDUMMY | SCRIPT_ERR_PUBKEYTYPE | SCRIPT_ERR_CLEANSTACK
  | SCRIPT_ERR_MINIMALIF | SCRIPT_ERR_SIG_NULLFAIL
  | SCRIPT_ERR_DISCOURAGE_UPGRADABLE_NOPS | SCRIPT_ERR_DISCOURAGE_UPGRADABLE_WITNESS_PROGRAM
  | SCRIPT_ERR_WITNESS_PROGRAM_WRONG_LENGTH | SCRIPT_ERR_WITNESS_PROGRAM_WITNESS_EMPTY
  | SCRIPT_ERR_WITNESS_PROGRAM_MISMATCH | SCRIPT_ERR_WITNESS_MALLEATED | SCRIPT_ERR_WITNESS_MALLEATED_P2SH
  | SCRIPT_ERR_WITNESS_UNEXPECTED | SCRIPT_ERR_WITNESS_PUBKEYTYPE

datatype SigVersion = SIGVERSION_BASE | SIGVERSION_WITNESS_V0

subsection \<open>Flags, checker and hashes\<close>

abbreviation (input) SCRIPT_VERIFY_P2SH :: u32 where "SCRIPT_VERIFY_P2SH \<equiv> 1"
abbreviation (input) SCRIPT_VERIFY_STRICTENC :: u32 where "SCRIPT_VERIFY_STRICTENC \<equiv> 2"
abbreviation (input) SCRIPT_VERIFY_DERSIG :: u32 where "SCRIPT_VERIFY_DERSIG \<equiv> 4"
abbreviation (input) SCRIPT_VERIFY_LOW_S :: u32 where "SCRIPT_VERIFY_LOW_S \<equiv> 8"
abbreviation (input) SCRIPT_VERIFY_NULLDUMMY :: u32 where "SCRIPT_VERIFY_NULLDUMMY \<equiv> 16"
abbreviation (input) SCRIPT_VERIFY_SIGPUSHONLY :: u32 where "SCRIPT_VERIFY_SIGPUSHONLY \<equiv> 32"
abbreviation (input) SCRIPT_VERIFY_MINIMALDATA :: u32 where "SCRIPT_VERIFY_MINIMALDATA \<equiv> 64"
abbreviation (input) SCRIPT_VERIFY_DISCOURAGE_UPGRADABLE_NOPS :: u32 where
  "SCRIPT_VERIFY_DISCOURAGE_UPGRADABLE_NOPS \<equiv> 128"
abbreviation (input) SCRIPT_VERIFY_CLEANSTACK :: u32 where "SCRIPT_VERIFY_CLEANSTACK \<equiv> 256"
abbreviation (input) SCRIPT_VERIFY_CHECKLOCKTIMEVERIFY :: u32 where "SCRIPT_VERIFY_CHECKLOCKTIMEVERIFY \<equiv> 512"
abbreviation (input) SCRIPT_VERIFY_CHECKSEQUENCEVERIFY :: u32 where "SCRIPT_VERIFY_CHECKSEQUENCEVERIFY \<equiv> 1024"
abbreviation (input) SCRIPT_VERIFY_WITNESS :: u32 where "SCRIPT_VERIFY_WITNESS \<equiv> 2048"
abbreviation (input) SCRIPT_VERIFY_DISCOURAGE_UPGRADABLE_WITNESS_PROGRAM :: u32 where
  "SCRIPT_VERIFY_DISCOURAGE_UPGRADABLE_WITNESS_PROGRAM \<equiv> 4096"
abbreviation (input) SCRIPT_VERIFY_MINIMALIF :: u32 where "SCRIPT_VERIFY_MINIMALIF \<equiv> 8192"
abbreviation (input) SCRIPT_VERIFY_NULLFAIL :: u32 where "SCRIPT_VERIFY_NULLFAIL \<equiv> 16384"
abbreviation (input) SCRIPT_VERIFY_WITNESS_PUBKEYTYPE :: u32 where "SCRIPT_VERIFY_WITNESS_PUBKEYTYPE \<equiv> 32768"

definition has :: "u32 \<Rightarrow> u32 \<Rightarrow> bool" where
  "has flags f = (flags AND f \<noteq> 0)"

record BaseSignatureChecker =
  CheckSig :: "valtype \<Rightarrow> valtype \<Rightarrow> script \<Rightarrow> SigVersion \<Rightarrow> bool"
  CheckLockTime :: "int \<Rightarrow> bool"
  CheckSequence :: "int \<Rightarrow> bool"

record crypto =
  RIPEMD160 :: "bytes \<Rightarrow> bytes"
  SHA1 :: "bytes \<Rightarrow> bytes"
  SHA256 :: "bytes \<Rightarrow> bytes"
  CheckLowS :: "bytes \<Rightarrow> bool"

definition HASH160 :: "crypto \<Rightarrow> bytes \<Rightarrow> bytes" where
  "HASH160 cr b = RIPEMD160 cr (SHA256 cr b)"

definition HASH256 :: "crypto \<Rightarrow> bytes \<Rightarrow> bytes" where
  "HASH256 cr b = SHA256 cr (SHA256 cr b)"

subsection \<open>Encodings of values, keys and signatures\<close>

fun CastToBool :: "valtype \<Rightarrow> bool" where
  "CastToBool [] = False"
| "CastToBool (b # vch) = (if b \<noteq> 0 then \<not> (vch = [] \<and> b = 0x80) else CastToBool vch)"

definition IsCompressedOrUncompressedPubKey :: "valtype \<Rightarrow> bool" where
  "IsCompressedOrUncompressedPubKey vchPubKey =
     (if length vchPubKey < 33 then False
      else if vchPubKey ! 0 = 0x04 then length vchPubKey = 65
      else if vchPubKey ! 0 = 0x02 \<or> vchPubKey ! 0 = 0x03 then length vchPubKey = 33
      else False)"

definition IsCompressedPubKey :: "valtype \<Rightarrow> bool" where
  "IsCompressedPubKey vchPubKey =
     (if length vchPubKey \<noteq> 33 then False
      else if vchPubKey ! 0 \<noteq> 0x02 \<and> vchPubKey ! 0 \<noteq> 0x03 then False
      else True)"

definition IsValidSignatureEncoding :: "bytes \<Rightarrow> bool" where
  "IsValidSignatureEncoding sig =
     (if length sig < 9 then False
      else if 73 < length sig then False
      else if sig ! 0 \<noteq> 0x30 then False
      else if unat (sig ! 1) \<noteq> length sig - 3 then False
      else
        let lenR = unat (sig ! 3) in
        if length sig \<le> 5 + lenR then False
        else
          let lenS = unat (sig ! (5 + lenR)) in
          if lenR + lenS + 7 \<noteq> length sig then False
          else if sig ! 2 \<noteq> 0x02 then False
          else if lenR = 0 then False
          else if sig ! 4 AND 0x80 \<noteq> 0 then False
          else if lenR > 1 \<and> sig ! 4 = 0 \<and> \<not> (sig ! 5 AND 0x80 \<noteq> 0) then False
          else if sig ! (lenR + 4) \<noteq> 0x02 then False
          else if lenS = 0 then False
          else if sig ! (lenR + 6) AND 0x80 \<noteq> 0 then False
          else if lenS > 1 \<and> sig ! (lenR + 6) = 0 \<and> \<not> (sig ! (lenR + 7) AND 0x80 \<noteq> 0) then False
          else True)"

definition IsDefinedHashtypeSignature :: "valtype \<Rightarrow> bool" where
  "IsDefinedHashtypeSignature vchSig =
     (if length vchSig = 0 then False
      else let nHashType = last vchSig AND NOT 0x80 in \<not> (nHashType < 1 \<or> 3 < nHashType))"

text \<open>The two checks return the error that they set, or \<open>None\<close>.\<close>

definition IsLowDERSignature :: "crypto \<Rightarrow> valtype \<Rightarrow> ScriptError option" where
  "IsLowDERSignature cr vchSig =
     (if \<not> IsValidSignatureEncoding vchSig then Some SCRIPT_ERR_SIG_DER
      else if \<not> CheckLowS cr (butlast vchSig) then Some SCRIPT_ERR_SIG_HIGH_S
      else None)"

definition CheckSignatureEncoding :: "crypto \<Rightarrow> valtype \<Rightarrow> u32 \<Rightarrow> ScriptError option" where
  "CheckSignatureEncoding cr vchSig flags =
     (if length vchSig = 0 then None
      else if has flags (SCRIPT_VERIFY_DERSIG OR SCRIPT_VERIFY_LOW_S OR SCRIPT_VERIFY_STRICTENC)
        \<and> \<not> IsValidSignatureEncoding vchSig then Some SCRIPT_ERR_SIG_DER
      else if has flags SCRIPT_VERIFY_LOW_S \<and> IsLowDERSignature cr vchSig \<noteq> None then IsLowDERSignature cr vchSig
      else if has flags SCRIPT_VERIFY_STRICTENC \<and> \<not> IsDefinedHashtypeSignature vchSig then Some SCRIPT_ERR_SIG_HASHTYPE
      else None)"

definition CheckPubKeyEncoding :: "valtype \<Rightarrow> u32 \<Rightarrow> SigVersion \<Rightarrow> ScriptError option" where
  "CheckPubKeyEncoding vchPubKey flags sigversion =
     (if has flags SCRIPT_VERIFY_STRICTENC \<and> \<not> IsCompressedOrUncompressedPubKey vchPubKey then Some SCRIPT_ERR_PUBKEYTYPE
      else if has flags SCRIPT_VERIFY_WITNESS_PUBKEYTYPE \<and> sigversion = SIGVERSION_WITNESS_V0
        \<and> \<not> IsCompressedPubKey vchPubKey then Some SCRIPT_ERR_WITNESS_PUBKEYTYPE
      else None)"

definition CheckMinimalPush :: "valtype \<Rightarrow> opcodetype \<Rightarrow> bool" where
  "CheckMinimalPush data opcode =
     (if length data = 0 then opcode = OP_0
      else if length data = 1 \<and> 1 \<le> unat (data ! 0) \<and> unat (data ! 0) \<le> 16 then opcode = OP_1 + (unat (data ! 0) - 1)
      else if length data = 1 \<and> data ! 0 = 0x81 then opcode = OP_1NEGATE
      else if length data \<le> 75 then opcode = length data
      else if length data \<le> 255 then opcode = OP_PUSHDATA1
      else if length data \<le> 65535 then opcode = OP_PUSHDATA2
      else True)"

subsection \<open>State of an evaluation\<close>

record eval_env =
  flags :: u32
  checker :: BaseSignatureChecker
  cry :: crypto
  sigversion :: SigVersion

record eval_state =
  stack :: "valtype list"
  altstack :: "valtype list"
  vfExec :: "bool list"
  nOpCount :: int
  pbegincodehash :: script

definition fRequireMinimal :: "eval_env \<Rightarrow> bool" where
  "fRequireMinimal env = has (flags env) SCRIPT_VERIFY_MINIMALDATA"

definition vchBool :: "bool \<Rightarrow> valtype" where
  "vchBool b = (if b then [1] else [])"

definition script_num :: "eval_env \<Rightarrow> valtype \<Rightarrow> nat \<Rightarrow> ScriptError + int" where
  "script_num env vch nMaxNumSize =
     (case CScriptNum vch (fRequireMinimal env) nMaxNumSize of None \<Rightarrow> Inl SCRIPT_ERR_UNKNOWN_ERROR | Some n \<Rightarrow> Inr n)"

subsection \<open>Control operations\<close>

definition exec_push_value :: "opcodetype \<Rightarrow> eval_state \<Rightarrow> ScriptError + eval_state" where
  "exec_push_value opcode st = Inr (st\<lparr>stack := serialize (int opcode - (int OP_1 - 1)) # stack st\<rparr>)"

definition exec_CHECKLOCKTIMEVERIFY :: "eval_env \<Rightarrow> eval_state \<Rightarrow> ScriptError + eval_state" where
  "exec_CHECKLOCKTIMEVERIFY env st =
     (if \<not> has (flags env) SCRIPT_VERIFY_CHECKLOCKTIMEVERIFY then
        (if has (flags env) SCRIPT_VERIFY_DISCOURAGE_UPGRADABLE_NOPS
         then Inl SCRIPT_ERR_DISCOURAGE_UPGRADABLE_NOPS else Inr st)
      else
        (case stack st of
           [] \<Rightarrow> Inl SCRIPT_ERR_INVALID_STACK_OPERATION
         | v # s \<Rightarrow>
             (case script_num env v 5 of
                Inl e \<Rightarrow> Inl e
              | Inr nLockTime \<Rightarrow>
                  if nLockTime < 0 then Inl SCRIPT_ERR_NEGATIVE_LOCKTIME
                  else if \<not> CheckLockTime (checker env) nLockTime then Inl SCRIPT_ERR_UNSATISFIED_LOCKTIME
                  else Inr st)))"

definition exec_CHECKSEQUENCEVERIFY :: "eval_env \<Rightarrow> eval_state \<Rightarrow> ScriptError + eval_state" where
  "exec_CHECKSEQUENCEVERIFY env st =
     (if \<not> has (flags env) SCRIPT_VERIFY_CHECKSEQUENCEVERIFY then
        (if has (flags env) SCRIPT_VERIFY_DISCOURAGE_UPGRADABLE_NOPS
         then Inl SCRIPT_ERR_DISCOURAGE_UPGRADABLE_NOPS else Inr st)
      else
        (case stack st of
           [] \<Rightarrow> Inl SCRIPT_ERR_INVALID_STACK_OPERATION
         | v # s \<Rightarrow>
             (case script_num env v 5 of
                Inl e \<Rightarrow> Inl e
              | Inr nSequence \<Rightarrow>
                  if nSequence < 0 then Inl SCRIPT_ERR_NEGATIVE_LOCKTIME
                  else if nSequence AND 0x80000000 \<noteq> 0 then Inr st
                  else if \<not> CheckSequence (checker env) nSequence then Inl SCRIPT_ERR_UNSATISFIED_LOCKTIME
                  else Inr st)))"

definition exec_NOPn :: "eval_env \<Rightarrow> eval_state \<Rightarrow> ScriptError + eval_state" where
  "exec_NOPn env st =
     (if has (flags env) SCRIPT_VERIFY_DISCOURAGE_UPGRADABLE_NOPS
      then Inl SCRIPT_ERR_DISCOURAGE_UPGRADABLE_NOPS else Inr st)"

definition exec_IF :: "eval_env \<Rightarrow> opcodetype \<Rightarrow> bool \<Rightarrow> eval_state \<Rightarrow> ScriptError + eval_state" where
  "exec_IF env opcode fExec st =
     (if fExec then
        (case stack st of
           [] \<Rightarrow> Inl SCRIPT_ERR_UNBALANCED_CONDITIONAL
         | vch # s \<Rightarrow>
             if sigversion env = SIGVERSION_WITNESS_V0 \<and> has (flags env) SCRIPT_VERIFY_MINIMALIF
               \<and> (1 < length vch \<or> length vch = 1 \<and> vch ! 0 \<noteq> 1) then Inl SCRIPT_ERR_MINIMALIF
             else
               let fValue = (if opcode = OP_NOTIF then \<not> CastToBool vch else CastToBool vch) in
               Inr (st\<lparr>stack := s, vfExec := fValue # vfExec st\<rparr>))
      else Inr (st\<lparr>vfExec := False # vfExec st\<rparr>))"

definition exec_ELSE :: "eval_state \<Rightarrow> ScriptError + eval_state" where
  "exec_ELSE st =
     (case vfExec st of
        [] \<Rightarrow> Inl SCRIPT_ERR_UNBALANCED_CONDITIONAL
      | b # bs \<Rightarrow> Inr (st\<lparr>vfExec := (\<not> b) # bs\<rparr>))"

definition exec_ENDIF :: "eval_state \<Rightarrow> ScriptError + eval_state" where
  "exec_ENDIF st =
     (case vfExec st of
        [] \<Rightarrow> Inl SCRIPT_ERR_UNBALANCED_CONDITIONAL
      | b # bs \<Rightarrow> Inr (st\<lparr>vfExec := bs\<rparr>))"

definition exec_TOALTSTACK :: "eval_state \<Rightarrow> ScriptError + eval_state" where
  "exec_TOALTSTACK st =
     (case stack st of
        [] \<Rightarrow> Inl SCRIPT_ERR_INVALID_STACK_OPERATION
      | v # s \<Rightarrow> Inr (st\<lparr>altstack := v # altstack st, stack := s\<rparr>))"

definition exec_FROMALTSTACK :: "eval_state \<Rightarrow> ScriptError + eval_state" where
  "exec_FROMALTSTACK st =
     (case altstack st of
        [] \<Rightarrow> Inl SCRIPT_ERR_INVALID_ALTSTACK_OPERATION
      | v # s \<Rightarrow> Inr (st\<lparr>stack := v # stack st, altstack := s\<rparr>))"

subsection \<open>Operations on the main stack\<close>

type_synonym stack_op = "valtype list \<Rightarrow> ScriptError + valtype list"

fun op_VERIFY :: stack_op where
  "op_VERIFY (v # s) = (if CastToBool v then Inr s else Inl SCRIPT_ERR_VERIFY)"
| "op_VERIFY _ = Inl SCRIPT_ERR_INVALID_STACK_OPERATION"

fun op_2DROP :: stack_op where
  "op_2DROP (x2 # x1 # s) = Inr s"
| "op_2DROP _ = Inl SCRIPT_ERR_INVALID_STACK_OPERATION"

fun op_2DUP :: stack_op where
  "op_2DUP (x2 # x1 # s) = Inr (x2 # x1 # x2 # x1 # s)"
| "op_2DUP _ = Inl SCRIPT_ERR_INVALID_STACK_OPERATION"

fun op_3DUP :: stack_op where
  "op_3DUP (x3 # x2 # x1 # s) = Inr (x3 # x2 # x1 # x3 # x2 # x1 # s)"
| "op_3DUP _ = Inl SCRIPT_ERR_INVALID_STACK_OPERATION"

fun op_2OVER :: stack_op where
  "op_2OVER (x4 # x3 # x2 # x1 # s) = Inr (x2 # x1 # x4 # x3 # x2 # x1 # s)"
| "op_2OVER _ = Inl SCRIPT_ERR_INVALID_STACK_OPERATION"

fun op_2ROT :: stack_op where
  "op_2ROT (x6 # x5 # x4 # x3 # x2 # x1 # s) = Inr (x2 # x1 # x6 # x5 # x4 # x3 # s)"
| "op_2ROT _ = Inl SCRIPT_ERR_INVALID_STACK_OPERATION"

fun op_2SWAP :: stack_op where
  "op_2SWAP (x4 # x3 # x2 # x1 # s) = Inr (x2 # x1 # x4 # x3 # s)"
| "op_2SWAP _ = Inl SCRIPT_ERR_INVALID_STACK_OPERATION"

fun op_IFDUP :: stack_op where
  "op_IFDUP (v # s) = Inr (if CastToBool v then v # v # s else v # s)"
| "op_IFDUP _ = Inl SCRIPT_ERR_INVALID_STACK_OPERATION"

definition op_DEPTH :: stack_op where
  "op_DEPTH s = Inr (serialize (int (length s)) # s)"

fun op_DROP :: stack_op where
  "op_DROP (x # s) = Inr s"
| "op_DROP _ = Inl SCRIPT_ERR_INVALID_STACK_OPERATION"

fun op_DUP :: stack_op where
  "op_DUP (x # s) = Inr (x # x # s)"
| "op_DUP _ = Inl SCRIPT_ERR_INVALID_STACK_OPERATION"

fun op_NIP :: stack_op where
  "op_NIP (x2 # x1 # s) = Inr (x2 # s)"
| "op_NIP _ = Inl SCRIPT_ERR_INVALID_STACK_OPERATION"

fun op_OVER :: stack_op where
  "op_OVER (x2 # x1 # s) = Inr (x1 # x2 # x1 # s)"
| "op_OVER _ = Inl SCRIPT_ERR_INVALID_STACK_OPERATION"

fun op_PICK_ROLL :: "eval_env \<Rightarrow> opcodetype \<Rightarrow> stack_op" where
  "op_PICK_ROLL env opcode (x # y # s) =
     (case script_num env x 4 of
        Inl e \<Rightarrow> Inl e
      | Inr bn \<Rightarrow>
          let n = getint bn; s = y # s in
          if n < 0 \<or> int (length s) \<le> n then Inl SCRIPT_ERR_INVALID_STACK_OPERATION
          else
            let vch = s ! nat n in
            Inr (vch # (if opcode = OP_ROLL then take (nat n) s @ drop (nat n + 1) s else s)))"
| "op_PICK_ROLL env opcode _ = Inl SCRIPT_ERR_INVALID_STACK_OPERATION"

fun op_ROT :: stack_op where
  "op_ROT (x3 # x2 # x1 # s) = Inr (x1 # x3 # x2 # s)"
| "op_ROT _ = Inl SCRIPT_ERR_INVALID_STACK_OPERATION"

fun op_SWAP :: stack_op where
  "op_SWAP (x2 # x1 # s) = Inr (x1 # x2 # s)"
| "op_SWAP _ = Inl SCRIPT_ERR_INVALID_STACK_OPERATION"

fun op_TUCK :: stack_op where
  "op_TUCK (x2 # x1 # s) = Inr (x2 # x1 # x2 # s)"
| "op_TUCK _ = Inl SCRIPT_ERR_INVALID_STACK_OPERATION"

fun op_SIZE :: stack_op where
  "op_SIZE (x # s) = Inr (serialize (int (length x)) # x # s)"
| "op_SIZE _ = Inl SCRIPT_ERR_INVALID_STACK_OPERATION"

fun op_EQUAL :: "opcodetype \<Rightarrow> stack_op" where
  "op_EQUAL opcode (vch2 # vch1 # s) =
     (let fEqual = (vch1 = vch2) in
      if opcode = OP_EQUALVERIFY then (if fEqual then Inr s else Inl SCRIPT_ERR_EQUALVERIFY)
      else Inr (vchBool fEqual # s))"
| "op_EQUAL opcode _ = Inl SCRIPT_ERR_INVALID_STACK_OPERATION"

subsection \<open>Numeric operations\<close>

definition num_unary :: "opcodetype \<Rightarrow> int \<Rightarrow> int" where
  "num_unary opcode bn =
     (if opcode = OP_1ADD then bn + 1
      else if opcode = OP_1SUB then bn - 1
      else if opcode = OP_NEGATE then - bn
      else if opcode = OP_ABS then (if bn < 0 then - bn else bn)
      else if opcode = OP_NOT then of_bool (bn = 0)
      else of_bool (bn \<noteq> 0))"

fun op_unary :: "eval_env \<Rightarrow> opcodetype \<Rightarrow> stack_op" where
  "op_unary env opcode (x # s) =
     (case script_num env x 4 of Inl e \<Rightarrow> Inl e | Inr bn \<Rightarrow> Inr (serialize (num_unary opcode bn) # s))"
| "op_unary env opcode _ = Inl SCRIPT_ERR_INVALID_STACK_OPERATION"

definition num_binary :: "opcodetype \<Rightarrow> int \<Rightarrow> int \<Rightarrow> int" where
  "num_binary opcode bn1 bn2 =
     (if opcode = OP_ADD then bn1 + bn2
      else if opcode = OP_SUB then bn1 - bn2
      else if opcode = OP_BOOLAND then of_bool (bn1 \<noteq> 0 \<and> bn2 \<noteq> 0)
      else if opcode = OP_BOOLOR then of_bool (bn1 \<noteq> 0 \<or> bn2 \<noteq> 0)
      else if opcode = OP_NUMEQUAL then of_bool (bn1 = bn2)
      else if opcode = OP_NUMEQUALVERIFY then of_bool (bn1 = bn2)
      else if opcode = OP_NUMNOTEQUAL then of_bool (bn1 \<noteq> bn2)
      else if opcode = OP_LESSTHAN then of_bool (bn1 < bn2)
      else if opcode = OP_GREATERTHAN then of_bool (bn1 > bn2)
      else if opcode = OP_LESSTHANOREQUAL then of_bool (bn1 \<le> bn2)
      else if opcode = OP_GREATERTHANOREQUAL then of_bool (bn1 \<ge> bn2)
      else if opcode = OP_MIN then (if bn1 < bn2 then bn1 else bn2)
      else (if bn1 > bn2 then bn1 else bn2))"

fun op_binary :: "eval_env \<Rightarrow> opcodetype \<Rightarrow> stack_op" where
  "op_binary env opcode (x2 # x1 # s) =
     (case script_num env x1 4 of
        Inl e \<Rightarrow> Inl e
      | Inr bn1 \<Rightarrow>
          (case script_num env x2 4 of
             Inl e \<Rightarrow> Inl e
           | Inr bn2 \<Rightarrow>
               let vch = serialize (num_binary opcode bn1 bn2) in
               if opcode = OP_NUMEQUALVERIFY then
                 (if CastToBool vch then Inr s else Inl SCRIPT_ERR_NUMEQUALVERIFY)
               else Inr (vch # s)))"
| "op_binary env opcode _ = Inl SCRIPT_ERR_INVALID_STACK_OPERATION"

fun op_WITHIN :: "eval_env \<Rightarrow> stack_op" where
  "op_WITHIN env (x3 # x2 # x1 # s) =
     (case script_num env x1 4 of
        Inl e \<Rightarrow> Inl e
      | Inr bn1 \<Rightarrow>
          (case script_num env x2 4 of
             Inl e \<Rightarrow> Inl e
           | Inr bn2 \<Rightarrow>
               (case script_num env x3 4 of
                  Inl e \<Rightarrow> Inl e
                | Inr bn3 \<Rightarrow> Inr (vchBool (bn2 \<le> bn1 \<and> bn1 < bn3) # s))))"
| "op_WITHIN env _ = Inl SCRIPT_ERR_INVALID_STACK_OPERATION"

subsection \<open>Hashes and signatures\<close>

fun op_HASH :: "eval_env \<Rightarrow> opcodetype \<Rightarrow> stack_op" where
  "op_HASH env opcode (vch # s) =
     Inr ((if opcode = OP_RIPEMD160 then RIPEMD160 (cry env) vch
           else if opcode = OP_SHA1 then SHA1 (cry env) vch
           else if opcode = OP_SHA256 then SHA256 (cry env) vch
           else if opcode = OP_HASH160 then HASH160 (cry env) vch
           else HASH256 (cry env) vch) # s)"
| "op_HASH env opcode _ = Inl SCRIPT_ERR_INVALID_STACK_OPERATION"

definition drop_signature :: "eval_env \<Rightarrow> script \<Rightarrow> valtype \<Rightarrow> script" where
  "drop_signature env scriptCode vchSig =
     (if sigversion env = SIGVERSION_BASE then snd (FindAndDelete scriptCode (push_vch [] vchSig)) else scriptCode)"

definition check_encodings :: "eval_env \<Rightarrow> valtype \<Rightarrow> valtype \<Rightarrow> ScriptError option" where
  "check_encodings env vchSig vchPubKey =
     (case CheckSignatureEncoding (cry env) vchSig (flags env) of
        Some e \<Rightarrow> Some e
      | None \<Rightarrow> CheckPubKeyEncoding vchPubKey (flags env) (sigversion env))"

fun op_CHECKSIG :: "eval_env \<Rightarrow> opcodetype \<Rightarrow> script \<Rightarrow> stack_op" where
  "op_CHECKSIG env opcode pbegin (vchPubKey # vchSig # s) =
     (let scriptCode = drop_signature env pbegin vchSig in
      case check_encodings env vchSig vchPubKey of
        Some e \<Rightarrow> Inl e
      | None \<Rightarrow>
          let fSuccess = CheckSig (checker env) vchSig vchPubKey scriptCode (sigversion env) in
          if \<not> fSuccess \<and> has (flags env) SCRIPT_VERIFY_NULLFAIL \<and> length vchSig \<noteq> 0 then Inl SCRIPT_ERR_SIG_NULLFAIL
          else if opcode = OP_CHECKSIGVERIFY then (if fSuccess then Inr s else Inl SCRIPT_ERR_CHECKSIGVERIFY)
          else Inr (vchBool fSuccess # s))"
| "op_CHECKSIG env opcode pbegin _ = Inl SCRIPT_ERR_INVALID_STACK_OPERATION"

text \<open>The loop that matches signatures with keys. It runs while signatures are left; the code keeps the number of
  signatures at most the number of keys, so the last equation is never reached from \<open>op_CHECKMULTISIG\<close>.\<close>

fun multisig_loop :: "eval_env \<Rightarrow> script \<Rightarrow> valtype list \<Rightarrow> valtype list \<Rightarrow> ScriptError + bool" where
  "multisig_loop env scriptCode [] keys = Inr True"
| "multisig_loop env scriptCode (vchSig # sigs) (vchPubKey # keys) =
     (case check_encodings env vchSig vchPubKey of
        Some e \<Rightarrow> Inl e
      | None \<Rightarrow>
          let fOk = CheckSig (checker env) vchSig vchPubKey scriptCode (sigversion env);
              sigs' = (if fOk then sigs else vchSig # sigs) in
          if length keys < length sigs' then Inr False else multisig_loop env scriptCode sigs' keys)"
| "multisig_loop env scriptCode (vchSig # sigs) [] = Inr False"

fun multisig_clean :: "bool \<Rightarrow> nat \<Rightarrow> nat \<Rightarrow> stack_op" where
  "multisig_clean chk 0 ikey2 s = Inr s"
| "multisig_clean chk (Suc i) ikey2 (v # s) =
     (if chk \<and> ikey2 = 0 \<and> length v \<noteq> 0 then Inl SCRIPT_ERR_SIG_NULLFAIL
      else multisig_clean chk i (ikey2 - 1) s)"
| "multisig_clean chk (Suc i) ikey2 [] = Inl SCRIPT_ERR_UNKNOWN_ERROR"

definition multisig_finish :: "eval_env \<Rightarrow> opcodetype \<Rightarrow> bool \<Rightarrow> stack_op" where
  "multisig_finish env opcode fSuccess s =
     (case s of
        [] \<Rightarrow> Inl SCRIPT_ERR_INVALID_STACK_OPERATION
      | dummy # s \<Rightarrow>
          if has (flags env) SCRIPT_VERIFY_NULLDUMMY \<and> length dummy \<noteq> 0 then Inl SCRIPT_ERR_SIG_NULLDUMMY
          else if opcode = OP_CHECKMULTISIGVERIFY then
            (if fSuccess then Inr s else Inl SCRIPT_ERR_CHECKMULTISIGVERIFY)
          else Inr (vchBool fSuccess # s))"

text \<open>The second part, with the number of keys known: the number of signatures, the signatures, the matching and the
  clean-up of the \<open>nKeys + nSigs + 2\<close> arguments.\<close>

definition multisig_run :: "eval_env \<Rightarrow> opcodetype \<Rightarrow> script \<Rightarrow> nat \<Rightarrow> stack_op" where
  "multisig_run env opcode pbegin nKeys s =
     (if length s < nKeys + 2 then Inl SCRIPT_ERR_INVALID_STACK_OPERATION
      else case script_num env (s ! (nKeys + 1)) 4 of
        Inl e \<Rightarrow> Inl e
      | Inr bn \<Rightarrow>
          let nSigsCount = getint bn in
          if nSigsCount < 0 \<or> int nKeys < nSigsCount then Inl SCRIPT_ERR_SIG_COUNT
          else
            let nSigs = nat nSigsCount in
            if length s < nKeys + nSigs + 3 then Inl SCRIPT_ERR_INVALID_STACK_OPERATION
            else
              let keys = take nKeys (drop 1 s);
                  sigs = take nSigs (drop (nKeys + 2) s);
                  scriptCode = foldl (drop_signature env) pbegin sigs in
              case multisig_loop env scriptCode sigs keys of
                Inl e \<Rightarrow> Inl e
              | Inr fSuccess \<Rightarrow>
                  (case multisig_clean (\<not> fSuccess \<and> has (flags env) SCRIPT_VERIFY_NULLFAIL)
                          (nKeys + nSigs + 2) (nKeys + 2) s of
                     Inl e \<Rightarrow> Inl e
                   | Inr s' \<Rightarrow> multisig_finish env opcode fSuccess s'))"

definition exec_CHECKMULTISIG :: "eval_env \<Rightarrow> opcodetype \<Rightarrow> eval_state \<Rightarrow> ScriptError + eval_state" where
  "exec_CHECKMULTISIG env opcode st =
     (if length (stack st) < 1 then Inl SCRIPT_ERR_INVALID_STACK_OPERATION
      else case script_num env (stack st ! 0) 4 of
        Inl e \<Rightarrow> Inl e
      | Inr bn \<Rightarrow>
          let nKeysCount = getint bn in
          if nKeysCount < 0 \<or> MAX_PUBKEYS_PER_MULTISIG < nKeysCount then Inl SCRIPT_ERR_PUBKEY_COUNT
          else
            let nOpCount' = nOpCount st + nKeysCount in
            if MAX_OPS_PER_SCRIPT < nOpCount' then Inl SCRIPT_ERR_OP_COUNT
            else
              (case multisig_run env opcode (pbegincodehash st) (nat nKeysCount) (stack st) of
                 Inl e \<Rightarrow> Inl e
               | Inr s \<Rightarrow> Inr (st\<lparr>stack := s, nOpCount := nOpCount'\<rparr>)))"

subsection \<open>Evaluation\<close>

text \<open>The \<open>switch\<close> in two parts: the operations on the main stack alone, which return \<open>None\<close> for an opcode that is none
  of theirs, and all others.\<close>

definition exec_stack_op :: "eval_env \<Rightarrow> script \<Rightarrow> opcodetype \<Rightarrow> stack_op option" where
  "exec_stack_op env pbegin opcode =
     (if opcode = OP_VERIFY then Some op_VERIFY
      else if opcode = OP_2DROP then Some op_2DROP
      else if opcode = OP_2DUP then Some op_2DUP
      else if opcode = OP_3DUP then Some op_3DUP
      else if opcode = OP_2OVER then Some op_2OVER
      else if opcode = OP_2ROT then Some op_2ROT
      else if opcode = OP_2SWAP then Some op_2SWAP
      else if opcode = OP_IFDUP then Some op_IFDUP
      else if opcode = OP_DEPTH then Some op_DEPTH
      else if opcode = OP_DROP then Some op_DROP
      else if opcode = OP_DUP then Some op_DUP
      else if opcode = OP_NIP then Some op_NIP
      else if opcode = OP_OVER then Some op_OVER
      else if opcode = OP_PICK \<or> opcode = OP_ROLL then Some (op_PICK_ROLL env opcode)
      else if opcode = OP_ROT then Some op_ROT
      else if opcode = OP_SWAP then Some op_SWAP
      else if opcode = OP_TUCK then Some op_TUCK
      else if opcode = OP_SIZE then Some op_SIZE
      else if opcode = OP_EQUAL \<or> opcode = OP_EQUALVERIFY then Some (op_EQUAL opcode)
      else if opcode \<in> {OP_1ADD, OP_1SUB, OP_NEGATE, OP_ABS, OP_NOT, OP_0NOTEQUAL} then Some (op_unary env opcode)
      else if opcode \<in> {OP_ADD, OP_SUB, OP_BOOLAND, OP_BOOLOR, OP_NUMEQUAL, OP_NUMEQUALVERIFY, OP_NUMNOTEQUAL,
                       OP_LESSTHAN, OP_GREATERTHAN, OP_LESSTHANOREQUAL, OP_GREATERTHANOREQUAL, OP_MIN, OP_MAX}
        then Some (op_binary env opcode)
      else if opcode = OP_WITHIN then Some (op_WITHIN env)
      else if opcode \<in> {OP_RIPEMD160, OP_SHA1, OP_SHA256, OP_HASH160, OP_HASH256} then Some (op_HASH env opcode)
      else if opcode = OP_CHECKSIG \<or> opcode = OP_CHECKSIGVERIFY then Some (op_CHECKSIG env opcode pbegin)
      else None)"

definition exec_op ::
  "eval_env \<Rightarrow> script \<Rightarrow> opcodetype \<Rightarrow> bool \<Rightarrow> eval_state \<Rightarrow> ScriptError + eval_state" where
  "exec_op env pc opcode fExec st =
     (case exec_stack_op env (pbegincodehash st) opcode of
        Some f \<Rightarrow> (case f (stack st) of Inl e \<Rightarrow> Inl e | Inr s \<Rightarrow> Inr (st\<lparr>stack := s\<rparr>))
      | None \<Rightarrow>
          if opcode = OP_1NEGATE \<or> OP_1 \<le> opcode \<and> opcode \<le> OP_16 then exec_push_value opcode st
          else if opcode = OP_NOP then Inr st
          else if opcode = OP_CHECKLOCKTIMEVERIFY then exec_CHECKLOCKTIMEVERIFY env st
          else if opcode = OP_CHECKSEQUENCEVERIFY then exec_CHECKSEQUENCEVERIFY env st
          else if opcode = OP_NOP1 \<or> OP_NOP4 \<le> opcode \<and> opcode \<le> OP_NOP10 then exec_NOPn env st
          else if opcode = OP_IF \<or> opcode = OP_NOTIF then exec_IF env opcode fExec st
          else if opcode = OP_ELSE then exec_ELSE st
          else if opcode = OP_ENDIF then exec_ENDIF st
          else if opcode = OP_RETURN then Inl SCRIPT_ERR_OP_RETURN
          else if opcode = OP_TOALTSTACK then exec_TOALTSTACK st
          else if opcode = OP_FROMALTSTACK then exec_FROMALTSTACK st
          else if opcode = OP_CODESEPARATOR then Inr (st\<lparr>pbegincodehash := pc\<rparr>)
          else if opcode = OP_CHECKMULTISIG \<or> opcode = OP_CHECKMULTISIGVERIFY then exec_CHECKMULTISIG env opcode st
          else if opcode = OP_HNB_ASSET then Inr st
          else Inl SCRIPT_ERR_BAD_OPCODE)"

definition disabled_opcode :: "opcodetype \<Rightarrow> bool" where
  "disabled_opcode opcode =
     (opcode \<in> {OP_CAT, OP_SUBSTR, OP_LEFT, OP_RIGHT, OP_INVERT, OP_AND, OP_OR, OP_XOR, OP_2MUL, OP_2DIV, OP_MUL,
               OP_DIV, OP_MOD, OP_LSHIFT, OP_RSHIFT})"

text \<open>One instruction, read by \<open>GetOp\<close> with the iterator \<open>pc\<close> behind it; \<open>run_op\<close> is what it does to the state.\<close>

definition run_op :: "eval_env \<Rightarrow> script \<Rightarrow> opcodetype \<Rightarrow> valtype \<Rightarrow> eval_state \<Rightarrow> ScriptError + eval_state" where
  "run_op env pc opcode vchPushValue st =
     (let fExec = (False \<notin> set (vfExec st)) in
      if fExec \<and> opcode \<le> OP_PUSHDATA4 then
        (if fRequireMinimal env \<and> \<not> CheckMinimalPush vchPushValue opcode then Inl SCRIPT_ERR_MINIMALDATA
         else Inr (st\<lparr>stack := vchPushValue # stack st\<rparr>))
      else if fExec \<or> (OP_IF \<le> opcode \<and> opcode \<le> OP_ENDIF) then exec_op env pc opcode fExec st
      else Inr st)"

definition eval_step ::
  "eval_env \<Rightarrow> script \<Rightarrow> opcodetype \<Rightarrow> valtype \<Rightarrow> eval_state \<Rightarrow> ScriptError + eval_state" where
  "eval_step env pc opcode vchPushValue st =
     (if MAX_SCRIPT_ELEMENT_SIZE < length vchPushValue then Inl SCRIPT_ERR_PUSH_SIZE
      else
        let st = (if OP_16 < opcode then st\<lparr>nOpCount := nOpCount st + 1\<rparr> else st) in
        if OP_16 < opcode \<and> MAX_OPS_PER_SCRIPT < nOpCount st then Inl SCRIPT_ERR_OP_COUNT
        else if disabled_opcode opcode then Inl SCRIPT_ERR_DISABLED_OPCODE
        else case run_op env pc opcode vchPushValue st of
          Inl e \<Rightarrow> Inl e
        | Inr st \<Rightarrow>
            if MAX_STACK_SIZE < length (stack st) + length (altstack st) then Inl SCRIPT_ERR_STACK_SIZE else Inr st)"

function eval_loop :: "eval_env \<Rightarrow> script \<Rightarrow> eval_state \<Rightarrow> ScriptError + eval_state" where
  "eval_loop env pc st =
     (if pc = [] then Inr st
      else case GetOp2 pc of
        (fRet, pc', opcode, vchPushValue) \<Rightarrow>
          if \<not> fRet then Inl SCRIPT_ERR_BAD_OPCODE
          else (case eval_step env pc' opcode vchPushValue st of
                  Inl e \<Rightarrow> Inl e
                | Inr st' \<Rightarrow> eval_loop env pc' st'))"
  by pat_completeness auto
termination
  by (relation "measure (\<lambda>(env, pc, st). length pc)") (auto dest: GetOp2_shorter'[OF sym])

declare eval_loop.simps [simp del]

definition EvalScript :: "eval_env \<Rightarrow> valtype list \<Rightarrow> script \<Rightarrow> ScriptError + valtype list" where
  "EvalScript env s script =
     (if MAX_SCRIPT_SIZE < length script then Inl SCRIPT_ERR_SCRIPT_SIZE
      else case eval_loop env script
          \<lparr>stack = s, altstack = [], vfExec = [], nOpCount = 0, pbegincodehash = script\<rparr> of
        Inl e \<Rightarrow> Inl e
      | Inr st \<Rightarrow> if vfExec st \<noteq> [] then Inl SCRIPT_ERR_UNBALANCED_CONDITIONAL else Inr (stack st))"

subsection \<open>Verification of an input\<close>

text \<open>A failed assertion is \<open>None\<close>. The witness is its stack, bottom first as in the transaction.\<close>

definition witness_stack :: "crypto \<Rightarrow> valtype list \<Rightarrow> bytes \<Rightarrow> ScriptError + valtype list \<times> script" where
  "witness_stack cr witness program =
     (if length program = 32 then
        (if witness = [] then Inl SCRIPT_ERR_WITNESS_PROGRAM_WITNESS_EMPTY
         else if SHA256 cr (last witness) \<noteq> program then Inl SCRIPT_ERR_WITNESS_PROGRAM_MISMATCH
         else Inr (rev (butlast witness), last witness))
      else if length program = 20 then
        (if length witness \<noteq> 2 then Inl SCRIPT_ERR_WITNESS_PROGRAM_MISMATCH
         else Inr (rev witness,
           push_opcode (push_opcode (push_vch (push_opcode (push_opcode [] OP_DUP) OP_HASH160) program)
             OP_EQUALVERIFY) OP_CHECKSIG))
      else Inl SCRIPT_ERR_WITNESS_PROGRAM_WRONG_LENGTH)"

definition VerifyWitnessProgram ::
  "eval_env \<Rightarrow> valtype list \<Rightarrow> int \<Rightarrow> bytes \<Rightarrow> ScriptError option" where
  "VerifyWitnessProgram env witness witversion program =
     (if witversion = 0 then
        (case witness_stack (cry env) witness program of
           Inl e \<Rightarrow> Some e
         | Inr (s, scriptPubKey) \<Rightarrow>
             if list_ex (\<lambda>v. MAX_SCRIPT_ELEMENT_SIZE < length v) s then Some SCRIPT_ERR_PUSH_SIZE
             else (case EvalScript (env\<lparr>sigversion := SIGVERSION_WITNESS_V0\<rparr>) s scriptPubKey of
                     Inl e \<Rightarrow> Some e
                   | Inr s \<Rightarrow>
                       if length s \<noteq> 1 then Some SCRIPT_ERR_EVAL_FALSE
                       else if \<not> CastToBool (hd s) then Some SCRIPT_ERR_EVAL_FALSE
                       else None))
      else if has (flags env) SCRIPT_VERIFY_DISCOURAGE_UPGRADABLE_WITNESS_PROGRAM
        then Some SCRIPT_ERR_DISCOURAGE_UPGRADABLE_WITNESS_PROGRAM
      else None)"

datatype verify_error = ScriptFailure ScriptError | AssertionFailure

text \<open>The two places where a witness program is verified; both leave one element, so that the clean-stack check passes.
  \<open>mismatch\<close> is the test for a \<open>scriptSig\<close> that could be changed without invalidating the input.\<close>

definition verify_witness ::
  "eval_env \<Rightarrow> valtype list \<Rightarrow> script \<Rightarrow> bool \<Rightarrow> ScriptError \<Rightarrow> valtype list \<times> bool \<Rightarrow>
   verify_error + valtype list \<times> bool" where
  "verify_witness env witness program_script mismatch malleated sh =
     (if has (flags env) SCRIPT_VERIFY_WITNESS then
        (case IsWitnessProgram program_script of
           None \<Rightarrow> Inr sh
         | Some (witnessversion, witnessprogram) \<Rightarrow>
             if mismatch then Inl (ScriptFailure malleated)
             else (case VerifyWitnessProgram env witness witnessversion witnessprogram of
                     Some e \<Rightarrow> Inl (ScriptFailure e)
                   | None \<Rightarrow> Inr ([last (fst sh)], True)))
      else Inr sh)"

definition verify_p2sh ::
  "eval_env \<Rightarrow> valtype list \<Rightarrow> script \<Rightarrow> valtype list \<Rightarrow> bool \<Rightarrow> verify_error + valtype list \<times> bool" where
  "verify_p2sh env witness scriptSig stackCopy hadWitness =
     (if \<not> IsPushOnly scriptSig then Inl (ScriptFailure SCRIPT_ERR_SIG_PUSHONLY)
      else case stackCopy of
        [] \<Rightarrow> Inl AssertionFailure
      | pubKey2 # s \<Rightarrow>
          (case EvalScript env s pubKey2 of
             Inl e \<Rightarrow> Inl (ScriptFailure e)
           | Inr s \<Rightarrow>
               if s = [] then Inl (ScriptFailure SCRIPT_ERR_EVAL_FALSE)
               else if \<not> CastToBool (hd s) then Inl (ScriptFailure SCRIPT_ERR_EVAL_FALSE)
               else verify_witness env witness pubKey2 (scriptSig \<noteq> push_vch [] pubKey2)
                      SCRIPT_ERR_WITNESS_MALLEATED_P2SH (s, hadWitness)))"

definition verify_final :: "eval_env \<Rightarrow> valtype list \<Rightarrow> valtype list \<times> bool \<Rightarrow> verify_error + unit" where
  "verify_final env witness sh =
     (if has (flags env) SCRIPT_VERIFY_CLEANSTACK
         \<and> \<not> (has (flags env) SCRIPT_VERIFY_P2SH \<and> has (flags env) SCRIPT_VERIFY_WITNESS) then Inl AssertionFailure
      else if has (flags env) SCRIPT_VERIFY_CLEANSTACK \<and> length (fst sh) \<noteq> 1
        then Inl (ScriptFailure SCRIPT_ERR_CLEANSTACK)
      else if has (flags env) SCRIPT_VERIFY_WITNESS \<and> \<not> has (flags env) SCRIPT_VERIFY_P2SH then Inl AssertionFailure
      else if has (flags env) SCRIPT_VERIFY_WITNESS \<and> \<not> snd sh \<and> witness \<noteq> []
        then Inl (ScriptFailure SCRIPT_ERR_WITNESS_UNEXPECTED)
      else Inr ())"

text \<open>The second half of \<open>VerifyScript\<close>, after the two evaluations.\<close>

definition verify_rest :: "eval_env \<Rightarrow> valtype list \<Rightarrow> script \<Rightarrow> script \<Rightarrow> valtype list \<Rightarrow> valtype list \<Rightarrow> verify_error + unit" where
  "verify_rest env witness scriptSig scriptPubKey stackCopy s =
     (case verify_witness env witness scriptPubKey (scriptSig \<noteq> []) SCRIPT_ERR_WITNESS_MALLEATED (s, False) of
        Inl e \<Rightarrow> Inl e
      | Inr sh \<Rightarrow>
          (case (if has (flags env) SCRIPT_VERIFY_P2SH \<and> IsPayToScriptHash scriptPubKey
                 then verify_p2sh env witness scriptSig stackCopy (snd sh) else Inr sh) of
             Inl e \<Rightarrow> Inl e
           | Inr sh \<Rightarrow> verify_final env witness sh))"

definition VerifyScript :: "eval_env \<Rightarrow> script \<Rightarrow> script \<Rightarrow> valtype list \<Rightarrow> verify_error + unit" where
  "VerifyScript env scriptSig scriptPubKey witness =
     (let env = env\<lparr>sigversion := SIGVERSION_BASE\<rparr> in
      if has (flags env) SCRIPT_VERIFY_SIGPUSHONLY \<and> \<not> IsPushOnly scriptSig
        then Inl (ScriptFailure SCRIPT_ERR_SIG_PUSHONLY)
      else case EvalScript env [] scriptSig of
        Inl e \<Rightarrow> Inl (ScriptFailure e)
      | Inr stackCopy \<Rightarrow>
          (case EvalScript env stackCopy scriptPubKey of
             Inl e \<Rightarrow> Inl (ScriptFailure e)
           | Inr s \<Rightarrow>
               if s = [] then Inl (ScriptFailure SCRIPT_ERR_EVAL_FALSE)
               else if \<not> CastToBool (hd s) then Inl (ScriptFailure SCRIPT_ERR_EVAL_FALSE)
               else verify_rest env witness scriptSig scriptPubKey stackCopy s))"

subsection \<open>Signature operations in witnesses\<close>

definition WitnessSigOps :: "int \<Rightarrow> bytes \<Rightarrow> valtype list \<Rightarrow> nat" where
  "WitnessSigOps witversion witprogram witness =
     (if witversion = 0 then
        (if length witprogram = 20 then 1
         else if length witprogram = 32 \<and> 0 < length witness then GetSigOpCount True (last witness)
         else 0)
      else 0)"

text \<open>\<open>None\<close> is the failed assertion that witness verification comes with pay-to-script-hash.\<close>

definition CountWitnessSigOps :: "script \<Rightarrow> script \<Rightarrow> valtype list \<Rightarrow> u32 \<Rightarrow> nat option" where
  "CountWitnessSigOps scriptSig scriptPubKey witness fl =
     (if \<not> has fl SCRIPT_VERIFY_WITNESS then Some 0
      else if \<not> has fl SCRIPT_VERIFY_P2SH then None
      else case IsWitnessProgram scriptPubKey of
        Some (witnessversion, witnessprogram) \<Rightarrow> Some (WitnessSigOps witnessversion witnessprogram witness)
      | None \<Rightarrow>
          if IsPayToScriptHash scriptPubKey \<and> IsPushOnly scriptSig then
            (case last_push scriptSig [] of
               None \<Rightarrow> Some 0
             | Some data \<Rightarrow>
                 (case IsWitnessProgram data of
                    Some (witnessversion, witnessprogram) \<Rightarrow> Some (WitnessSigOps witnessversion witnessprogram witness)
                  | None \<Rightarrow> Some 0))
          else Some 0)"

subsection \<open>Multisignature matching\<close>

lemma list_emb_ConsD1: "list_emb P (x # xs) ys \<Longrightarrow> list_emb P xs ys"
  by (induction "x # xs" ys rule: list_emb.induct) (auto intro: list_emb.intros)

lemma list_emb_greedy:
  "list_emb P (x # xs) (y # ys) \<longleftrightarrow> (if P x y then list_emb P xs ys else list_emb P (x # xs) ys)"
  by (auto elim: list_emb.cases intro: list_emb.intros list_emb_ConsD1)

text \<open>C22. \<open>OP_CHECKMULTISIG\<close> accepts exactly the ordered matchings. When all signatures and keys are well encoded and
  there are at most as many signatures as keys, the loop with its early exit returns true exactly when the
  signatures can be assigned to distinct keys in the order of the keys such that every signature verifies (an
  order-preserving embedding of the signatures into the keys), although it never tries a key twice.\<close>

theorem multisig_loop_matches:
  assumes "\<And>sig key. sig \<in> set sigs \<Longrightarrow> key \<in> set keys \<Longrightarrow> check_encodings env sig key = None"
    and "length sigs \<le> length keys"
  shows "multisig_loop env scriptCode sigs keys =
    Inr (list_emb (\<lambda>sig key. CheckSig (checker env) sig key scriptCode (sigversion env)) sigs keys)"
  using assms
proof (induction env scriptCode sigs keys rule: multisig_loop.induct)
  case (2 env scriptCode vchSig sigs vchPubKey keys)
  define ok where "ok = CheckSig (checker env) vchSig vchPubKey scriptCode (sigversion env)"
  define sigs' where "sigs' = (if ok then sigs else vchSig # sigs)"
  have enc: "check_encodings env vchSig vchPubKey = None" using 2(2)[of vchSig vchPubKey] by simp
  let ?P = "\<lambda>sig key. CheckSig (checker env) sig key scriptCode (sigversion env)"
  have greedy: "list_emb ?P (vchSig # sigs) (vchPubKey # keys) = list_emb ?P sigs' keys"
    by (simp add: list_emb_greedy sigs'_def ok_def)
  show ?case
  proof (cases "length keys < length sigs'")
    case True
    then have "\<not> list_emb ?P sigs' keys" using list_emb_length[of ?P sigs' keys] by linarith
    then show ?thesis unfolding greedy using True enc by (simp add: sigs'_def ok_def Let_def)
  next
    case False
    have "multisig_loop env scriptCode sigs' keys = Inr (list_emb ?P sigs' keys)"
      by (rule 2(1)[OF enc ok_def sigs'_def False]) (use 2(2) False in \<open>auto simp: sigs'_def split: if_splits\<close>)
    then show ?thesis unfolding greedy using False enc by (simp add: sigs'_def ok_def Let_def)
  qed
qed auto

definition sample_checker :: BaseSignatureChecker where
  "sample_checker = \<lparr>CheckSig = (\<lambda>sig key sc v. sig = key), CheckLockTime = (\<lambda>n. n \<le> 100), CheckSequence = (\<lambda>n. n \<le> 10)\<rparr>"

definition sample_crypto :: crypto where
  "sample_crypto = \<lparr>RIPEMD160 = (\<lambda>b. replicate 20 1), SHA1 = (\<lambda>b. replicate 20 2), SHA256 = (\<lambda>b. replicate 32 3),
     CheckLowS = (\<lambda>b. True)\<rparr>"

definition sample_env :: eval_env where
  "sample_env = \<lparr>flags = 0, checker = sample_checker, cry = sample_crypto, sigversion = SIGVERSION_BASE\<rparr>"

lemma sample_env_simps [simp]:
  "flags sample_env = 0" "checker sample_env = sample_checker" "cry sample_env = sample_crypto"
  "sigversion sample_env = SIGVERSION_BASE" "CheckSig sample_checker sig key sc v = (sig = key)"
  by (simp_all add: sample_env_def sample_checker_def)

lemma has_0 [simp]: "\<not> has 0 f"
  by (simp add: has_def)

theorem multisig_loop_matches_witness:
  "multisig_loop sample_env [] [[1], [3]] [[1], [2], [3]] = Inr True
    \<and> multisig_loop sample_env [] [[3], [1]] [[1], [2], [3]] = Inr False"
proof -
  have enc: "check_encodings sample_env sig key = None" for sig key
    by (simp add: check_encodings_def CheckSignatureEncoding_def CheckPubKeyEncoding_def)
  show ?thesis
    using multisig_loop_matches[of "[[1], [3]]" "[[1], [2], [3]]" sample_env "[]"]
      multisig_loop_matches[of "[[3], [1]]" "[[1], [2], [3]]" sample_env "[]"]
    by (simp add: enc list_emb_greedy del: multisig_loop.simps)
qed

subsection \<open>Limits\<close>

lemma length_abs_bytes: "n < 256 ^ k \<Longrightarrow> length (abs_bytes n) \<le> k"
proof (induction k arbitrary: n)
  case (Suc k)
  then have "n div 256 < 256 ^ k" by (simp add: less_mult_imp_div_less mult.commute)
  then show ?case using Suc.IH[of "n div 256"] by (subst abs_bytes.simps) auto
qed simp

lemma length_serialize:
  assumes "\<bar>n\<bar> < 256 ^ k"
  shows "length (serialize n) \<le> k + 1"
proof -
  let ?x = "if n < 0 then - n else n"
  have "uint (word_of_int ?x :: u64) \<le> ?x" by (simp add: unsigned_of_int take_bit_int_less_eq_self_iff)
  then have "int (unat (word_of_int ?x :: u64)) < 256 ^ k" using assms by (simp split: if_splits)
  then have "unat (word_of_int ?x :: u64) < 256 ^ k" by (metis of_nat_less_iff of_nat_numeral of_nat_power)
  then show ?thesis using length_abs_bytes[of "unat (word_of_int ?x :: u64)" k] unfolding serialize_def Let_def by auto
qed

lemma script_num_abs: "script_num env v 4 = Inr n \<Longrightarrow> \<bar>n\<bar> < 256 ^ 4"
proof -
  assume "script_num env v 4 = Inr n"
  then have l: "length v \<le> 4" and n: "n = set_vch v"
    by (auto simp: script_num_def CScriptNum_def split: option.splits if_splits)
  have "(256 :: int) ^ length v \<le> 256 ^ 4" using l by (intro power_increasing) auto
  then show ?thesis using set_vch_abs[of v] l n by linarith
qed

definition sizes_ok :: "valtype list \<Rightarrow> bool" where
  "sizes_ok s = list_all (\<lambda>v. length v \<le> MAX_SCRIPT_ELEMENT_SIZE) s"

lemma sizes_ok_simps [simp]: "sizes_ok []" "sizes_ok (v # s) \<longleftrightarrow> length v \<le> 520 \<and> sizes_ok s"
  "sizes_ok (s @ t) \<longleftrightarrow> sizes_ok s \<and> sizes_ok t"
  by (simp_all add: sizes_ok_def)

lemma sizes_ok_sub: "sizes_ok s \<Longrightarrow> set t \<subseteq> set s \<Longrightarrow> sizes_ok t"
  by (auto simp: sizes_ok_def list_all_iff)

text \<open>The digests have at most 32 bytes.\<close>

definition crypto_ok :: "crypto \<Rightarrow> bool" where
  "crypto_ok cr \<longleftrightarrow> (\<forall>b. length (RIPEMD160 cr b) = 20 \<and> length (SHA1 cr b) = 20 \<and> length (SHA256 cr b) = 32)"

lemma length_vchBool [simp]: "length (vchBool b) \<le> 520"
  by (simp add: vchBool_def)

lemma serialize_small: "\<bar>n\<bar> < 2 ^ 40 \<Longrightarrow> length (serialize n) \<le> 520"
  using length_serialize[of n 5] by simp

lemma num_unary_small: "\<bar>n\<bar> < 256 ^ 4 \<Longrightarrow> \<bar>num_unary opcode n\<bar> < 2 ^ 40"
  by (auto simp: num_unary_def)

lemma num_binary_small: "\<bar>n\<bar> < 256 ^ 4 \<Longrightarrow> \<bar>m\<bar> < 256 ^ 4 \<Longrightarrow> \<bar>num_binary opcode n m\<bar> < 2 ^ 40"
proof -
  assume b: "\<bar>n\<bar> < 256 ^ 4" "\<bar>m\<bar> < 256 ^ 4"
  have "num_binary opcode n m \<in> {n + m, n - m, 0, 1, n, m}"
    unfolding num_binary_def by (simp only: if_split_mem1 insertI1 insertI2 of_bool_def insert_iff refl simp_thms) simp
  with b show ?thesis by auto
qed

lemma roll_set: "n < length z \<Longrightarrow> set (z ! n # (if b then take n z @ drop (n + 1) z else z)) \<subseteq> set z"
  by (auto dest: in_set_takeD in_set_dropD)

lemma op_PICK_ROLL_sizes: "op_PICK_ROLL env opcode s = Inr s' \<Longrightarrow> sizes_ok s \<Longrightarrow> sizes_ok s'"
proof (cases s rule: remdups_adj.cases)
  case (3 x y t)
  assume r: "op_PICK_ROLL env opcode s = Inr s'" and ok: "sizes_ok s"
  define z where "z = y # t"
  from r obtain bn where n: "\<not> getint bn < 0" "\<not> int (length z) \<le> getint bn"
      "s' = z ! nat (getint bn) # (if opcode = OP_ROLL then take (nat (getint bn)) z @ drop (nat (getint bn) + 1) z else z)"
    unfolding 3 z_def by (auto simp: Let_def split: sum.splits if_splits)
  then have "set s' \<subseteq> set z" using roll_set[of "nat (getint bn)" z "opcode = OP_ROLL"] by simp
  with ok show ?thesis using sizes_ok_sub[of z s'] by (simp add: 3 z_def)
qed auto

lemma op_unary_sizes: "op_unary env opcode s = Inr s' \<Longrightarrow> sizes_ok s \<Longrightarrow> sizes_ok s'"
  by (cases s) (auto split: sum.splits dest!: script_num_abs intro!: serialize_small num_unary_small)

lemma op_binary_sizes: "op_binary env opcode s = Inr s' \<Longrightarrow> sizes_ok s \<Longrightarrow> sizes_ok s'"
  by (cases s rule: remdups_adj.cases)
    (auto simp: Let_def split: sum.splits if_splits dest!: script_num_abs intro!: serialize_small num_binary_small)

lemma op_HASH_sizes: "crypto_ok (cry env) \<Longrightarrow> op_HASH env opcode s = Inr s' \<Longrightarrow> sizes_ok s \<Longrightarrow> sizes_ok s'"
  by (cases s) (auto simp: crypto_ok_def HASH160_def HASH256_def)

lemma op_CHECKSIG_sizes: "op_CHECKSIG env opcode pb s = Inr s' \<Longrightarrow> sizes_ok s \<Longrightarrow> sizes_ok s'"
  by (cases s rule: remdups_adj.cases) (auto simp: Let_def split: option.splits if_splits)

lemma op_shuffle_sizes:
  "op_VERIFY s = Inr s' \<Longrightarrow> sizes_ok s \<Longrightarrow> sizes_ok s'"
  "op_2DROP s = Inr s' \<Longrightarrow> sizes_ok s \<Longrightarrow> sizes_ok s'"
  "op_2DUP s = Inr s' \<Longrightarrow> sizes_ok s \<Longrightarrow> sizes_ok s'"
  "op_3DUP s = Inr s' \<Longrightarrow> sizes_ok s \<Longrightarrow> sizes_ok s'"
  "op_2OVER s = Inr s' \<Longrightarrow> sizes_ok s \<Longrightarrow> sizes_ok s'"
  "op_2ROT s = Inr s' \<Longrightarrow> sizes_ok s \<Longrightarrow> sizes_ok s'"
  "op_2SWAP s = Inr s' \<Longrightarrow> sizes_ok s \<Longrightarrow> sizes_ok s'"
  "op_IFDUP s = Inr s' \<Longrightarrow> sizes_ok s \<Longrightarrow> sizes_ok s'"
  "op_DROP s = Inr s' \<Longrightarrow> sizes_ok s \<Longrightarrow> sizes_ok s'"
  "op_DUP s = Inr s' \<Longrightarrow> sizes_ok s \<Longrightarrow> sizes_ok s'"
  "op_NIP s = Inr s' \<Longrightarrow> sizes_ok s \<Longrightarrow> sizes_ok s'"
  "op_OVER s = Inr s' \<Longrightarrow> sizes_ok s \<Longrightarrow> sizes_ok s'"
  "op_ROT s = Inr s' \<Longrightarrow> sizes_ok s \<Longrightarrow> sizes_ok s'"
  "op_SWAP s = Inr s' \<Longrightarrow> sizes_ok s \<Longrightarrow> sizes_ok s'"
  "op_TUCK s = Inr s' \<Longrightarrow> sizes_ok s \<Longrightarrow> sizes_ok s'"
  "op_EQUAL opcode s = Inr s' \<Longrightarrow> sizes_ok s \<Longrightarrow> sizes_ok s'"
  "op_WITHIN env s = Inr s' \<Longrightarrow> sizes_ok s \<Longrightarrow> sizes_ok s'"
  "op_SIZE s = Inr s' \<Longrightarrow> sizes_ok s \<Longrightarrow> sizes_ok s'"
  by (auto elim!: op_VERIFY.elims op_2DROP.elims op_2DUP.elims op_3DUP.elims op_2OVER.elims op_2ROT.elims
      op_2SWAP.elims op_IFDUP.elims op_DROP.elims op_DUP.elims op_NIP.elims op_OVER.elims op_ROT.elims op_SWAP.elims
      op_TUCK.elims op_EQUAL.elims op_WITHIN.elims op_SIZE.elims
      simp: Let_def split: if_splits sum.splits intro!: serialize_small)

lemma op_DEPTH_sizes: "op_DEPTH s = Inr s' \<Longrightarrow> length s \<le> 1000 \<Longrightarrow> sizes_ok s \<Longrightarrow> sizes_ok s'"
  by (auto simp: op_DEPTH_def intro!: serialize_small)

lemmas stack_op_sizes = op_shuffle_sizes op_PICK_ROLL_sizes op_unary_sizes op_binary_sizes op_CHECKSIG_sizes

lemma exec_stack_op_cases:
  assumes "exec_stack_op env pb opcode = Some f"
  shows "f \<in> {op_VERIFY, op_2DROP, op_2DUP, op_3DUP, op_2OVER, op_2ROT, op_2SWAP, op_IFDUP, op_DEPTH, op_DROP, op_DUP,
    op_NIP, op_OVER, op_PICK_ROLL env opcode, op_ROT, op_SWAP, op_TUCK, op_SIZE, op_EQUAL opcode, op_unary env opcode,
    op_binary env opcode, op_WITHIN env, op_HASH env opcode, op_CHECKSIG env opcode pb}"
  using assms unfolding exec_stack_op_def by (simp split: if_splits)

lemma exec_stack_op_sizes:
  assumes "exec_stack_op env pb opcode = Some f" "f s = Inr s'" "crypto_ok (cry env)" "length s \<le> 1000" "sizes_ok s"
  shows "sizes_ok s'"
  using exec_stack_op_cases[OF assms(1)] assms(2)
  by (auto dest: stack_op_sizes[OF _ assms(5)] op_DEPTH_sizes[OF _ assms(4,5)] op_HASH_sizes[OF assms(3) _ assms(5)])

lemma multisig_clean_sizes: "multisig_clean chk i k s = Inr s' \<Longrightarrow> sizes_ok s \<Longrightarrow> sizes_ok s'"
  by (induction chk i k s rule: multisig_clean.induct) (auto split: if_splits)

lemma multisig_run_sizes: "multisig_run env opcode pb n s = Inr s' \<Longrightarrow> sizes_ok s \<Longrightarrow> sizes_ok s'"
  by (auto simp: multisig_run_def multisig_finish_def Let_def split: if_splits sum.splits list.splits
      dest: multisig_clean_sizes)

definition limits_ok :: "eval_state \<Rightarrow> bool" where
  "limits_ok st = (sizes_ok (stack st) \<and> sizes_ok (altstack st) \<and> nOpCount st \<le> MAX_OPS_PER_SCRIPT)"

lemma exec_CHECKMULTISIG_limits: "exec_CHECKMULTISIG env opcode st = Inr st' \<Longrightarrow> limits_ok st \<Longrightarrow> limits_ok st'"
  by (auto simp: exec_CHECKMULTISIG_def limits_ok_def Let_def split: if_splits sum.splits dest: multisig_run_sizes)

lemma exec_control_limits:
  "exec_push_value opcode st = Inr st' \<Longrightarrow> opcode \<le> OP_16 \<Longrightarrow> limits_ok st \<Longrightarrow> limits_ok st'"
  "exec_CHECKLOCKTIMEVERIFY env st = Inr st' \<Longrightarrow> limits_ok st \<Longrightarrow> limits_ok st'"
  "exec_CHECKSEQUENCEVERIFY env st = Inr st' \<Longrightarrow> limits_ok st \<Longrightarrow> limits_ok st'"
  "exec_NOPn env st = Inr st' \<Longrightarrow> limits_ok st \<Longrightarrow> limits_ok st'"
  "exec_IF env opcode fExec st = Inr st' \<Longrightarrow> limits_ok st \<Longrightarrow> limits_ok st'"
  "exec_ELSE st = Inr st' \<Longrightarrow> limits_ok st \<Longrightarrow> limits_ok st'"
  "exec_ENDIF st = Inr st' \<Longrightarrow> limits_ok st \<Longrightarrow> limits_ok st'"
  "exec_TOALTSTACK st = Inr st' \<Longrightarrow> limits_ok st \<Longrightarrow> limits_ok st'"
  "exec_FROMALTSTACK st = Inr st' \<Longrightarrow> limits_ok st \<Longrightarrow> limits_ok st'"
  by (auto simp: limits_ok_def exec_push_value_def exec_CHECKLOCKTIMEVERIFY_def exec_CHECKSEQUENCEVERIFY_def
      exec_NOPn_def exec_IF_def exec_ELSE_def exec_ENDIF_def exec_TOALTSTACK_def exec_FROMALTSTACK_def Let_def
      split: if_splits list.splits sum.splits intro!: serialize_small)

lemma limits_ok_pbegin [simp]: "limits_ok (st\<lparr>pbegincodehash := pc\<rparr>) = limits_ok st"
  by (simp add: limits_ok_def)

lemma if_InrE: "(if c then a else b) = Inr x \<Longrightarrow> (c \<Longrightarrow> a = Inr x \<Longrightarrow> P) \<Longrightarrow> (\<not> c \<Longrightarrow> b = Inr x \<Longrightarrow> P) \<Longrightarrow> P"
  by (simp split: if_splits)

lemma InrD: "Inr x = Inr y \<Longrightarrow> y = x"
  by simp

lemma exec_op_other:
  assumes "exec_op env pc opcode fExec st = Inr st'" "exec_stack_op env (pbegincodehash st) opcode = None"
  shows "opcode \<le> OP_16 \<and> exec_push_value opcode st = Inr st' \<or> st' = st \<or> exec_CHECKLOCKTIMEVERIFY env st = Inr st'
    \<or> exec_CHECKSEQUENCEVERIFY env st = Inr st' \<or> exec_NOPn env st = Inr st' \<or> exec_IF env opcode fExec st = Inr st'
    \<or> exec_ELSE st = Inr st' \<or> exec_ENDIF st = Inr st' \<or> exec_TOALTSTACK st = Inr st' \<or> exec_FROMALTSTACK st = Inr st'
    \<or> st' = st\<lparr>pbegincodehash := pc\<rparr> \<or> exec_CHECKMULTISIG env opcode st = Inr st'"
proof -
  have small: "opcode \<le> OP_16" if "opcode = OP_1NEGATE \<or> OP_1 \<le> opcode \<and> opcode \<le> OP_16" using that by auto
  note r = assms(1)[unfolded exec_op_def assms(2) option.case]
  show ?thesis by (rule if_InrE[OF r]; (elim if_InrE)?; (drule InrD)?; use small in blast)
qed

lemma exec_op_limits:
  assumes "exec_op env pc opcode fExec st = Inr st'" "crypto_ok (cry env)" "limits_ok st" "length (stack st) \<le> 1000"
  shows "limits_ok st'"
proof (cases "exec_stack_op env (pbegincodehash st) opcode")
  case (Some f)
  then obtain s where "f (stack st) = Inr s" "st' = st\<lparr>stack := s\<rparr>"
    using assms(1) by (auto simp: exec_op_def split: sum.splits)
  with exec_stack_op_sizes[OF Some _ assms(2,4)] assms(3) show ?thesis by (auto simp: limits_ok_def)
next
  case None
  from exec_op_other[OF assms(1) None] assms(3) show ?thesis
    by (elim disjE conjE; (simp only: limits_ok_pbegin)?; blast intro: exec_control_limits exec_CHECKMULTISIG_limits)
qed

definition stack_total :: "eval_state \<Rightarrow> nat" where
  "stack_total st = length (stack st) + length (altstack st)"

lemma case_InrE: "(case r of Inl e \<Rightarrow> Inl e | Inr y \<Rightarrow> f y) = Inr x \<Longrightarrow> (\<And>y. r = Inr y \<Longrightarrow> f y = Inr x \<Longrightarrow> P) \<Longrightarrow> P"
  by (simp split: sum.splits)

lemma run_op_cases:
  assumes "run_op env pc opcode vch st = Inr st'"
  shows "st' = st\<lparr>stack := vch # stack st\<rparr> \<or> st' = st \<or> exec_op env pc opcode (False \<notin> set (vfExec st)) st = Inr st'"
  using assms unfolding run_op_def Let_def by (elim if_InrE; (drule InrD)?; blast)

definition count_op :: "opcodetype \<Rightarrow> eval_state \<Rightarrow> eval_state" where
  "count_op opcode st = (if OP_16 < opcode then st\<lparr>nOpCount := nOpCount st + 1\<rparr> else st)"

lemma count_op_simps [simp]: "stack (count_op opcode st) = stack st" "altstack (count_op opcode st) = altstack st"
  "vfExec (count_op opcode st) = vfExec st" "pbegincodehash (count_op opcode st) = pbegincodehash st"
  by (simp_all add: count_op_def)

lemma eval_step_InrE:
  assumes "eval_step env pc opcode vch st = Inr st'"
  obtains "length vch \<le> 520" "\<not> (OP_16 < opcode \<and> 201 < nOpCount (count_op opcode st))" "\<not> disabled_opcode opcode"
    "run_op env pc opcode vch (count_op opcode st) = Inr st'" "stack_total st' \<le> 1000"
  using assms unfolding eval_step_def count_op_def[symmetric] Let_def
  by (elim if_InrE case_InrE; (drule InrD)?; (elim Inl_Inr_False)?) (auto simp: stack_total_def)

lemma eval_step_limits:
  assumes "eval_step env pc opcode vch st = Inr st'" "crypto_ok (cry env)" "limits_ok st" "stack_total st \<le> 1000"
  shows "limits_ok st' \<and> stack_total st' \<le> 1000"
proof -
  let ?st = "count_op opcode st"
  from assms(1) have v: "length vch \<le> 520" "\<not> (OP_16 < opcode \<and> 201 < nOpCount ?st)"
      "run_op env pc opcode vch ?st = Inr st'" "stack_total st' \<le> 1000"
    by (auto elim: eval_step_InrE)
  have l1: "limits_ok ?st" "length (stack ?st) \<le> 1000"
    using assms(3,4) v(2) by (auto simp: limits_ok_def stack_total_def count_op_def split: if_splits)
  from run_op_cases[OF v(3)] have "limits_ok st'"
    using l1 v(1) exec_op_limits[OF _ assms(2) l1] by (elim disjE) (simp_all add: limits_ok_def)
  with v(4) show ?thesis by simp
qed

lemma eval_loop_limits:
  assumes "crypto_ok (cry env)"
  shows "eval_loop env pc st = Inr st' \<Longrightarrow> limits_ok st \<Longrightarrow> stack_total st \<le> 1000 \<Longrightarrow> limits_ok st' \<and> stack_total st' \<le> 1000"
  using assms
proof (induction env pc st rule: eval_loop.induct)
  case (1 env pc st)
  show ?case
  proof (cases "pc = []")
    case False
    then obtain pc' opcode vch st1 where s: "GetOp2 pc = (True, pc', opcode, vch)" "eval_step env pc' opcode vch st = Inr st1"
        "eval_loop env pc' st1 = Inr st'"
      using 1(2) by (subst (asm) eval_loop.simps) (auto split: prod.splits if_splits sum.splits)
    then show ?thesis
      using 1(1)[OF False s(1)[symmetric] refl refl _ s(2)] eval_step_limits[OF s(2) 1(5,3,4)] 1(5) by simp
  qed (use 1 in \<open>simp add: eval_loop.simps\<close>)
qed

text \<open>C16. Limits of an evaluation. If the initial stack has at most \<open>MAX_STACK_SIZE\<close> elements of at most
  \<open>MAX_SCRIPT_ELEMENT_SIZE\<close> bytes each, then so has the final stack of every script that evaluates successfully,
  whatever opcodes it uses. The hypothesis on the hash functions is the length of their digests.\<close>

theorem EvalScript_limits:
  assumes "crypto_ok (cry env)" "length s \<le> MAX_STACK_SIZE" "\<forall>v\<in>set s. length v \<le> MAX_SCRIPT_ELEMENT_SIZE"
    and "EvalScript env s script = Inr s'"
  shows "length s' \<le> MAX_STACK_SIZE \<and> (\<forall>v\<in>set s'. length v \<le> MAX_SCRIPT_ELEMENT_SIZE)"
proof -
  let ?st = "\<lparr>stack = s, altstack = [], vfExec = [], nOpCount = 0, pbegincodehash = script\<rparr>"
  obtain st where st: "eval_loop env script ?st = Inr st" "s' = stack st"
    using assms(4) by (auto simp: EvalScript_def split: if_splits sum.splits)
  have "limits_ok ?st" "stack_total ?st \<le> 1000"
    using assms(2,3) by (simp_all add: limits_ok_def sizes_ok_def list_all_iff stack_total_def)
  from eval_loop_limits[OF assms(1) st(1) this] show ?thesis
    unfolding st(2) limits_ok_def sizes_ok_def stack_total_def list_all_iff by simp
qed

lemma sample_crypto_ok: "crypto_ok (cry sample_env)"
  by (simp add: crypto_ok_def sample_crypto_def)

theorem EvalScript_limits_witness:
  "EvalScript sample_env [] [0x52, 0x76, 0x93] = Inr [[4]] \<and> length [[4 :: u8]] \<le> MAX_STACK_SIZE
    \<and> length [4 :: u8] \<le> MAX_SCRIPT_ELEMENT_SIZE"
proof -
  have "EvalScript sample_env [] [0x52, 0x76, 0x93] = Inr [[4]]" by code_simp
  with EvalScript_limits[OF sample_crypto_ok, of "[]" "[0x52, 0x76, 0x93]" "[[4]]"] show ?thesis by simp
qed

subsection \<open>More flags never accept more\<close>

text \<open>A computation is more restrictive than another if every result of the first is a result of the second.\<close>

definition restr :: "'e + 'a \<Rightarrow> 'e + 'a \<Rightarrow> bool" where
  "restr r' r \<longleftrightarrow> (\<forall>x. r' = Inr x \<longrightarrow> r = Inr x)"

named_theorems restr_rules \<open>composition of more restrictive computations\<close>

lemma restr_refl [restr_rules]: "restr r r"
  by (simp add: restr_def)

lemma restr_Inl [restr_rules]: "restr (Inl e) r"
  by (simp add: restr_def)

lemma restr_bind [restr_rules]:
  "restr r' r \<Longrightarrow> (\<And>y. restr (f' y) (f y)) \<Longrightarrow>
   restr (case r' of Inl e \<Rightarrow> Inl e | Inr y \<Rightarrow> f' y) (case r of Inl e \<Rightarrow> Inl e | Inr y \<Rightarrow> f y)"
  by (auto simp: restr_def split: sum.splits)

lemma restr_if [restr_rules]: "restr a' a \<Longrightarrow> restr b' b \<Longrightarrow> restr (if c then a' else b') (if c then a else b)"
  by simp

lemma restr_guard: "(c \<Longrightarrow> c') \<Longrightarrow> restr r' r \<Longrightarrow> restr (if c' then Inl e else r') (if c then Inl e else r)"
  by (auto simp: restr_def)

lemma restr_none:
  "(o' = None \<Longrightarrow> oo = None) \<Longrightarrow> restr r' r \<Longrightarrow>
   restr (case o' of Some e \<Rightarrow> Inl e | None \<Rightarrow> r') (case oo of Some e \<Rightarrow> Inl e | None \<Rightarrow> r)"
  by (auto simp: restr_def split: option.splits)

text \<open>\<open>env'\<close> has all the flags of \<open>env\<close> and possibly more. If \<open>env\<close> discourages the upgradable no-operations, it must have the
  rules of \<open>env'\<close> for the two of them that are in use; otherwise they would be discouraged in \<open>env\<close> only.\<close>

definition tighter :: "eval_env \<Rightarrow> eval_env \<Rightarrow> bool" where
  "tighter env env' \<longleftrightarrow> checker env' = checker env \<and> cry env' = cry env \<and> sigversion env' = sigversion env
     \<and> flags env OR flags env' = flags env'
     \<and> (has (flags env) SCRIPT_VERIFY_DISCOURAGE_UPGRADABLE_NOPS \<longrightarrow>
          (has (flags env') SCRIPT_VERIFY_CHECKLOCKTIMEVERIFY \<longrightarrow> has (flags env) SCRIPT_VERIFY_CHECKLOCKTIMEVERIFY)
          \<and> (has (flags env') SCRIPT_VERIFY_CHECKSEQUENCEVERIFY \<longrightarrow> has (flags env) SCRIPT_VERIFY_CHECKSEQUENCEVERIFY))"

lemma has_mono:
  assumes "a OR b = b" "has a f"
  shows "has b f"
proof -
  have "a AND f = (a AND f) AND b" using assms(1) by (metis word_ao_absorbs(3) word_bw_assocs(1) word_bw_comms(1))
  with assms(2) show ?thesis unfolding has_def by (metis word_bw_assocs(1) word_bw_comms(1) and_zero_eq)
qed

lemma tighterD:
  assumes "tighter env env'"
  shows "checker env' = checker env" "cry env' = cry env" "sigversion env' = sigversion env"
    and "has (flags env) f \<Longrightarrow> has (flags env') f" "fRequireMinimal env \<Longrightarrow> fRequireMinimal env'"
    and "has (flags env) SCRIPT_VERIFY_DISCOURAGE_UPGRADABLE_NOPS \<Longrightarrow> has (flags env') SCRIPT_VERIFY_CHECKLOCKTIMEVERIFY
      \<Longrightarrow> has (flags env) SCRIPT_VERIFY_CHECKLOCKTIMEVERIFY"
    and "has (flags env) SCRIPT_VERIFY_DISCOURAGE_UPGRADABLE_NOPS \<Longrightarrow> has (flags env') SCRIPT_VERIFY_CHECKSEQUENCEVERIFY
      \<Longrightarrow> has (flags env) SCRIPT_VERIFY_CHECKSEQUENCEVERIFY"
  using assms has_mono[of "flags env" "flags env'"] by (auto simp: tighter_def fRequireMinimal_def)

lemma script_num_restr [restr_rules]: "tighter env env' \<Longrightarrow> restr (script_num env' v k) (script_num env v k)"
  using tighterD(5)[of env env'] by (auto simp: restr_def script_num_def CScriptNum_def split: option.splits if_splits)

lemma check_encodings_mono:
  assumes "tighter env env'" "check_encodings env' sig key = None"
  shows "check_encodings env sig key = None"
proof -
  have "CheckSignatureEncoding (cry env') sig (flags env') = None" "CheckPubKeyEncoding key (flags env') (sigversion env') = None"
    using assms(2) by (auto simp: check_encodings_def split: option.splits)
  then have "CheckSignatureEncoding (cry env) sig (flags env) = None" "CheckPubKeyEncoding key (flags env) (sigversion env) = None"
    using tighterD(1-4)[OF assms(1)] by (auto simp: CheckSignatureEncoding_def CheckPubKeyEncoding_def split: if_splits)
  then show ?thesis by (simp add: check_encodings_def)
qed

lemma multisig_loop_restr [restr_rules]:
  assumes t: "tighter env env'"
  shows "restr (multisig_loop env' sc sigs keys) (multisig_loop env sc sigs keys)"
  using t
proof (induction env' sc sigs keys rule: multisig_loop.induct)
  case (2 env' sc vchSig sigs vchPubKey keys)
  show ?case
  proof (cases "check_encodings env' vchSig vchPubKey")
    case None
    then show ?thesis
      using 2(1)[OF None refl refl _ 2(2)] check_encodings_mono[OF 2(2) None] tighterD(1-3)[OF 2(2)]
      by (simp add: Let_def restr_refl)
  qed (simp add: restr_Inl)
qed (simp_all add: restr_refl)

lemma multisig_clean_restr:
  "(chk \<Longrightarrow> chk') \<Longrightarrow> restr (multisig_clean chk' i k s) (multisig_clean chk i k s)"
proof (induction chk' i k s rule: multisig_clean.induct)
  case (2 chk' i k v s)
  then show ?case by (auto intro!: restr_guard restr_Inl)
qed (simp_all add: restr_refl)

lemma drop_signature_tighter: "tighter env env' \<Longrightarrow> drop_signature env' = drop_signature env"
  by (intro ext) (simp add: drop_signature_def tighterD)

lemma multisig_finish_restr [restr_rules]:
  "tighter env env' \<Longrightarrow> restr (multisig_finish env' opcode b s) (multisig_finish env opcode b s)"
  by (cases s) (auto simp: multisig_finish_def intro!: restr_guard restr_refl restr_Inl dest: tighterD(4))

lemma multisig_run_restr [restr_rules]:
  assumes t: "tighter env env'"
  shows "restr (multisig_run env' opcode pb n s) (multisig_run env opcode pb n s)"
  unfolding multisig_run_def drop_signature_tighter[OF t] Let_def
  by (intro restr_rules t multisig_clean_restr) (auto dest: tighterD(4)[OF t])

lemma exec_CHECKMULTISIG_restr [restr_rules]:
  assumes t: "tighter env env'"
  shows "restr (exec_CHECKMULTISIG env' opcode st) (exec_CHECKMULTISIG env opcode st)"
  unfolding exec_CHECKMULTISIG_def Let_def by (intro restr_rules t)

lemma op_number_restr:
  assumes t: "tighter env env'"
  shows "restr (op_PICK_ROLL env' opcode s) (op_PICK_ROLL env opcode s)"
    and "restr (op_unary env' opcode s) (op_unary env opcode s)"
    and "restr (op_binary env' opcode s) (op_binary env opcode s)"
  by (cases s rule: remdups_adj.cases; simp only: op_PICK_ROLL.simps op_unary.simps op_binary.simps; intro restr_rules t)+

lemma op_WITHIN_restr:
  assumes t: "tighter env env'"
  shows "restr (op_WITHIN env' s) (op_WITHIN env s)"
proof (cases "length s < 3")
  case False
  then obtain x y z u where "s = x # y # z # u" by (metis Suc_le_length_iff linorder_not_less numeral_3_eq_3)
  then show ?thesis by (simp only: op_WITHIN.simps) (intro restr_rules t)
next
  case True
  then show ?thesis by (cases s rule: remdups_adj.cases) (auto simp: restr_Inl elim: op_WITHIN.elims split: list.splits)
qed

lemma op_HASH_tighter: "tighter env env' \<Longrightarrow> op_HASH env' opcode s = op_HASH env opcode s"
  by (cases s) (simp_all add: tighterD)

lemma op_CHECKSIG_restr:
  assumes t: "tighter env env'"
  shows "restr (op_CHECKSIG env' opcode pb s) (op_CHECKSIG env opcode pb s)"
proof (cases s rule: remdups_adj.cases)
  case (3 vchPubKey vchSig s)
  show ?thesis
    unfolding 3 op_CHECKSIG.simps Let_def drop_signature_tighter[OF t] tighterD(1-3)[OF t]
    by (intro restr_none restr_guard restr_refl) (auto dest: check_encodings_mono[OF t] tighterD(4)[OF t])
qed (simp_all add: restr_Inl)

lemma rel_option_if:
  "rel_option R a' a \<Longrightarrow> rel_option R b' b \<Longrightarrow> rel_option R (if c then a' else b') (if c then a else b)"
  by simp

lemma exec_stack_op_restr:
  assumes t: "tighter env env'"
  shows "rel_option (\<lambda>f' f. \<forall>s. restr (f' s) (f s)) (exec_stack_op env' pb opcode) (exec_stack_op env pb opcode)"
  unfolding exec_stack_op_def
  by (intro rel_option_if option.rel_intros allI restr_refl op_number_restr op_WITHIN_restr op_CHECKSIG_restr t)
    (simp add: op_HASH_tighter[OF t] restr_refl)

lemma script_num_tighter: "tighter env env' \<Longrightarrow> script_num env' v k = Inr n \<Longrightarrow> script_num env v k = Inr n"
  using script_num_restr[of env env' v k] by (simp add: restr_def)

lemma exec_locktime_restr [restr_rules]:
  assumes t: "tighter env env'"
  shows "restr (exec_CHECKLOCKTIMEVERIFY env' st) (exec_CHECKLOCKTIMEVERIFY env st)"
    and "restr (exec_CHECKSEQUENCEVERIFY env' st) (exec_CHECKSEQUENCEVERIFY env st)"
  using tighterD[OF t]
  by (auto simp: exec_CHECKLOCKTIMEVERIFY_def exec_CHECKSEQUENCEVERIFY_def restr_def split: list.splits sum.splits if_splits
      dest!: script_num_tighter[OF t])

lemma exec_flow_restr [restr_rules]:
  assumes t: "tighter env env'"
  shows "restr (exec_NOPn env' st) (exec_NOPn env st)" "restr (exec_IF env' opcode fExec st) (exec_IF env opcode fExec st)"
  using tighterD(1-4)[OF t]
  by (auto simp: exec_NOPn_def exec_IF_def restr_def Let_def split: list.splits if_splits)

lemma exec_op_restr [restr_rules]:
  assumes t: "tighter env env'"
  shows "restr (exec_op env' pc opcode fExec st) (exec_op env pc opcode fExec st)"
proof (cases "exec_stack_op env (pbegincodehash st) opcode")
  case None
  then have N: "exec_stack_op env' (pbegincodehash st) opcode = None"
    using exec_stack_op_restr[OF t, of "pbegincodehash st" opcode] by simp
  show ?thesis unfolding exec_op_def None N option.case by (intro restr_rules t)
next
  case (Some f)
  then obtain f' where S: "exec_stack_op env' (pbegincodehash st) opcode = Some f'" "\<And>s. restr (f' s) (f s)"
    using exec_stack_op_restr[OF t, of "pbegincodehash st" opcode] by (auto simp: option_rel_Some2)
  show ?thesis unfolding exec_op_def Some S(1) option.case by (intro restr_rules S(2))
qed

lemma run_op_restr [restr_rules]:
  assumes t: "tighter env env'"
  shows "restr (run_op env' pc opcode vch st) (run_op env pc opcode vch st)"
  unfolding run_op_def Let_def by (intro restr_if restr_guard restr_refl exec_op_restr t) (use tighterD(5)[OF t] in blast)

lemma eval_step_restr [restr_rules]:
  "tighter env env' \<Longrightarrow> restr (eval_step env' pc opcode vch st) (eval_step env pc opcode vch st)"
  unfolding eval_step_def Let_def by (intro restr_rules)

lemma eval_loop_restr [restr_rules]:
  assumes t: "tighter env env'"
  shows "restr (eval_loop env' pc st) (eval_loop env pc st)"
  using t
proof (induction env' pc st rule: eval_loop.induct)
  case (1 env' pc st)
  show ?case
  proof (cases "pc = [] \<or> \<not> fst (GetOp2 pc)")
    case False
    then obtain pc' opcode vch where g: "GetOp2 pc = (True, pc', opcode, vch)" "pc \<noteq> []" by (cases "GetOp2 pc") auto
    have IH: "restr (eval_loop env' pc' st1) (eval_loop env pc' st1)" if "eval_step env' pc' opcode vch st = Inr st1" for st1
      using 1(1)[OF g(2) g(1)[symmetric] refl refl _ that 1(2)] by simp
    have "eval_step env pc' opcode vch st = Inr st1" if "eval_step env' pc' opcode vch st = Inr st1" for st1
      using eval_step_restr[OF 1(2), of pc' opcode vch st] that by (simp add: restr_def)
    then show ?thesis
      using IH g unfolding eval_loop.simps[of env' pc] eval_loop.simps[of env pc]
      by (cases "eval_step env' pc' opcode vch st") (auto simp: restr_Inl)
  next
    case True
    then show ?thesis by (cases "GetOp2 pc") (auto simp: eval_loop.simps restr_refl)
  qed
qed

lemma EvalScript_restr [restr_rules]:
  "tighter env env' \<Longrightarrow> restr (EvalScript env' s script) (EvalScript env s script)"
  unfolding EvalScript_def by (intro restr_rules)

lemma tighter_sigversion: "tighter env env' \<Longrightarrow> tighter (env\<lparr>sigversion := v\<rparr>) (env'\<lparr>sigversion := v\<rparr>)"
  by (simp add: tighter_def)

lemma VerifyWitnessProgram_mono:
  assumes t: "tighter env env'" and ok: "VerifyWitnessProgram env' w ver prog = None"
  shows "VerifyWitnessProgram env w ver prog = None"
proof (cases "ver = 0")
  case True
  obtain s sc s2 where s: "witness_stack (cry env) w prog = Inr (s, sc)" "\<not> list_ex (\<lambda>v. 520 < length v) s"
      "EvalScript (env'\<lparr>sigversion := SIGVERSION_WITNESS_V0\<rparr>) s sc = Inr s2" "length s2 = 1" "CastToBool (hd s2)"
    using ok True tighterD(2)[OF t] by (auto simp: VerifyWitnessProgram_def split: sum.splits prod.splits if_splits)
  then have "EvalScript (env\<lparr>sigversion := SIGVERSION_WITNESS_V0\<rparr>) s sc = Inr s2"
    using EvalScript_restr[OF tighter_sigversion[OF t], of SIGVERSION_WITNESS_V0 s sc] by (simp add: restr_def)
  with s True show ?thesis by (simp add: VerifyWitnessProgram_def)
next
  case False
  with ok tighterD(4)[OF t] show ?thesis by (auto simp: VerifyWitnessProgram_def split: if_splits)
qed

lemma verify_witness_restr:
  assumes t: "tighter env env'" and w: "has (flags env) SCRIPT_VERIFY_WITNESS"
  shows "restr (verify_witness env' w p b e sh) (verify_witness env w p b e sh)"
  using w tighterD(4)[OF t w] VerifyWitnessProgram_mono[OF t]
  by (auto simp: verify_witness_def restr_def split: option.splits if_splits)

lemma EvalScript_tighter: "tighter env env' \<Longrightarrow> EvalScript env' s sc = Inr r \<Longrightarrow> EvalScript env s sc = Inr r"
  using EvalScript_restr[of env env' s sc] by (simp add: restr_def)

lemma verify_p2sh_mono:
  assumes t: "tighter env env'" and ok: "verify_p2sh env' w sig sc had = Inr sh"
  shows "\<exists>sh2. verify_p2sh env w sig sc had = Inr sh2 \<and> (has (flags env) SCRIPT_VERIFY_WITNESS \<longrightarrow> sh2 = sh)"
proof -
  obtain k s r where r: "IsPushOnly sig" "sc = k # s" "EvalScript env' s k = Inr r" "r \<noteq> []" "CastToBool (hd r)"
      "verify_witness env' w k (sig \<noteq> push_vch [] k) SCRIPT_ERR_WITNESS_MALLEATED_P2SH (r, had) = Inr sh"
    using ok by (auto simp: verify_p2sh_def split: if_splits list.splits sum.splits)
  have "EvalScript env s k = Inr r" by (rule EvalScript_tighter[OF t r(3)])
  then have eq: "verify_p2sh env w sig sc had =
      verify_witness env w k (sig \<noteq> push_vch [] k) SCRIPT_ERR_WITNESS_MALLEATED_P2SH (r, had)"
    using r by (simp add: verify_p2sh_def)
  show ?thesis
  proof (cases "has (flags env) SCRIPT_VERIFY_WITNESS")
    case True
    with r(6) eq show ?thesis using verify_witness_restr[OF t True] unfolding restr_def by metis
  qed (auto simp: eq verify_witness_def)
qed

lemma verify_final_mono:
  assumes "tighter env env'" "verify_final env' w sh = Inr ()"
    and "has (flags env) SCRIPT_VERIFY_CLEANSTACK \<Longrightarrow> has (flags env) SCRIPT_VERIFY_WITNESS"
    and "has (flags env) SCRIPT_VERIFY_WITNESS \<Longrightarrow> has (flags env) SCRIPT_VERIFY_P2SH"
  shows "verify_final env w sh = Inr ()"
  using assms tighterD(4)[OF assms(1)] by (auto simp: verify_final_def split: if_splits)

lemma IsPayToScriptHash_not_witness: "IsPayToScriptHash pk \<Longrightarrow> IsWitnessProgram pk = None"
  by (auto simp: IsPayToScriptHash_def IsWitnessProgram_def)

lemma verify_rest_mono:
  assumes t: "tighter env env'" and ok: "verify_rest env' w sig pk sc s = Inr ()"
    and c: "has (flags env) SCRIPT_VERIFY_CLEANSTACK \<Longrightarrow> has (flags env) SCRIPT_VERIFY_WITNESS"
    and p: "has (flags env) SCRIPT_VERIFY_WITNESS \<Longrightarrow> has (flags env) SCRIPT_VERIFY_P2SH"
  shows "verify_rest env w sig pk sc s = Inr ()"
proof -
  let ?ww = "\<lambda>env. verify_witness env w pk (sig \<noteq> []) SCRIPT_ERR_WITNESS_MALLEATED (s, False)"
  let ?pp = "\<lambda>env sh. if has (flags env) SCRIPT_VERIFY_P2SH \<and> IsPayToScriptHash pk
    then verify_p2sh env w sig sc (snd sh) else Inr sh"
  obtain sh1 sh2 where ok': "?ww env' = Inr sh1" "?pp env' sh1 = Inr sh2" "verify_final env' w sh2 = Inr ()"
    using ok unfolding verify_rest_def by (auto split: sum.splits)
  show ?thesis
  proof (cases "has (flags env) SCRIPT_VERIFY_WITNESS")
    case True
    have "?ww env = Inr sh1" using verify_witness_restr[OF t True] ok'(1) unfolding restr_def by blast
    moreover have "?pp env sh1 = Inr sh2"
      using ok'(2) verify_p2sh_mono[OF t, of w sig sc "snd sh1" sh2] True p[OF True] tighterD(4)[OF t p[OF True]]
      by (auto split: if_splits)
    ultimately show ?thesis
      unfolding verify_rest_def using verify_final_mono[OF t ok'(3) c p] by simp
  next
    case False
    have "?ww env = Inr (s, False)" using False by (simp add: verify_witness_def)
    moreover obtain sh where "?pp env (s, False) = Inr sh"
    proof (cases "has (flags env) SCRIPT_VERIFY_P2SH \<and> IsPayToScriptHash pk")
      case True
      then have "verify_p2sh env' w sig sc (snd sh1) = Inr sh2" using ok'(2) tighterD(4)[OF t] by simp
      moreover have "snd sh1 = False"
        using ok'(1) IsPayToScriptHash_not_witness[of pk] True by (auto simp: verify_witness_def split: if_splits)
      ultimately show ?thesis using verify_p2sh_mono[OF t, of w sig sc False sh2] True that by auto
    qed (use that in auto)
    moreover have "verify_final env w sh = Inr ()" for sh using False c by (auto simp: verify_final_def)
    ultimately show ?thesis unfolding verify_rest_def by simp
  qed
qed

lemma VerifyScript_mono:
  assumes "tighter env env'"
    and "has (flags env) SCRIPT_VERIFY_CLEANSTACK \<longrightarrow> has (flags env) SCRIPT_VERIFY_WITNESS"
    and "has (flags env) SCRIPT_VERIFY_WITNESS \<longrightarrow> has (flags env) SCRIPT_VERIFY_P2SH"
    and "VerifyScript env' scriptSig scriptPubKey witness = Inr ()"
  shows "VerifyScript env scriptSig scriptPubKey witness = Inr ()"
proof -
  let ?b = "\<lambda>env. env\<lparr>sigversion := SIGVERSION_BASE\<rparr>"
  have t: "tighter (?b env) (?b env')" by (rule tighter_sigversion[OF assms(1)])
  obtain sc s where s: "EvalScript (?b env') [] scriptSig = Inr sc" "EvalScript (?b env') sc scriptPubKey = Inr s"
      "s \<noteq> []" "CastToBool (hd s)" "verify_rest (?b env') witness scriptSig scriptPubKey sc s = Inr ()"
      "\<not> (has (flags env') SCRIPT_VERIFY_SIGPUSHONLY \<and> \<not> IsPushOnly scriptSig)"
    using assms(4) unfolding VerifyScript_def by (auto simp: Let_def split: if_splits sum.splits)
  have "verify_rest (?b env) witness scriptSig scriptPubKey sc s = Inr ()"
    by (rule verify_rest_mono[OF t s(5)]) (use assms(2,3) in simp_all)
  then show ?thesis
    using EvalScript_tighter[OF t s(1)] EvalScript_tighter[OF t s(2)] s(3,4,6) tighterD(4)[OF assms(1)]
    unfolding VerifyScript_def by (auto simp: Let_def)
qed

text \<open>C2. Verification flags are soft-fork safe. An input that is valid with a set of flags is valid with a subset of them, for
  any scripts, witness and signature checker, if the subset meets three conditions: it asks for a clean stack only with
  witnesses and for witnesses only with pay-to-script-hash, as the code asserts; and if it discourages upgradable
  no-operations, it keeps those of the two lock-time rules that the larger set has. The last condition is needed: a
  subset that keeps \<open>DISCOURAGE_UPGRADABLE_NOPS\<close> and drops a lock-time rule rejects the opcode of that rule
  (\<open>discouraged_nops_excluded\<close> below).\<close>

theorem VerifyScript_softfork_safe:
  assumes "flags env OR fl' = fl'"
    and "has (flags env) SCRIPT_VERIFY_CLEANSTACK \<longrightarrow> has (flags env) SCRIPT_VERIFY_WITNESS"
    and "has (flags env) SCRIPT_VERIFY_WITNESS \<longrightarrow> has (flags env) SCRIPT_VERIFY_P2SH"
    and "has (flags env) SCRIPT_VERIFY_DISCOURAGE_UPGRADABLE_NOPS \<longrightarrow>
      (has fl' SCRIPT_VERIFY_CHECKLOCKTIMEVERIFY \<longrightarrow> has (flags env) SCRIPT_VERIFY_CHECKLOCKTIMEVERIFY)
      \<and> (has fl' SCRIPT_VERIFY_CHECKSEQUENCEVERIFY \<longrightarrow> has (flags env) SCRIPT_VERIFY_CHECKSEQUENCEVERIFY)"
    and "VerifyScript (env\<lparr>flags := fl'\<rparr>) scriptSig scriptPubKey witness = Inr ()"
  shows "VerifyScript env scriptSig scriptPubKey witness = Inr ()"
proof -
  have "tighter env (env\<lparr>flags := fl'\<rparr>)" using assms(1,4) by (simp add: tighter_def)
  then show ?thesis by (rule VerifyScript_mono[OF _ assms(2,3,5)])
qed

subsection \<open>Spending from a key hash\<close>

definition GetScriptForKeyID :: "bytes \<Rightarrow> script" where
  "GetScriptForKeyID keyID =
     push_opcode (push_opcode (push_vch (push_opcode (push_opcode [] OP_DUP) OP_HASH160) keyID) OP_EQUALVERIFY) OP_CHECKSIG"

lemma eval_loop_Nil [simp]: "eval_loop env [] st = Inr st"
  by (simp add: eval_loop.simps)

lemma eval_loop_step:
  assumes "GetOp2 pc = (True, pc', opcode, vch)"
  shows "eval_loop env pc st =
    (case eval_step env pc' opcode vch st of Inl e \<Rightarrow> Inl e | Inr st' \<Rightarrow> eval_loop env pc' st')"
proof -
  have "pc \<noteq> []" using assms by auto
  with assms show ?thesis by (subst eval_loop.simps) simp
qed

lemma eval_step_Inr:
  assumes "length vch \<le> 520" "\<not> (OP_16 < opcode \<and> 201 < nOpCount (count_op opcode st))" "\<not> disabled_opcode opcode"
    and "run_op env pc opcode vch (count_op opcode st) = r"
    and "\<And>st'. r = Inr st' \<Longrightarrow> stack_total st' \<le> 1000"
  shows "eval_step env pc opcode vch st = r"
  using assms unfolding eval_step_def count_op_def[symmetric] Let_def stack_total_def by (auto split: sum.splits)

lemma CheckMinimalPush_push_op: "1 < length b \<Longrightarrow> CheckMinimalPush b (push_op b)"
  by (auto simp: CheckMinimalPush_def push_op_def)

lemma push_op_le: "push_op b \<le> OP_PUSHDATA4"
  by (simp add: push_op_def)

lemma not_disabled_push: "op \<le> OP_PUSHDATA4 \<Longrightarrow> \<not> disabled_opcode op"
  by (auto simp: disabled_opcode_def)

lemma eval_push_vch:
  assumes "1 < length b" "length b \<le> 520" "vfExec st = []" "stack_total st < 1000"
  shows "eval_loop env (push_vch [] b @ pc) st = eval_loop env pc (st\<lparr>stack := b # stack st\<rparr>)"
proof -
  have g: "GetOp2 (push_vch [] b @ pc) = (True, pc, push_op b, b)" by (rule GetOp2_push_vch) (use assms in simp)
  have c: "count_op (push_op b) st = st" using push_op_le[of b] by (simp add: count_op_def)
  have "run_op env pc (push_op b) b st = Inr (st\<lparr>stack := b # stack st\<rparr>)"
    using assms push_op_le[of b] CheckMinimalPush_push_op[of b] by (simp add: run_op_def)
  then have "eval_step env pc (push_op b) b st = Inr (st\<lparr>stack := b # stack st\<rparr>)"
    by (intro eval_step_Inr) (use assms push_op_le[of b] not_disabled_push in \<open>auto simp: c stack_total_def\<close>)
  then show ?thesis by (simp add: eval_loop_step[OF g])
qed

lemma eval_opcode:
  assumes "OP_16 < op" "op < 256" "op \<noteq> OP_HNB_ASSET" "\<not> disabled_opcode op" "vfExec st = []" "nOpCount st < 201"
    and f: "exec_stack_op env (pbegincodehash st) op = Some f" and "\<And>s. f (stack st) = Inr s \<Longrightarrow> length s + length (altstack st) \<le> 1000"
  shows "eval_loop env (of_nat op # pc) st =
    (case f (stack st) of Inl e \<Rightarrow> Inl e
     | Inr s \<Rightarrow> eval_loop env pc (st\<lparr>stack := s, nOpCount := nOpCount st + 1\<rparr>))"
proof -
  have g: "GetOp2 (of_nat op # pc) = (True, pc, op, [])" by (rule GetOp2_opcode) (use assms in auto)
  have c: "count_op op st = st\<lparr>nOpCount := nOpCount st + 1\<rparr>" using assms(1) by (simp add: count_op_def)
  have "run_op env pc op [] (count_op op st) =
      (case f (stack st) of Inl e \<Rightarrow> Inl e | Inr s \<Rightarrow> Inr (st\<lparr>stack := s, nOpCount := nOpCount st + 1\<rparr>))" (is "_ = ?r")
    using assms(1,5) f by (simp add: run_op_def c exec_op_def split: sum.split)
  then have "eval_step env pc op [] st = ?r"
    by (intro eval_step_Inr) (use assms in \<open>auto simp: c stack_total_def split: sum.splits\<close>)
  then show ?thesis by (simp add: eval_loop_step[OF g] split: sum.split)
qed

lemma GetScriptForKeyID_bytes:
  "length h = 20 \<Longrightarrow> GetScriptForKeyID h @ sfx = of_nat OP_DUP # of_nat OP_HASH160 # push_vch [] h @ of_nat OP_EQUALVERIFY # of_nat OP_CHECKSIG # sfx"
  by (simp add: GetScriptForKeyID_def push_opcode_def push_vch_append[of "[_, _]"])

lemma eval_asset_suffix:
  assumes "sfx = [] \<or> (\<exists>d. sfx = 0xc0 # d \<and> length d \<le> 520)" "vfExec st = []" "nOpCount st < 201" "stack_total st \<le> 1000"
  shows "\<exists>n. eval_loop env sfx st = Inr (st\<lparr>nOpCount := n\<rparr>)"
proof (cases "sfx = []")
  case False
  then obtain d where d: "sfx = 0xc0 # d" "length d \<le> 520" using assms(1) by auto
  have "exec_stack_op env pb OP_HNB_ASSET = None" for pb by (simp add: exec_stack_op_def)
  then have "run_op env [] OP_HNB_ASSET d (count_op OP_HNB_ASSET st) = Inr (st\<lparr>nOpCount := nOpCount st + 1\<rparr>)"
    using assms(2) by (simp add: run_op_def exec_op_def count_op_def)
  then have "eval_step env [] OP_HNB_ASSET d st = Inr (st\<lparr>nOpCount := nOpCount st + 1\<rparr>)"
    by (intro eval_step_Inr) (use assms d in \<open>auto simp: stack_total_def count_op_def disabled_opcode_def\<close>)
  then show ?thesis unfolding d(1) by (subst eval_loop_step[OF GetOp2_asset]) auto
qed (auto intro!: exI[of _ "nOpCount st"])

lemma EvalScript_keyID:
  assumes h: "length h = 20" and sfx: "sfx = [] \<or> (\<exists>d. sfx = 0xc0 # d \<and> length d \<le> 520)"
    and sc: "sc = GetScriptForKeyID h @ sfx"
  shows "EvalScript env [pk, sig] sc =
    (if HASH160 (cry env) pk = h then op_CHECKSIG env OP_CHECKSIG sc [pk, sig] else Inl SCRIPT_ERR_EQUALVERIFY)"
proof -
  define st where "st = \<lparr>stack = [pk, sig], altstack = [], vfExec = [], nOpCount = 0, pbegincodehash = sc\<rparr>"
  have len: "length sc \<le> 10000" using h sfx by (auto simp: sc GetScriptForKeyID_bytes push_vch_def)
  have ops: "exec_stack_op env pb OP_DUP = Some op_DUP" "exec_stack_op env pb OP_HASH160 = Some (op_HASH env OP_HASH160)"
    "exec_stack_op env pb OP_EQUALVERIFY = Some (op_EQUAL OP_EQUALVERIFY)"
    "exec_stack_op env pb OP_CHECKSIG = Some (op_CHECKSIG env OP_CHECKSIG pb)" for pb
    by (simp_all add: exec_stack_op_def)
  have dis: "\<not> disabled_opcode OP_DUP" "\<not> disabled_opcode OP_HASH160" "\<not> disabled_opcode OP_EQUALVERIFY"
    "\<not> disabled_opcode OP_CHECKSIG" by (simp_all add: disabled_opcode_def)
  let ?st = "\<lambda>s n. st\<lparr>stack := s, nOpCount := n\<rparr>"
  let ?H = "HASH160 (cry env) pk"
  let ?r3 = "of_nat OP_CHECKSIG # sfx" let ?r2 = "of_nat OP_EQUALVERIFY # ?r3"
  have fields [simp]: "stack st = [pk, sig]" "altstack st = []" "vfExec st = []" "nOpCount st = 0" "pbegincodehash st = sc"
    by (simp_all add: st_def)
  have s12: "eval_loop env sc st = eval_loop env (push_vch [] h @ ?r2) (?st [?H, pk, sig] 2)"
    unfolding sc GetScriptForKeyID_bytes[OF h]
    by (subst eval_opcode[OF _ _ _ dis(1) _ _ ops(1)]; simp del: of_nat_numeral)
      (subst eval_opcode[OF _ _ _ dis(2) _ _ ops(2)]; simp del: of_nat_numeral)
  also have "\<dots> = eval_loop env ?r2 (?st [h, ?H, pk, sig] 2)"
    by (subst eval_push_vch) (use h in \<open>simp_all add: stack_total_def st_def\<close>)
  also have "\<dots> = (if ?H = h then eval_loop env ?r3 (?st [pk, sig] 3) else Inl SCRIPT_ERR_EQUALVERIFY)"
    by (subst eval_opcode[OF _ _ _ dis(3) _ _ ops(3)]; auto simp del: of_nat_numeral split: if_splits)
  also have "eval_loop env ?r3 (?st [pk, sig] 3) =
      (case op_CHECKSIG env OP_CHECKSIG sc [pk, sig] of Inl e \<Rightarrow> Inl e | Inr s \<Rightarrow> eval_loop env sfx (?st s 4))"
    by (subst eval_opcode[OF _ _ _ dis(4) _ _ ops(4)]; auto simp: Let_def simp del: of_nat_numeral split: option.splits if_splits)
  finally have L: "eval_loop env sc st = (if ?H = h then
      (case op_CHECKSIG env OP_CHECKSIG sc [pk, sig] of Inl e \<Rightarrow> Inl e | Inr s \<Rightarrow> eval_loop env sfx (?st s 4))
      else Inl SCRIPT_ERR_EQUALVERIFY)" .
  have tail: "\<exists>n. eval_loop env sfx (?st s 4) = Inr (?st s n)" if "op_CHECKSIG env OP_CHECKSIG sc [pk, sig] = Inr s" for s
    using eval_asset_suffix[OF sfx, of "?st s 4" env] that
    by (auto simp: stack_total_def Let_def split: option.splits if_splits)
  show ?thesis
    using len tail L unfolding EvalScript_def st_def[symmetric] by (cases "op_CHECKSIG env OP_CHECKSIG sc [pk, sig]") auto
qed

lemma IsPushOnly_push_vch: "length b < 2 ^ 32 \<Longrightarrow> IsPushOnly (push_vch [] b @ rest) = IsPushOnly rest"
proof -
  assume "length b < 2 ^ 32"
  from GetOp2_push_vch[OF this, of rest] push_op_le[of b] show ?thesis
    by (subst IsPushOnly.simps) (auto simp: push_vch_def)
qed

lemma EvalScript_two_pushes:
  assumes "1 < length a" "length a \<le> 520" "1 < length b" "length b \<le> 520"
  shows "EvalScript env [] (push_vch (push_vch [] a) b) = Inr [b, a]"
proof -
  have "length (push_vch (push_vch [] a) b) \<le> 10000" using assms by (simp add: push_vch_def)
  moreover have "push_vch (push_vch [] a) b = push_vch [] a @ push_vch [] b @ []" by (simp add: push_vch_append[of "push_vch [] a"])
  ultimately show ?thesis
    unfolding EvalScript_def using assms by (simp add: eval_push_vch stack_total_def del: append_Nil2)
qed

lemma CheckSig_base [simp]: "checker (env\<lparr>sigversion := v\<rparr>) = checker env" "cry (env\<lparr>sigversion := v\<rparr>) = cry env"
  "flags (env\<lparr>sigversion := v\<rparr>) = flags env"
  by simp_all

text \<open>C3. Spending an output that pays to a key hash, with or without an asset. For the locking script
  \<open>DUP HASH160 <h> EQUALVERIFY CHECKSIG\<close>, alone or followed by \<open>OP_HNB_ASSET\<close> and at most 520 bytes of asset data, an
  input that pushes a signature and a public key is valid exactly when the key hashes to \<open>h\<close>, both encodings are
  accepted under the flags, and the signature verifies for the key: the asset data never changes who can spend
  the output, and every other case is an error.\<close>

theorem VerifyScript_key_hash:
  assumes "length h = 20" "sfx = [] \<or> (\<exists>d. sfx = of_nat OP_HNB_ASSET # d \<and> length d \<le> MAX_SCRIPT_ELEMENT_SIZE)"
    and "1 < length sig" "length sig \<le> MAX_SCRIPT_ELEMENT_SIZE" "1 < length pk" "length pk \<le> MAX_SCRIPT_ELEMENT_SIZE"
    and "has (flags env) SCRIPT_VERIFY_CLEANSTACK \<longrightarrow> has (flags env) SCRIPT_VERIFY_WITNESS"
    and "has (flags env) SCRIPT_VERIFY_WITNESS \<longrightarrow> has (flags env) SCRIPT_VERIFY_P2SH"
    and "sigversion env = SIGVERSION_BASE"
  shows "VerifyScript env (push_vch (push_vch [] sig) pk) (GetScriptForKeyID h @ sfx) [] = Inr () \<longleftrightarrow>
    HASH160 (cry env) pk = h \<and> check_encodings env sig pk = None
    \<and> CheckSig (checker env) sig pk (drop_signature env (GetScriptForKeyID h @ sfx) sig) SIGVERSION_BASE"
proof -
  define sc where "sc = GetScriptForKeyID h @ sfx"
  have env: "env\<lparr>sigversion := SIGVERSION_BASE\<rparr> = env" using assms(9) by simp
  have sfx: "sfx = [] \<or> (\<exists>d. sfx = 0xc0 # d \<and> length d \<le> 520)" using assms(2) by simp
  have po: "IsPushOnly (push_vch (push_vch [] sig) pk)"
    using IsPushOnly_push_vch[of sig "push_vch [] pk"] IsPushOnly_push_vch[of pk "[]"] assms(4,6)
    by (simp add: push_vch_append[of "push_vch [] sig"] IsPushOnly.simps[of "[]"])
  have first: "sc ! 0 = 118" unfolding sc_def GetScriptForKeyID_bytes[OF assms(1)] by simp
  have rest: "verify_rest env [] ssig sc stk [vchBool True] = Inr ()" for ssig stk
    using assms(7,8) first
    by (auto simp: verify_rest_def verify_witness_def IsWitnessProgram_def IsPayToScriptHash_def verify_final_def)
  have "VerifyScript env (push_vch (push_vch [] sig) pk) sc [] = Inr () \<longleftrightarrow>
      HASH160 (cry env) pk = h \<and> op_CHECKSIG env OP_CHECKSIG sc [pk, sig] = Inr [vchBool True]"
    unfolding VerifyScript_def env Let_def EvalScript_two_pushes[OF assms(3,4,5,6)] sum.case
      EvalScript_keyID[OF assms(1) sfx sc_def]
    using po rest by (auto simp: Let_def vchBool_def split: option.splits)
  also have "op_CHECKSIG env OP_CHECKSIG sc [pk, sig] = Inr [vchBool True] \<longleftrightarrow> check_encodings env sig pk = None
      \<and> CheckSig (checker env) sig pk (drop_signature env sc sig) SIGVERSION_BASE"
    using assms(9) by (auto simp: Let_def vchBool_def split: option.splits)
  finally show ?thesis unfolding sc_def .
qed

definition sample_keyhash :: bytes where
  "sample_keyhash = replicate 20 1"

theorem VerifyScript_key_hash_witness:
  "VerifyScript sample_env (push_vch (push_vch [] [7, 7]) [7, 7]) (GetScriptForKeyID sample_keyhash @ [0xc0, 1, 2, 3]) [] = Inr ()
   \<and> VerifyScript sample_env (push_vch (push_vch [] [7, 8]) [7, 7]) (GetScriptForKeyID sample_keyhash @ [0xc0, 1, 2, 3]) [] \<noteq> Inr ()"
proof -
  have enc: "check_encodings sample_env sig key = None" for sig key
    by (simp add: check_encodings_def CheckSignatureEncoding_def CheckPubKeyEncoding_def)
  have h: "length sample_keyhash = 20" "HASH160 sample_crypto b = sample_keyhash" for b
    by (simp_all add: sample_keyhash_def HASH160_def sample_crypto_def)
  show ?thesis
    using VerifyScript_key_hash[of sample_keyhash "[0xc0, 1, 2, 3]" "[7, 7]" "[7, 7]" sample_env]
      VerifyScript_key_hash[of sample_keyhash "[0xc0, 1, 2, 3]" "[7, 8]" "[7, 7]" sample_env] h
    by (simp add: enc)
qed

theorem VerifyScript_softfork_safe_witness:
  "VerifyScript (sample_env\<lparr>flags := 641\<rparr>) [] [0x51, 0xb1] [] = Inr ()
   \<and> VerifyScript (sample_env\<lparr>flags := 513\<rparr>) [] [0x51, 0xb1] [] = Inr ()"
proof -
  have v: "VerifyScript (sample_env\<lparr>flags := 641\<rparr>) [] [0x51, 0xb1] [] = Inr ()" by code_simp
  show ?thesis
    using VerifyScript_softfork_safe[of "sample_env\<lparr>flags := 513\<rparr>" 641 "[]" "[0x51, 0xb1]" "[]"] v by (simp add: has_def)
qed

text \<open>The relative lock-time rule passes for an operand with the disabling bit; without the rule but with upgradable
  no-operations discouraged, the same script fails.\<close>

lemma discouraged_nops_excluded:
  "VerifyScript (sample_env\<lparr>flags := 1153\<rparr>) [] [5, 0, 0, 0, 0x80, 0, 0xb2] [] = Inr ()
   \<and> VerifyScript (sample_env\<lparr>flags := 129\<rparr>) [] [5, 0, 0, 0, 0x80, 0, 0xb2] [] = Inl (ScriptFailure SCRIPT_ERR_DISCOURAGE_UPGRADABLE_NOPS)"
  by code_simp

end
