(* ===== verification/Serialize.thy ===== *)
theory Serialize
  imports Script "HOL-Library.Monad_Syntax"
begin

text \<open>
  Serialisation: \<^verbatim>\<open>src/src/serialize.h\<close>. Writing appends to a byte string, so a writer is a function to bytes; a reader
  takes the rest of the stream and returns a value with what is left, or \<open>None\<close> for a thrown \<open>ios_base::failure\<close>.

  The locale \<open>codec\<close> is the contract of a writer and a reader for the same type. Its two laws are that reading gives
  back what was written, whatever follows, and that a reader accepts nothing but written values. The lemmas about
  vectors are proved once from it, and every type that is serialised interprets it.
\<close>

subsection \<open>Integers\<close>

definition WriteLE64 :: "u64 \<Rightarrow> bytes" where
  "WriteLE64 x = WriteLE32 (ucast x) @ WriteLE32 (ucast (drop_bit 32 x))"

definition ReadLE64 :: "bytes \<Rightarrow> u64" where
  "ReadLE64 p = ucast (ReadLE32 p) OR push_bit 32 (ucast (ReadLE32 (drop 4 p)))"

definition stream_read :: "nat \<Rightarrow> bytes \<Rightarrow> (bytes \<times> bytes) option" where
  "stream_read n s = (if length s < n then None else Some (take n s, drop n s))"

definition ser_writedata8 :: "u8 \<Rightarrow> bytes" where
  "ser_writedata8 x = [x]"

definition ser_readdata8 :: "bytes \<Rightarrow> (u8 \<times> bytes) option" where
  "ser_readdata8 s = do { (b, s) \<leftarrow> stream_read 1 s; Some (b ! 0, s) }"

definition ser_writedata16 :: "u16 \<Rightarrow> bytes" where
  "ser_writedata16 x = WriteLE16 x"

definition ser_readdata16 :: "bytes \<Rightarrow> (u16 \<times> bytes) option" where
  "ser_readdata16 s = do { (b, s) \<leftarrow> stream_read 2 s; Some (ReadLE16 b, s) }"

definition ser_writedata32 :: "u32 \<Rightarrow> bytes" where
  "ser_writedata32 x = WriteLE32 x"

definition ser_readdata32 :: "bytes \<Rightarrow> (u32 \<times> bytes) option" where
  "ser_readdata32 s = do { (b, s) \<leftarrow> stream_read 4 s; Some (ReadLE32 b, s) }"

definition ser_writedata64 :: "u64 \<Rightarrow> bytes" where
  "ser_writedata64 x = WriteLE64 x"

definition ser_readdata64 :: "bytes \<Rightarrow> (u64 \<times> bytes) option" where
  "ser_readdata64 s = do { (b, s) \<leftarrow> stream_read 8 s; Some (ReadLE64 b, s) }"

text \<open>An \<open>int64_t\<close> is written as its unsigned value.\<close>

definition Serialize_int64 :: "int \<Rightarrow> bytes" where
  "Serialize_int64 a = ser_writedata64 (word_of_int a)"

definition Unserialize_int64 :: "bytes \<Rightarrow> (int \<times> bytes) option" where
  "Unserialize_int64 s = do { (w, s) \<leftarrow> ser_readdata64 s; Some (sint w, s) }"

subsection \<open>Sizes and vectors\<close>

definition MAX_SIZE :: nat where
  "MAX_SIZE = 0x02000000"

definition WriteCompactSize :: "nat \<Rightarrow> bytes" where
  "WriteCompactSize nSize =
     (if nSize < 253 then ser_writedata8 (of_nat nSize)
      else if nSize \<le> 0xffff then ser_writedata8 253 @ ser_writedata16 (of_nat nSize)
      else if nSize \<le> 0xffffffff then ser_writedata8 254 @ ser_writedata32 (of_nat nSize)
      else ser_writedata8 255 @ ser_writedata64 (of_nat nSize))"

definition limit_size :: "nat \<Rightarrow> bytes \<Rightarrow> (nat \<times> bytes) option" where
  "limit_size nSizeRet s = (if MAX_SIZE < nSizeRet then None else Some (nSizeRet, s))"

definition ReadCompactSize :: "bytes \<Rightarrow> (nat \<times> bytes) option" where
  "ReadCompactSize s =
     do { (chSize, s) \<leftarrow> ser_readdata8 s;
          if chSize < 253 then limit_size (unat chSize) s
          else if chSize = 253 then
            do { (n, s) \<leftarrow> ser_readdata16 s; if unat n < 253 then None else limit_size (unat n) s }
          else if chSize = 254 then
            do { (n, s) \<leftarrow> ser_readdata32 s; if unat n < 0x10000 then None else limit_size (unat n) s }
          else
            do { (n, s) \<leftarrow> ser_readdata64 s; if unat n < 0x100000000 then None else limit_size (unat n) s } }"

definition Serialize_bytes :: "bytes \<Rightarrow> bytes" where
  "Serialize_bytes v = WriteCompactSize (length v) @ v"

definition Unserialize_bytes :: "bytes \<Rightarrow> (bytes \<times> bytes) option" where
  "Unserialize_bytes s = do { (nSize, s) \<leftarrow> ReadCompactSize s; stream_read nSize s }"

definition Serialize_vector :: "('a \<Rightarrow> bytes) \<Rightarrow> 'a list \<Rightarrow> bytes" where
  "Serialize_vector put v = WriteCompactSize (length v) @ concat (map put v)"

fun read_n :: "(bytes \<Rightarrow> ('a \<times> bytes) option) \<Rightarrow> nat \<Rightarrow> bytes \<Rightarrow> ('a list \<times> bytes) option" where
  "read_n get 0 s = Some ([], s)"
| "read_n get (Suc n) s = do { (x, s) \<leftarrow> get s; (xs, s) \<leftarrow> read_n get n s; Some (x # xs, s) }"

definition Unserialize_vector :: "(bytes \<Rightarrow> ('a \<times> bytes) option) \<Rightarrow> bytes \<Rightarrow> ('a list \<times> bytes) option" where
  "Unserialize_vector get s = do { (nSize, s) \<leftarrow> ReadCompactSize s; read_n get nSize s }"

subsection \<open>The contract of a serialised type\<close>

locale codec =
  fixes put :: "'a \<Rightarrow> bytes"
    and get :: "bytes \<Rightarrow> ('a \<times> bytes) option"
    and valid :: "'a \<Rightarrow> bool"
  assumes get_put: "valid x \<Longrightarrow> get (put x @ rest) = Some (x, rest)"
    and put_get: "get s = Some (x, rest) \<Longrightarrow> valid x \<and> s = put x @ rest"
begin

lemma get_iff: "get s = Some (x, rest) \<longleftrightarrow> valid x \<and> s = put x @ rest"
  by (auto dest: put_get intro: get_put)

lemma put_inj: "valid x \<Longrightarrow> valid y \<Longrightarrow> put x @ s = put y @ t \<Longrightarrow> x = y \<and> s = t"
  by (metis get_put option.inject prod.inject)

lemma read_n_iff: "read_n get n s = Some (xs, rest) \<longleftrightarrow> length xs = n \<and> list_all valid xs \<and> s = concat (map put xs) @ rest"
proof (induction n arbitrary: s xs)
  case (Suc n)
  show ?case
  proof (cases xs)
    case Nil
    then show ?thesis by (auto split: option.splits bind_splits)
  next
    case (Cons x ys)
    have "read_n get (Suc n) s = Some (x # ys, rest) \<longleftrightarrow> (\<exists>s'. get s = Some (x, s') \<and> read_n get n s' = Some (ys, rest))"
      by (auto split: bind_splits)
    then show ?thesis unfolding Cons get_iff Suc.IH by auto
  qed
qed auto

end

subsection \<open>Integers are codecs\<close>

lemma stream_read_iff: "stream_read n s = Some (b, rest) \<longleftrightarrow> length b = n \<and> s = b @ rest"
  by (auto simp: stream_read_def)

lemma WriteLE16_ReadLE16: "length b = 2 \<Longrightarrow> WriteLE16 (ReadLE16 b) = b"
proof -
  assume "length b = 2"
  then obtain x y where b: "b = [x, y]" by (metis (no_types) One_nat_def Suc_1 length_0_conv length_Suc_conv)
  have "ucast (ucast x OR push_bit 8 (ucast y) :: u16) = x" "ucast (drop_bit 8 (ucast x OR push_bit 8 (ucast y) :: u16)) = y"
    by (rule bit_word_eqI; auto simp: bit_simps dest: bit_imp_le_length)+
  then show ?thesis by (simp add: b WriteLE16_def ReadLE16_def)
qed

lemma byte_of_word:
  assumes "k + 8 \<le> LENGTH('a::len)"
  shows "bit (ucast (drop_bit k (w :: 'a word)) :: u8) n \<longleftrightarrow> n < 8 \<and> bit w (k + n)"
  using assms by (auto simp: bit_simps)

lemma WriteLE32_ReadLE32: "length b = 4 \<Longrightarrow> WriteLE32 (ReadLE32 b) = b"
proof -
  assume "length b = 4"
  then obtain x y z u where b: "b = [x, y, z, u]"
    by (auto simp: length_Suc_conv numeral_eq_Suc)
  have hi: "\<not> bit v n" if "8 \<le> n" for v :: u8 and n using that by (auto dest: bit_imp_le_length)
  define w :: u32 where "w = ucast x OR push_bit 8 (ucast y) OR push_bit 16 (ucast z) OR push_bit 24 (ucast u)"
  have "ReadLE32 b = w" unfolding ReadLE32_def w_def b by simp
  moreover have "ucast w = x" "ucast (drop_bit 8 w) = y" "ucast (drop_bit 16 w) = z" "ucast (drop_bit 24 w) = u"
    unfolding w_def by (rule bit_word_eqI; auto simp: bit_simps hi)+
  ultimately show ?thesis by (simp add: b WriteLE32_def)
qed

lemma ReadLE64_WriteLE64: "ReadLE64 (WriteLE64 x @ rest) = x"
proof -
  have "ucast (ucast x :: u32) OR push_bit 32 (ucast (ucast (drop_bit 32 x) :: u32)) = x"
    by (rule bit_word_eqI) (auto simp: bit_simps)
  then show ?thesis by (simp add: ReadLE64_def WriteLE64_def ReadLE32_WriteLE32)
qed

lemma WriteLE64_ReadLE64: "length b = 8 \<Longrightarrow> WriteLE64 (ReadLE64 b) = b"
proof -
  assume b: "length b = 8"
  define lo hi where "lo = ReadLE32 (take 4 b)" and "hi = ReadLE32 (drop 4 b)"
  have "ReadLE32 b = lo" using b by (simp add: lo_def ReadLE32_def)
  moreover have "ucast (ucast lo OR push_bit 32 (ucast hi) :: u64) = lo"
      "ucast (drop_bit 32 (ucast lo OR push_bit 32 (ucast hi) :: u64)) = hi"
    by (rule bit_word_eqI; auto simp: bit_simps dest: bit_imp_le_length)+
  moreover have "WriteLE32 lo = take 4 b" "WriteLE32 hi = drop 4 b"
    unfolding lo_def hi_def using b by (simp_all add: WriteLE32_ReadLE32)
  ultimately show ?thesis by (simp add: WriteLE64_def ReadLE64_def flip: hi_def)
qed

lemma length_WriteLE64 [simp]: "length (WriteLE64 x) = 8"
  by (simp add: WriteLE64_def)

lemma take_all_read: "length b = n \<Longrightarrow> stream_read n (b @ rest) = Some (b, rest)"
  by (simp add: stream_read_def)

interpretation u8c: codec ser_writedata8 ser_readdata8 "\<lambda>_. True"
proof unfold_locales
  fix x rest
  show "ser_readdata8 (ser_writedata8 x @ rest) = Some (x, rest)"
    by (simp add: ser_readdata8_def ser_writedata8_def stream_read_def)
next
  fix s x rest
  assume "ser_readdata8 s = Some (x, rest)"
  then show "True \<and> s = ser_writedata8 x @ rest"
    by (cases s) (auto simp: ser_readdata8_def ser_writedata8_def stream_read_def split: if_splits)
qed

interpretation u16c: codec ser_writedata16 ser_readdata16 "\<lambda>_. True"
  by unfold_locales (auto simp: ser_readdata16_def ser_writedata16_def take_all_read stream_read_iff
      ReadLE16_WriteLE16[of _ "[]", simplified] WriteLE16_ReadLE16 split: bind_splits)

interpretation u32c: codec ser_writedata32 ser_readdata32 "\<lambda>_. True"
  by unfold_locales (auto simp: ser_readdata32_def ser_writedata32_def take_all_read stream_read_iff
      ReadLE32_WriteLE32[of _ "[]", simplified] WriteLE32_ReadLE32 split: bind_splits)

interpretation u64c: codec ser_writedata64 ser_readdata64 "\<lambda>_. True"
  by unfold_locales (auto simp: ser_readdata64_def ser_writedata64_def take_all_read stream_read_iff
      ReadLE64_WriteLE64[of _ "[]", simplified] WriteLE64_ReadLE64 split: bind_splits)

definition int64 :: "int \<Rightarrow> bool" where
  "int64 a \<longleftrightarrow> - (2 ^ 63) \<le> a \<and> a < 2 ^ 63"

lemma sint_word_of_int64: "int64 a \<Longrightarrow> sint (word_of_int a :: u64) = a"
  unfolding int64_def by (simp add: signed_of_int signed_take_bit_int_eq_self)

lemma int64_sint: "int64 (sint (w :: u64))"
  using sint_greater_eq[of w] sint_less[of w] by (simp add: int64_def)

interpretation i64c: codec Serialize_int64 Unserialize_int64 int64
  by unfold_locales (auto simp: Serialize_int64_def Unserialize_int64_def u64c.get_put sint_word_of_int64 int64_sint
      dest!: u64c.put_get split: bind_splits)

subsection \<open>Sizes and vectors are codecs\<close>

lemma unat_of_nat_16: "n < 65536 \<Longrightarrow> unat (of_nat n :: u16) = n"
  by (simp add: unsigned_of_nat take_bit_eq_mod)

lemma unat_of_nat_32: "n < 4294967296 \<Longrightarrow> unat (of_nat n :: u32) = n"
  by (simp add: unsigned_of_nat take_bit_eq_mod)

lemma byte_less_253: "n < 256 \<Longrightarrow> (of_nat n :: u8) < 253 \<longleftrightarrow> n < 253"
  by (simp add: word_less_nat_alt unat_of_nat_byte)

lemma ReadCompactSize_Write:
  assumes "n \<le> MAX_SIZE"
  shows "ReadCompactSize (WriteCompactSize n @ rest) = Some (n, rest)"
proof -
  have n: "n \<le> 33554432" using assms by (simp add: MAX_SIZE_def)
  consider "n < 253" | "253 \<le> n" "n \<le> 65535" | "65535 < n" by linarith
  then show ?thesis
  proof cases
    case 1
    then have "(of_nat n :: u8) < 253" "unat (of_nat n :: u8) = n" by (simp_all add: byte_less_253 unat_of_nat_byte)
    with 1 n show ?thesis
      by (simp add: ReadCompactSize_def WriteCompactSize_def u8c.get_put limit_size_def MAX_SIZE_def)
  next
    case 2
    then show ?thesis
      using unat_of_nat_16[of n] by (simp add: ReadCompactSize_def WriteCompactSize_def u8c.get_put u16c.get_put limit_size_def MAX_SIZE_def)
  next
    case 3
    with n show ?thesis
      using unat_of_nat_32[of n] by (simp add: ReadCompactSize_def WriteCompactSize_def u8c.get_put u32c.get_put limit_size_def MAX_SIZE_def)
  qed
qed

lemma limit_size_iff: "limit_size n s = Some (m, rest) \<longleftrightarrow> n \<le> MAX_SIZE \<and> m = n \<and> rest = s"
  by (auto simp: limit_size_def)

lemma ReadCompactSize_canonical:
  assumes "ReadCompactSize s = Some (n, rest)"
  shows "n \<le> MAX_SIZE \<and> s = WriteCompactSize n @ rest"
proof -
  obtain c s1 where c: "s = ser_writedata8 c @ s1" "ser_readdata8 s = Some (c, s1)"
    using assms u8c.put_get by (auto simp: ReadCompactSize_def split: bind_splits)
  note r = assms[unfolded ReadCompactSize_def c(2), simplified]
  have max: "n \<le> MAX_SIZE" using r by (auto simp: limit_size_iff split: if_splits bind_splits)
  consider "c < 253" | "c = 253" | "c = 254" | "\<not> c < 253" "c \<noteq> 253" "c \<noteq> 254" by blast
  then have "s1 = drop 1 (WriteCompactSize n) @ rest \<and> c = hd (WriteCompactSize n)"
  proof cases
    case 1
    then have "n = unat c" "rest = s1" "n < 253" using r by (auto simp: limit_size_iff word_less_nat_alt)
    then show ?thesis by (simp add: WriteCompactSize_def ser_writedata8_def)
  next
    case 2
    then obtain w where "ser_readdata16 s1 = Some (w, rest)" "n = unat w" "253 \<le> n"
      using r by (auto simp: limit_size_iff split: if_splits bind_splits)
    moreover have "unat w < 65536" using unsigned_less[of w] by simp
    ultimately show ?thesis using 2 by (auto dest!: u16c.put_get simp: WriteCompactSize_def ser_writedata8_def)
  next
    case 3
    then obtain w where "ser_readdata32 s1 = Some (w, rest)" "n = unat w" "65536 \<le> n"
      using r by (auto simp: limit_size_iff split: if_splits bind_splits)
    moreover have "unat w < 4294967296" by (rule unat_lt_32)
    ultimately show ?thesis using 3 by (auto dest!: u32c.put_get simp: WriteCompactSize_def ser_writedata8_def)
  next
    case 4
    then have "4294967296 \<le> n" using r by (auto simp: limit_size_iff split: if_splits bind_splits)
    with max show ?thesis by (simp add: MAX_SIZE_def)
  qed
  moreover have "WriteCompactSize n = hd (WriteCompactSize n) # drop 1 (WriteCompactSize n)"
    by (simp add: WriteCompactSize_def ser_writedata8_def)
  ultimately show ?thesis using max c(1) by (simp add: ser_writedata8_def)
qed

interpretation csize: codec WriteCompactSize ReadCompactSize "\<lambda>n. n \<le> MAX_SIZE"
  by unfold_locales (auto simp: ReadCompactSize_Write dest: ReadCompactSize_canonical)

interpretation bytesc: codec Serialize_bytes Unserialize_bytes "\<lambda>v. length v \<le> MAX_SIZE"
  by unfold_locales (auto simp: Serialize_bytes_def Unserialize_bytes_def csize.get_put take_all_read stream_read_iff
      dest!: csize.put_get split: bind_splits)

context codec
begin

lemma vector_codec:
  "codec (Serialize_vector put) (Unserialize_vector get) (\<lambda>v. length v \<le> MAX_SIZE \<and> list_all valid v)"
proof
  fix v rest
  assume "length v \<le> MAX_SIZE \<and> list_all valid v"
  then show "Unserialize_vector get (Serialize_vector put v @ rest) = Some (v, rest)"
    by (simp add: Unserialize_vector_def Serialize_vector_def csize.get_put read_n_iff)
next
  fix s v rest
  assume "Unserialize_vector get s = Some (v, rest)"
  then show "(length v \<le> MAX_SIZE \<and> list_all valid v) \<and> s = Serialize_vector put v @ rest"
    by (auto simp: Unserialize_vector_def Serialize_vector_def read_n_iff dest!: csize.put_get split: bind_splits)
qed

end

subsection \<open>Variable-length integers\<close>

text \<open>\<open>varint_digits\<close> fills the array \<open>tmp\<close> of the code, least significant digit first. The reader gets the largest
  value \<open>mx\<close> of the integer type.\<close>

fun varint_digits :: "bool \<Rightarrow> nat \<Rightarrow> bytes" where
  "varint_digits first n =
     (of_nat (n mod 128) OR (if first then 0 else 0x80)) # (if n \<le> 127 then [] else varint_digits False (n div 128 - 1))"

declare varint_digits.simps [simp del]

definition WriteVarInt :: "nat \<Rightarrow> bytes" where
  "WriteVarInt n = rev (varint_digits True n)"

fun read_varint :: "nat \<Rightarrow> nat \<Rightarrow> bytes \<Rightarrow> (nat \<times> bytes) option" where
  "read_varint mx n [] = None"
| "read_varint mx n (chData # s) =
     (if mx div 128 < n then None
      else
        let n' = n * 128 + unat (chData AND 0x7f) in
        if chData AND 0x80 \<noteq> 0 then (if n' = mx then None else read_varint mx (n' + 1) s) else Some (n', s))"

definition ReadVarInt :: "nat \<Rightarrow> bytes \<Rightarrow> (nat \<times> bytes) option" where
  "ReadVarInt mx s = read_varint mx 0 s"

lemma unat_low7: "unat (c AND 0x7f :: u8) = unat c mod 128"
  unfolding byte_low by (subst unat_take_bit) simp

lemma low7_of_nat: "n < 128 \<Longrightarrow> take_bit 7 (of_nat n :: u8) = of_nat n"
  by (simp add: word_unat_eq_iff unat_take_bit unat_of_nat_byte)

lemma not_top_of_nat: "n < 128 \<Longrightarrow> \<not> bit (of_nat n :: u8) 7"
  using byte_cases[of "of_nat n"] low7_of_nat[of n] take_bit_7_not_top[of "of_nat n"] by auto

lemma digit_last: "m < 128 \<Longrightarrow> unat ((of_nat m :: u8) AND 0x7f) = m \<and> (of_nat m :: u8) AND 0x80 = 0"
  by (simp add: unat_low7 unat_of_nat_byte byte_top not_top_of_nat del: of_nat_numeral)

lemma digit_more: "m < 128 \<Longrightarrow> unat ((of_nat m OR 0x80 :: u8) AND 0x7f) = m \<and> (of_nat m OR 0x80 :: u8) AND 0x80 \<noteq> 0"
  using byte_top_or(1)[of "of_nat m"]
  by (simp add: byte_top byte_low take_bit_or_128 low7_of_nat unat_of_nat_byte del: of_nat_numeral)

text \<open>The digits before the last one, for the value that they contribute.\<close>

definition varint_prefix :: "nat \<Rightarrow> bytes" where
  "varint_prefix a = (if a = 0 then [] else rev (varint_digits False (a - 1)))"

lemma varint_prefix_step:
  assumes "m < 128"
  shows "varint_prefix (a * 128 + m + 1) = varint_prefix a @ [of_nat m OR 0x80]"
  using assms unfolding varint_prefix_def by (cases "a = 0") (subst varint_digits.simps, simp)+

lemma WriteVarInt_prefix:
  assumes "m < 128"
  shows "WriteVarInt (a * 128 + m) = varint_prefix a @ [of_nat m]"
  using assms unfolding varint_prefix_def WriteVarInt_def by (cases "a = 0") (subst varint_digits.simps, simp)+

lemma read_varint_prefix:
  "a \<le> mx \<Longrightarrow> read_varint mx 0 (varint_prefix a @ s) = read_varint mx a s"
proof (induction a arbitrary: s rule: less_induct)
  case (less a)
  show ?case
  proof (cases "a = 0")
    case False
    define b m where "b = (a - 1) div 128" and "m = (a - 1) mod 128"
    have a: "a = b * 128 + m + 1" "m < 128" "b < a" using False by (simp_all add: b_def m_def) 
    have "b \<le> mx div 128" using a less.prems by (simp add: less_eq_div_iff_mult_less_eq)
    then have "read_varint mx b ((of_nat m OR 0x80) # s) = read_varint mx a s"
      using digit_more[OF a(2)] a(1) less.prems by (simp add: Let_def)
    then show ?thesis
      using less.IH[of b "(of_nat m OR 0x80) # s"] a less.prems varint_prefix_step[OF a(2), of b] by simp
  qed (simp add: varint_prefix_def)
qed

lemma read_varint_canonical:
  "read_varint mx a s = Some (n, rest) \<Longrightarrow> mx mod 128 = 127 \<Longrightarrow> \<exists>ds. s = ds @ rest \<and> varint_prefix a @ ds = WriteVarInt n \<and> n \<le> mx"
proof (induction mx a s rule: read_varint.induct)
  case (2 mx a c s)
  define m where "m = unat (c AND 0x7f)"
  have m: "m < 128" by (simp add: m_def unat_low7)
  have c: "c = (if c AND 0x80 \<noteq> 0 then of_nat m OR 0x80 else of_nat m)"
    using byte_cases[of c] by (auto simp: m_def byte_low byte_top)
  have le: "\<not> mx div 128 < a" using 2(2) by (auto split: if_splits)
  show ?case
  proof (cases "c AND 0x80 \<noteq> 0")
    case True
    then have "read_varint mx (a * 128 + m + 1) s = Some (n, rest)" "a * 128 + m \<noteq> mx"
      using 2(2) le by (auto simp: Let_def m_def split: if_splits)
    with 2(1)[OF le refl] True 2(3)
    obtain ds where "s = ds @ rest" "varint_prefix (a * 128 + m + 1) @ ds = WriteVarInt n" "n \<le> mx"
      by (auto simp: m_def)
    then show ?thesis using varint_prefix_step[OF m, of a] c True by (intro exI[of _ "c # ds"]) simp
  next
    case False
    then have r: "n = a * 128 + m" "rest = s" using 2(2) le by (auto simp: Let_def m_def split: if_splits)
    have "mx = mx div 128 * 128 + 127" using 2(3) by (metis div_mult_mod_eq)
    with le m have "n \<le> mx" unfolding r(1) by linarith
    then show ?thesis using WriteVarInt_prefix[OF m, of a] c False r by (intro exI[of _ "[c]"]) simp
  qed
qed simp

lemma varint_codec:
  assumes "mx mod 128 = 127"
  shows "codec WriteVarInt (ReadVarInt mx) (\<lambda>n. n \<le> mx)"
proof
  fix n rest
  assume "n \<le> mx"
  define a m where "a = n div 128" and "m = n mod 128"
  have n: "n = a * 128 + m" "m < 128" by (simp_all add: a_def m_def)
  have "a \<le> mx div 128" using \<open>n \<le> mx\<close> by (simp add: a_def div_le_mono)
  then have "read_varint mx a (of_nat m # rest) = Some (n, rest)" using digit_last[OF n(2)] n(1) by simp
  moreover have "a \<le> mx" using \<open>a \<le> mx div 128\<close> div_le_dividend order_trans by blast
  ultimately show "ReadVarInt mx (WriteVarInt n @ rest) = Some (n, rest)"
    using read_varint_prefix[of a mx "of_nat m # rest"] WriteVarInt_prefix[OF n(2), of a] n(1) by (simp add: ReadVarInt_def)
next
  fix s n rest
  assume "ReadVarInt mx s = Some (n, rest)"
  with read_varint_canonical[of mx 0 s n rest] assms show "n \<le> mx \<and> s = WriteVarInt n @ rest"
    by (auto simp: ReadVarInt_def varint_prefix_def)
qed

interpretation var32: codec WriteVarInt "ReadVarInt (2 ^ 32 - 1)" "\<lambda>n. n \<le> 2 ^ 32 - 1"
  by (rule varint_codec) simp

interpretation var64: codec WriteVarInt "ReadVarInt (2 ^ 64 - 1)" "\<lambda>n. n \<le> 2 ^ 64 - 1"
  by (rule varint_codec) simp

text \<open>C24. Variable-length integers have exactly one encoding. For 32-bit and for 64-bit unsigned integers, reading a
  stream succeeds with \<open>n\<close> exactly when the stream starts with \<open>WriteVarInt(n)\<close> and \<open>n\<close> is in range; so every
  integer is read back, two encodings of an integer never exist, and an encoding of a larger number is rejected
  instead of wrapping around.\<close>

theorem VarInt_one_encoding:
  "(ReadVarInt (2 ^ 32 - 1) s = Some (n, rest) \<longleftrightarrow> n < 2 ^ 32 \<and> s = WriteVarInt n @ rest)
   \<and> (ReadVarInt (2 ^ 64 - 1) s = Some (n, rest) \<longleftrightarrow> n < 2 ^ 64 \<and> s = WriteVarInt n @ rest)"
  using var32.get_iff[of s n rest] var64.get_iff[of s n rest] by (simp add: less_eq_Suc_le)

end
