(* ===== verification/Transaction.thy ===== *)
theory Transaction
  imports Serialize
begin

text \<open>
  Transactions: \<^verbatim>\<open>src/src/primitives/transaction.h\<close> and \<^verbatim>\<open>transaction.cpp\<close>. The records have the fields of the classes;
  a witness is its stack. The cached hash of a \<open>CTransaction\<close> is computed from the other fields, with the double
  SHA-256 of \<open>SerializeHash\<close> as a function argument. Each serialised class interprets the contract \<open>codec\<close> of
  \<open>Serialize\<close>.
\<close>

subsection \<open>Classes\<close>

record COutPoint =
  out_hash :: uint256
  out_n :: u32

definition COutPoint_IsNull :: "COutPoint \<Rightarrow> bool" where
  "COutPoint_IsNull p = (out_hash p = uint256_null \<and> out_n p = -1)"

record CTxIn =
  prevout :: COutPoint
  scriptSig :: script
  nSequence :: u32
  scriptWitness :: "valtype list"

abbreviation (input) SEQUENCE_FINAL :: u32 where "SEQUENCE_FINAL \<equiv> 0xffffffff"
abbreviation (input) SEQUENCE_LOCKTIME_DISABLE_FLAG :: u32 where "SEQUENCE_LOCKTIME_DISABLE_FLAG \<equiv> 0x80000000"
abbreviation (input) SEQUENCE_LOCKTIME_TYPE_FLAG :: u32 where "SEQUENCE_LOCKTIME_TYPE_FLAG \<equiv> 0x400000"
abbreviation (input) SEQUENCE_LOCKTIME_MASK :: u32 where "SEQUENCE_LOCKTIME_MASK \<equiv> 0xffff"
abbreviation (input) SEQUENCE_LOCKTIME_GRANULARITY :: nat where "SEQUENCE_LOCKTIME_GRANULARITY \<equiv> 9"

record CTxOut =
  nValue :: int
  scriptPubKey :: script

definition CTxOut_null :: CTxOut where
  "CTxOut_null = \<lparr>nValue = -1, scriptPubKey = []\<rparr>"

definition CTxOut_IsNull :: "CTxOut \<Rightarrow> bool" where
  "CTxOut_IsNull out = (nValue out = -1)"

record CTransaction =
  vin :: "CTxIn list"
  vout :: "CTxOut list"
  tx_nVersion :: u32
  nLockTime :: u32

definition IsCoinBase :: "CTransaction \<Rightarrow> bool" where
  "IsCoinBase tx = (length (vin tx) = 1 \<and> COutPoint_IsNull (prevout (vin tx ! 0)))"

definition HasWitness :: "CTransaction \<Rightarrow> bool" where
  "HasWitness tx = list_ex (\<lambda>i. scriptWitness i \<noteq> []) (vin tx)"

subsection \<open>Serialisation\<close>

definition Serialize_COutPoint :: "COutPoint \<Rightarrow> bytes" where
  "Serialize_COutPoint p = out_hash p @ ser_writedata32 (out_n p)"

definition Unserialize_COutPoint :: "bytes \<Rightarrow> (COutPoint \<times> bytes) option" where
  "Unserialize_COutPoint s =
     do { (h, s) \<leftarrow> stream_read 32 s; (k, s) \<leftarrow> ser_readdata32 s; Some (\<lparr>out_hash = h, out_n = k\<rparr>, s) }"

text \<open>The witness of an input is not part of its own serialisation.\<close>

definition Serialize_CTxIn :: "CTxIn \<Rightarrow> bytes" where
  "Serialize_CTxIn i = Serialize_COutPoint (prevout i) @ Serialize_bytes (scriptSig i) @ ser_writedata32 (nSequence i)"

definition Unserialize_CTxIn :: "bytes \<Rightarrow> (CTxIn \<times> bytes) option" where
  "Unserialize_CTxIn s =
     do { (p, s) \<leftarrow> Unserialize_COutPoint s; (sg, s) \<leftarrow> Unserialize_bytes s; (q, s) \<leftarrow> ser_readdata32 s;
          Some (\<lparr>prevout = p, scriptSig = sg, nSequence = q, scriptWitness = []\<rparr>, s) }"

definition Serialize_CTxOut :: "CTxOut \<Rightarrow> bytes" where
  "Serialize_CTxOut out = Serialize_int64 (nValue out) @ Serialize_bytes (scriptPubKey out)"

definition Unserialize_CTxOut :: "bytes \<Rightarrow> (CTxOut \<times> bytes) option" where
  "Unserialize_CTxOut s =
     do { (v, s) \<leftarrow> Unserialize_int64 s; (sc, s) \<leftarrow> Unserialize_bytes s; Some (\<lparr>nValue = v, scriptPubKey = sc\<rparr>, s) }"

definition Serialize_witness :: "valtype list \<Rightarrow> bytes" where
  "Serialize_witness = Serialize_vector Serialize_bytes"

definition Unserialize_witness :: "bytes \<Rightarrow> (valtype list \<times> bytes) option" where
  "Unserialize_witness = Unserialize_vector Unserialize_bytes"

definition SerializeTransaction :: "bool \<Rightarrow> CTransaction \<Rightarrow> bytes" where
  "SerializeTransaction fAllowWitness tx =
     (let flag = fAllowWitness \<and> HasWitness tx in
      ser_writedata32 (tx_nVersion tx)
      @ (if flag then Serialize_vector Serialize_CTxIn [] @ ser_writedata8 1 else [])
      @ Serialize_vector Serialize_CTxIn (vin tx)
      @ Serialize_vector Serialize_CTxOut (vout tx)
      @ (if flag then concat (map (\<lambda>i. Serialize_witness (scriptWitness i)) (vin tx)) else [])
      @ ser_writedata32 (nLockTime tx))"

text \<open>The inputs and outputs with the flag byte that remains to be handled.\<close>

definition read_vin_vout :: "bool \<Rightarrow> bytes \<Rightarrow> ((CTxIn list \<times> CTxOut list \<times> u8) \<times> bytes) option" where
  "read_vin_vout fAllowWitness s =
     do { (ins, s) \<leftarrow> Unserialize_vector Unserialize_CTxIn s;
          if length ins = 0 \<and> fAllowWitness then
            do { (flag, s) \<leftarrow> ser_readdata8 s;
                 if flag \<noteq> 0 then
                   do { (ins, s) \<leftarrow> Unserialize_vector Unserialize_CTxIn s;
                        (outs, s) \<leftarrow> Unserialize_vector Unserialize_CTxOut s;
                        Some ((ins, outs, flag), s) }
                 else Some (([], [], flag), s) }
          else
            do { (outs, s) \<leftarrow> Unserialize_vector Unserialize_CTxOut s; Some ((ins, outs, 0), s) } }"

definition attach_witness :: "CTxIn list \<Rightarrow> valtype list list \<Rightarrow> CTxIn list" where
  "attach_witness ins ws = map2 (\<lambda>i w. i\<lparr>scriptWitness := w\<rparr>) ins ws"

definition UnserializeTransaction :: "bool \<Rightarrow> bytes \<Rightarrow> (CTransaction \<times> bytes) option" where
  "UnserializeTransaction fAllowWitness s =
     do { (version, s) \<leftarrow> ser_readdata32 s;
          ((ins, outs, flag), s) \<leftarrow> read_vin_vout fAllowWitness s;
          (ins, flag, s) \<leftarrow>
            (if flag AND 1 \<noteq> 0 \<and> fAllowWitness then
               do { (ws, s) \<leftarrow> read_n Unserialize_witness (length ins) s; Some (attach_witness ins ws, flag XOR 1, s) }
             else Some (ins, flag, s));
          if flag \<noteq> 0 then None
          else do { (lock, s) \<leftarrow> ser_readdata32 s;
                    Some (\<lparr>vin = ins, vout = outs, tx_nVersion = version, nLockTime = lock\<rparr>, s) } }"

definition ComputeHash :: "(bytes \<Rightarrow> uint256) \<Rightarrow> CTransaction \<Rightarrow> uint256" where
  "ComputeHash Hash tx = Hash (SerializeTransaction False tx)"

definition GetWitnessHash :: "(bytes \<Rightarrow> uint256) \<Rightarrow> CTransaction \<Rightarrow> uint256" where
  "GetWitnessHash Hash tx =
     (if \<not> HasWitness tx then ComputeHash Hash tx else Hash (SerializeTransaction True tx))"

definition GetTotalSize :: "CTransaction \<Rightarrow> nat" where
  "GetTotalSize tx = length (SerializeTransaction True tx)"

subsection \<open>Values\<close>

abbreviation (input) COIN :: int where "COIN \<equiv> 100000000"

definition MAX_MONEY :: int where
  "MAX_MONEY = 21000000000 * COIN"

definition MoneyRange :: "int \<Rightarrow> bool" where
  "MoneyRange v = (v \<ge> 0 \<and> v \<le> MAX_MONEY)"

text \<open>\<open>None\<close> is the thrown \<open>runtime_error\<close>.\<close>

fun value_out_loop :: "bool \<Rightarrow> CTxOut list \<Rightarrow> int \<Rightarrow> int option" where
  "value_out_loop fAreEnforcedValues [] nValueOut = Some nValueOut"
| "value_out_loop fAreEnforcedValues (out # outs) nValueOut =
     (if \<not> fAreEnforcedValues \<and> IsAssetScript (scriptPubKey out) \<noteq> None then value_out_loop fAreEnforcedValues outs nValueOut
      else
        let nValueOut = nValueOut + nValue out in
        if \<not> MoneyRange (nValue out) \<or> \<not> MoneyRange nValueOut then None
        else value_out_loop fAreEnforcedValues outs nValueOut)"

definition GetValueOut :: "bool \<Rightarrow> CTransaction \<Rightarrow> int option" where
  "GetValueOut fAreEnforcedValues tx = value_out_loop fAreEnforcedValues (vout tx) 0"

subsection \<open>The serialised classes are codecs\<close>

definition valid_outpoint :: "COutPoint \<Rightarrow> bool" where
  "valid_outpoint p \<longleftrightarrow> length (out_hash p) = 32"

definition valid_txin :: "CTxIn \<Rightarrow> bool" where
  "valid_txin i \<longleftrightarrow> valid_outpoint (prevout i) \<and> length (scriptSig i) \<le> MAX_SIZE"

definition valid_txout :: "CTxOut \<Rightarrow> bool" where
  "valid_txout out \<longleftrightarrow> int64 (nValue out) \<and> length (scriptPubKey out) \<le> MAX_SIZE"

definition valid_witness :: "valtype list \<Rightarrow> bool" where
  "valid_witness w \<longleftrightarrow> length w \<le> MAX_SIZE \<and> list_all (\<lambda>v. length v \<le> MAX_SIZE) w"

interpretation outpointc: codec Serialize_COutPoint Unserialize_COutPoint valid_outpoint
  by unfold_locales (auto simp: Serialize_COutPoint_def Unserialize_COutPoint_def valid_outpoint_def take_all_read
      u32c.get_put stream_read_iff dest!: u32c.put_get split: bind_splits)

interpretation txinc: codec Serialize_CTxIn Unserialize_CTxIn "\<lambda>i. valid_txin i \<and> scriptWitness i = []"
  by unfold_locales (auto simp: Serialize_CTxIn_def Unserialize_CTxIn_def valid_txin_def outpointc.get_put bytesc.get_put
      u32c.get_put dest!: outpointc.put_get bytesc.put_get u32c.put_get split: bind_splits)

interpretation txoutc: codec Serialize_CTxOut Unserialize_CTxOut valid_txout
  by unfold_locales (auto simp: Serialize_CTxOut_def Unserialize_CTxOut_def valid_txout_def bytesc.get_put i64c.get_put
      dest!: bytesc.put_get i64c.put_get split: bind_splits)

interpretation witnessc: codec Serialize_witness Unserialize_witness valid_witness
  unfolding Serialize_witness_def Unserialize_witness_def valid_witness_def by (rule bytesc.vector_codec)

interpretation vinc: codec "Serialize_vector Serialize_CTxIn" "Unserialize_vector Unserialize_CTxIn"
    "\<lambda>v. length v \<le> MAX_SIZE \<and> list_all (\<lambda>i. valid_txin i \<and> scriptWitness i = []) v"
  by (rule txinc.vector_codec)

interpretation voutc: codec "Serialize_vector Serialize_CTxOut" "Unserialize_vector Unserialize_CTxOut"
    "\<lambda>v. length v \<le> MAX_SIZE \<and> list_all valid_txout v"
  by (rule txoutc.vector_codec)

text \<open>A transaction without its witnesses; the inputs of one are what the input vector of a transaction serialises.\<close>

definition strip_in :: "CTxIn \<Rightarrow> CTxIn" where
  "strip_in i = i\<lparr>scriptWitness := []\<rparr>"

definition strip_tx :: "CTransaction \<Rightarrow> CTransaction" where
  "strip_tx tx = tx\<lparr>vin := map strip_in (vin tx)\<rparr>"

definition valid_tx :: "CTransaction \<Rightarrow> bool" where
  "valid_tx tx \<longleftrightarrow> length (vin tx) \<le> MAX_SIZE \<and> length (vout tx) \<le> MAX_SIZE \<and> list_all valid_txin (vin tx)
     \<and> list_all valid_txout (vout tx) \<and> list_all (\<lambda>i. valid_witness (scriptWitness i)) (vin tx)"

lemma Serialize_strip_in [simp]: "Serialize_CTxIn (strip_in i) = Serialize_CTxIn i"
  by (simp add: Serialize_CTxIn_def strip_in_def)

lemma Serialize_vin_strip: "Serialize_vector Serialize_CTxIn ins = Serialize_vector Serialize_CTxIn (map strip_in ins)"
  by (simp add: Serialize_vector_def comp_def)

lemma read_vin:
  assumes "valid_tx tx"
  shows "Unserialize_vector Unserialize_CTxIn (Serialize_vector Serialize_CTxIn (vin tx) @ rest) = Some (map strip_in (vin tx), rest)"
proof -
  have "list_all (\<lambda>i. valid_txin i \<and> scriptWitness i = []) (map strip_in (vin tx))"
    using assms by (simp add: valid_tx_def list_all_iff strip_in_def valid_txin_def)
  then show ?thesis
    unfolding Serialize_vin_strip[of "vin tx"] using assms by (intro vinc.get_put) (simp add: valid_tx_def)
qed

lemma read_vout: "valid_tx tx \<Longrightarrow>
    Unserialize_vector Unserialize_CTxOut (Serialize_vector Serialize_CTxOut (vout tx) @ rest) = Some (vout tx, rest)"
  by (intro voutc.get_put) (simp add: valid_tx_def)

lemma read_witnesses: "valid_tx tx \<Longrightarrow>
    read_n Unserialize_witness (length (vin tx)) (concat (map (\<lambda>i. Serialize_witness (scriptWitness i)) (vin tx)) @ rest)
      = Some (map scriptWitness (vin tx), rest)"
  by (simp add: witnessc.read_n_iff valid_tx_def list_all_iff comp_def)

lemma attach_strip: "attach_witness (map strip_in ins) (map scriptWitness ins) = ins"
  unfolding attach_witness_def by (induction ins) (simp_all add: strip_in_def)

lemma strip_no_witness: "\<not> HasWitness tx \<Longrightarrow> strip_tx tx = tx"
proof -
  assume "\<not> HasWitness tx"
  then have "map strip_in (vin tx) = vin tx"
    unfolding HasWitness_def by (intro map_idI) (simp add: strip_in_def list_ex_iff)
  then show ?thesis by (simp add: strip_tx_def)
qed

lemma read_empty_vin: "Unserialize_vector Unserialize_CTxIn (Serialize_vector Serialize_CTxIn [] @ rest) = Some ([], rest)"
  by (rule vinc.get_put) (simp add: MAX_SIZE_def)

text \<open>The basic format, also the one of the hash.\<close>

lemma read_basic:
  assumes "valid_tx tx" "\<not> (fAllowWitness \<and> (HasWitness tx \<or> vin tx = []))"
  shows "UnserializeTransaction fAllowWitness (SerializeTransaction fAllowWitness tx @ rest) = Some (strip_tx tx, rest)"
  using assms by (auto simp: UnserializeTransaction_def SerializeTransaction_def read_vin_vout_def u32c.get_put read_vin read_vout strip_tx_def)

lemma read_extended:
  assumes "valid_tx tx" "HasWitness tx"
  shows "UnserializeTransaction True (SerializeTransaction True tx @ rest) = Some (tx, rest)"
  using assms by (simp add: UnserializeTransaction_def SerializeTransaction_def read_vin_vout_def u32c.get_put u8c.get_put
      read_empty_vin read_vin read_vout read_witnesses attach_strip)
lemma SerializeTransaction_strip: "SerializeTransaction False (strip_tx tx) = SerializeTransaction False tx"
  using Serialize_vin_strip[of "vin tx"] by (simp add: SerializeTransaction_def strip_tx_def)

lemma SerializeTransaction_no_witness: "\<not> HasWitness tx \<Longrightarrow> SerializeTransaction True tx = SerializeTransaction False tx"
  by (simp add: SerializeTransaction_def)

lemma GetWitnessHash_True: "GetWitnessHash Hash tx = Hash (SerializeTransaction True tx)"
  by (simp add: GetWitnessHash_def ComputeHash_def SerializeTransaction_no_witness)

lemma read_with_witness:
  assumes "valid_tx tx" "vin tx \<noteq> []"
  shows "UnserializeTransaction True (SerializeTransaction True tx @ rest) = Some (tx, rest)"
proof (cases "HasWitness tx")
  case False
  with assms read_basic[of tx True rest] show ?thesis by (simp add: strip_no_witness)
qed (use assms read_extended in blast)

lemma read_without_witness:
  "valid_tx tx \<Longrightarrow> UnserializeTransaction False (SerializeTransaction False tx @ rest) = Some (strip_tx tx, rest)"
  by (rule read_basic) simp_all

lemma strip_tx_eqI:
  assumes "valid_tx tx" "valid_tx tx'" "SerializeTransaction False tx = SerializeTransaction False tx'"
  shows "strip_tx tx = strip_tx tx'"
  using read_without_witness[OF assms(1), of "[]"] read_without_witness[OF assms(2), of "[]"] unfolding assms(3) by simp

lemma tx_eqI:
  assumes "valid_tx tx" "vin tx \<noteq> []" "valid_tx tx'" "vin tx' \<noteq> []" "SerializeTransaction True tx = SerializeTransaction True tx'"
  shows "tx = tx'"
  using read_with_witness[OF assms(1,2), of "[]"] read_with_witness[OF assms(3,4), of "[]"] unfolding assms(5) by simp

text \<open>A transaction with one input that carries a witness.\<close>

definition sample_tx :: CTransaction where
  "sample_tx = \<lparr>vin = [\<lparr>prevout = \<lparr>out_hash = replicate 32 7, out_n = 1\<rparr>, scriptSig = [], nSequence = -1, scriptWitness = [[1, 2]]\<rparr>],
     vout = [\<lparr>nValue = 5, scriptPubKey = [0x51]\<rparr>], tx_nVersion = 2, nLockTime = 0\<rparr>"

lemma valid_sample_tx: "valid_tx sample_tx" "vin sample_tx \<noteq> []"
  by (simp_all add: sample_tx_def valid_tx_def valid_txin_def valid_outpoint_def valid_txout_def valid_witness_def MAX_SIZE_def int64_def)

text \<open>C15. Reading a serialised transaction gives back the transaction and leaves what follows it in the stream. With
  witnesses allowed this holds for every transaction with an input: one whose witnesses are all empty takes the basic
  format, any other the extended one. Without witnesses the reader returns the transaction stripped of them.\<close>

theorem SerializeTransaction_roundtrip:
  assumes "valid_tx tx" "vin tx \<noteq> []"
  shows "UnserializeTransaction True (SerializeTransaction True tx @ rest) = Some (tx, rest)
    \<and> UnserializeTransaction False (SerializeTransaction False tx @ rest) = Some (strip_tx tx, rest)"
  using assms read_with_witness read_without_witness by blast

theorem SerializeTransaction_roundtrip_witness:
  "UnserializeTransaction True (SerializeTransaction True sample_tx @ [9]) = Some (sample_tx, [9])"
  using SerializeTransaction_roundtrip[of sample_tx "[9]"] valid_sample_tx by simp

text \<open>C25. Let the hash have no collision between the serialisations of two transactions. Then they have the same
  transaction hash exactly if they differ at most in their witnesses, and the same witness hash exactly if they are
  the same transaction.\<close>

theorem hashes_identify_transactions:
  assumes "\<And>b. Hash (SerializeTransaction b tx) = Hash (SerializeTransaction b tx') \<Longrightarrow>
      SerializeTransaction b tx = SerializeTransaction b tx'"
    and "valid_tx tx" "vin tx \<noteq> []" "valid_tx tx'" "vin tx' \<noteq> []"
  shows "(ComputeHash Hash tx = ComputeHash Hash tx' \<longleftrightarrow> strip_tx tx = strip_tx tx')
    \<and> (GetWitnessHash Hash tx = GetWitnessHash Hash tx' \<longleftrightarrow> tx = tx')"
proof (intro conjI iffI)
  assume "ComputeHash Hash tx = ComputeHash Hash tx'"
  then show "strip_tx tx = strip_tx tx'"
    using assms(1)[of False] unfolding ComputeHash_def by (intro strip_tx_eqI assms(2,4)) blast
next
  assume "strip_tx tx = strip_tx tx'"
  then show "ComputeHash Hash tx = ComputeHash Hash tx'"
    using SerializeTransaction_strip[of tx] SerializeTransaction_strip[of tx'] by (simp add: ComputeHash_def)
next
  assume "GetWitnessHash Hash tx = GetWitnessHash Hash tx'"
  then show "tx = tx'"
    using assms(1)[of True] unfolding GetWitnessHash_True by (intro tx_eqI assms(2-5)) blast
qed simp

theorem hashes_identify_transactions_witness:
  "ComputeHash (\<lambda>b. b) sample_tx = ComputeHash (\<lambda>b. b) (strip_tx sample_tx)
    \<and> GetWitnessHash (\<lambda>b. b) sample_tx \<noteq> GetWitnessHash (\<lambda>b. b) (strip_tx sample_tx)"
proof -
  have s: "valid_tx (strip_tx sample_tx)" "vin (strip_tx sample_tx) \<noteq> []" "strip_tx (strip_tx sample_tx) = strip_tx sample_tx"
      "sample_tx \<noteq> strip_tx sample_tx"
    by (simp_all add: sample_tx_def strip_tx_def strip_in_def valid_tx_def valid_txin_def valid_outpoint_def valid_txout_def
        valid_witness_def MAX_SIZE_def int64_def)
  show ?thesis
    using hashes_identify_transactions[of "\<lambda>b. b" sample_tx "strip_tx sample_tx"] valid_sample_tx s by simp
qed

text \<open>The reader also accepts the extended format with empty witnesses only, which the writer never produces.\<close>

lemma superfluous_witness:
  assumes "valid_tx tx" "\<not> HasWitness tx" "vin tx \<noteq> []"
  shows "UnserializeTransaction True
      (ser_writedata32 (tx_nVersion tx) @ Serialize_vector Serialize_CTxIn [] @ ser_writedata8 1
       @ Serialize_vector Serialize_CTxIn (vin tx) @ Serialize_vector Serialize_CTxOut (vout tx)
       @ concat (map (\<lambda>i. Serialize_witness (scriptWitness i)) (vin tx)) @ ser_writedata32 (nLockTime tx) @ rest) = Some (tx, rest)"
  using assms by (simp add: UnserializeTransaction_def read_vin_vout_def u32c.get_put u8c.get_put
      read_empty_vin read_vin read_vout read_witnesses attach_strip)

subsection \<open>Sums of outputs\<close>

lemma value_out_loop_sum:
  "value_out_loop True outs a = Some v \<Longrightarrow> v = a + sum_list (map nValue outs) \<and> list_all (\<lambda>out. MoneyRange (nValue out)) outs"
  by (induction outs arbitrary: a) (fastforce simp: Let_def split: if_splits)+

lemma value_out_loop_skip:
  "value_out_loop False outs a = value_out_loop True (filter (\<lambda>out. IsAssetScript (scriptPubKey out) = None) outs) a"
  by (induction outs arbitrary: a) (auto simp: Let_def)

lemma value_out_loop_range: "value_out_loop f outs a = Some v \<Longrightarrow> MoneyRange a \<Longrightarrow> MoneyRange v"
  by (induction outs arbitrary: a) (auto simp: Let_def split: if_splits)

lemma MoneyRange_0 [simp]: "MoneyRange 0"
  by (simp add: MoneyRange_def MAX_MONEY_def)

end
