(* ===== verification/Asset_Names.thy ===== *)
theory Asset_Names
  imports Prelude "HOL-Library.Char_ord"
begin

text \<open>
  Asset names: the first part of \<^verbatim>\<open>src/src/assets/assets.cpp\<close>. A regular expression of the code that is matched against
  a whole name is a predicate here; \<open>.\<close> of a regular expression is any character but a line terminator. Where a pattern
  has a delimiter that its first part excludes, the first part is the longest prefix of admissible characters.
\<close>

datatype AssetType = ROOT | SUB | UNIQUE | MSGCHANNEL | QUALIFIER | SUB_QUALIFIER | RESTRICTED | VOTE | REISSUE | OWNER
  | NULL_ADD_QUALIFIER | INVALID

abbreviation (input) MAX_NAME_LENGTH :: nat where "MAX_NAME_LENGTH \<equiv> 31"
abbreviation (input) MAX_CHANNEL_NAME_LENGTH :: nat where "MAX_CHANNEL_NAME_LENGTH \<equiv> 12"
abbreviation (input) MIN_ASSET_LENGTH :: nat where "MIN_ASSET_LENGTH \<equiv> 3"
abbreviation (input) OWNER_TAG :: string where "OWNER_TAG \<equiv> ''!''"

subsection \<open>Patterns\<close>

definition in_range :: "char \<Rightarrow> char \<Rightarrow> char \<Rightarrow> bool" where
  "in_range lo hi c = (lo \<le> c \<and> c \<le> hi)"

definition name_char :: "char \<Rightarrow> bool" where
  "name_char c = (in_range CHR ''A'' CHR ''Z'' c \<or> in_range CHR ''0'' CHR ''9'' c \<or> c \<in> set ''._'')"

definition unique_tag_char :: "char \<Rightarrow> bool" where
  "unique_tag_char c = (c \<in> set ''-@$%&*()[]{}_.?:'' \<or> in_range CHR ''A'' CHR ''Z'' c \<or> in_range CHR ''a'' CHR ''z'' c
     \<or> in_range CHR ''0'' CHR ''9'' c)"

definition channel_tag_char :: "char \<Rightarrow> bool" where
  "channel_tag_char c = (c = CHR ''_'' \<or> in_range CHR ''A'' CHR ''Z'' c \<or> in_range CHR ''a'' CHR ''z'' c
     \<or> in_range CHR ''0'' CHR ''9'' c)"

definition punct :: "char \<Rightarrow> bool" where
  "punct c = (c \<in> set ''._'')"

definition dot :: "char \<Rightarrow> bool" where
  "dot c = (c \<noteq> CHR 0x0A \<and> c \<noteq> CHR 0x0D)"

definition match_class :: "(char \<Rightarrow> bool) \<Rightarrow> nat \<Rightarrow> string \<Rightarrow> bool" where
  "match_class P k s = (k \<le> length s \<and> list_all P s)"

definition match_after :: "char \<Rightarrow> (string \<Rightarrow> bool) \<Rightarrow> string \<Rightarrow> bool" where
  "match_after d P s = (case s of [] \<Rightarrow> False | c # t \<Rightarrow> c = d \<and> P t)"

definition ROOT_NAME_CHARACTERS :: "string \<Rightarrow> bool" where
  "ROOT_NAME_CHARACTERS = match_class name_char 3"

definition SUB_NAME_CHARACTERS :: "string \<Rightarrow> bool" where
  "SUB_NAME_CHARACTERS = match_class name_char 1"

definition UNIQUE_TAG_CHARACTERS :: "string \<Rightarrow> bool" where
  "UNIQUE_TAG_CHARACTERS = match_class unique_tag_char 1"

definition MSG_CHANNEL_TAG_CHARACTERS :: "string \<Rightarrow> bool" where
  "MSG_CHANNEL_TAG_CHARACTERS = match_class channel_tag_char 1"

definition VOTE_TAG_CHARACTERS :: "string \<Rightarrow> bool" where
  "VOTE_TAG_CHARACTERS = match_class name_char 1"

definition QUALIFIER_NAME_CHARACTERS :: "string \<Rightarrow> bool" where
  "QUALIFIER_NAME_CHARACTERS = match_after CHR ''#'' (match_class name_char 3)"

definition SUB_QUALIFIER_NAME_CHARACTERS :: "string \<Rightarrow> bool" where
  "SUB_QUALIFIER_NAME_CHARACTERS = match_after CHR ''#'' (match_class name_char 1)"

definition RESTRICTED_NAME_CHARACTERS :: "string \<Rightarrow> bool" where
  "RESTRICTED_NAME_CHARACTERS = match_after CHR ''$'' (match_class name_char 3)"

fun adjacent_punct :: "string \<Rightarrow> bool" where
  "adjacent_punct (a # b # s) = (punct a \<and> punct b \<or> adjacent_punct (b # s))"
| "adjacent_punct _ = False"

definition DOUBLE_PUNCTUATION :: "string \<Rightarrow> bool" where
  "DOUBLE_PUNCTUATION s = (list_all dot s \<and> adjacent_punct s)"

definition LEADING_PUNCTUATION :: "string \<Rightarrow> bool" where
  "LEADING_PUNCTUATION s = (case s of [] \<Rightarrow> False | c # t \<Rightarrow> punct c \<and> list_all dot t)"

definition TRAILING_PUNCTUATION :: "string \<Rightarrow> bool" where
  "TRAILING_PUNCTUATION s = (s \<noteq> [] \<and> list_all dot (butlast s) \<and> punct (last s))"

definition QUALIFIER_LEADING_PUNCTUATION :: "string \<Rightarrow> bool" where
  "QUALIFIER_LEADING_PUNCTUATION s = (case s of c # t \<Rightarrow> c \<in> set ''#$'' \<and> LEADING_PUNCTUATION t | [] \<Rightarrow> False)"

text \<open>A name before a delimiter and a tag after it.\<close>

definition before_tag_char :: "char \<Rightarrow> bool" where
  "before_tag_char c = (c \<notin> set ''^~#!'')"

definition tag_char :: "char \<Rightarrow> bool" where
  "tag_char c = (c \<notin> set ''~#!/'')"

definition tag_indicator :: "char \<Rightarrow> string \<Rightarrow> bool" where
  "tag_indicator d s =
     (takeWhile before_tag_char s \<noteq> [] \<and> match_after d (match_class tag_char 1) (dropWhile before_tag_char s))"

definition UNIQUE_INDICATOR :: "string \<Rightarrow> bool" where
  "UNIQUE_INDICATOR = tag_indicator CHR ''#''"

definition MSG_CHANNEL_INDICATOR :: "string \<Rightarrow> bool" where
  "MSG_CHANNEL_INDICATOR = tag_indicator CHR ''~''"

definition OWNER_INDICATOR :: "string \<Rightarrow> bool" where
  "OWNER_INDICATOR s = (takeWhile before_tag_char s \<noteq> [] \<and> dropWhile before_tag_char s = ''!'')"

definition VOTE_INDICATOR :: "string \<Rightarrow> bool" where
  "VOTE_INDICATOR = tag_indicator CHR ''^''"

definition QUALIFIER_INDICATOR :: "string \<Rightarrow> bool" where
  "QUALIFIER_INDICATOR = match_after CHR ''#'' (match_class name_char 3)"

definition SUB_QUALIFIER_INDICATOR :: "string \<Rightarrow> bool" where
  "SUB_QUALIFIER_INDICATOR = match_after CHR ''#'' (\<lambda>t. takeWhile name_char t \<noteq> [] \<and>
     match_after CHR ''/'' (match_after CHR ''#'' (match_class name_char 1)) (dropWhile name_char t))"

definition RESTRICTED_INDICATOR :: "string \<Rightarrow> bool" where
  "RESTRICTED_INDICATOR = match_after CHR ''$'' (match_class name_char 3)"

definition RAVEN_NAMES :: "string \<Rightarrow> bool" where
  "RAVEN_NAMES s = (s \<in> {''HNB'', ''RAVEN'', ''HOOKERSANDBLOWCOIN'', ''#HNB'', ''#RAVEN'', ''#HOOKERSANDBLOWCOIN''})"

subsection \<open>Parts of a name\<close>

definition IsRootNameValid :: "string \<Rightarrow> bool" where
  "IsRootNameValid s = (ROOT_NAME_CHARACTERS s \<and> \<not> DOUBLE_PUNCTUATION s \<and> \<not> LEADING_PUNCTUATION s
     \<and> \<not> TRAILING_PUNCTUATION s \<and> \<not> RAVEN_NAMES s)"

definition IsQualifierNameValid :: "string \<Rightarrow> bool" where
  "IsQualifierNameValid s = (QUALIFIER_NAME_CHARACTERS s \<and> \<not> DOUBLE_PUNCTUATION s \<and> \<not> QUALIFIER_LEADING_PUNCTUATION s
     \<and> \<not> TRAILING_PUNCTUATION s \<and> \<not> RAVEN_NAMES s)"

definition IsRestrictedNameValid :: "string \<Rightarrow> bool" where
  "IsRestrictedNameValid s = (RESTRICTED_NAME_CHARACTERS s \<and> \<not> DOUBLE_PUNCTUATION s \<and> \<not> LEADING_PUNCTUATION s
     \<and> \<not> TRAILING_PUNCTUATION s \<and> \<not> RAVEN_NAMES s)"

definition IsSubQualifierNameValid :: "string \<Rightarrow> bool" where
  "IsSubQualifierNameValid s = (SUB_QUALIFIER_NAME_CHARACTERS s \<and> \<not> DOUBLE_PUNCTUATION s \<and> \<not> LEADING_PUNCTUATION s
     \<and> \<not> TRAILING_PUNCTUATION s)"

definition IsSubNameValid :: "string \<Rightarrow> bool" where
  "IsSubNameValid s = (SUB_NAME_CHARACTERS s \<and> \<not> DOUBLE_PUNCTUATION s \<and> \<not> LEADING_PUNCTUATION s \<and> \<not> TRAILING_PUNCTUATION s)"

definition IsUniqueTagValid :: "string \<Rightarrow> bool" where
  "IsUniqueTagValid tag = UNIQUE_TAG_CHARACTERS tag"

definition IsVoteTagValid :: "string \<Rightarrow> bool" where
  "IsVoteTagValid tag = VOTE_TAG_CHARACTERS tag"

definition IsMsgChannelTagValid :: "string \<Rightarrow> bool" where
  "IsMsgChannelTagValid tag = (MSG_CHANNEL_TAG_CHARACTERS tag \<and> \<not> DOUBLE_PUNCTUATION tag \<and> \<not> LEADING_PUNCTUATION tag
     \<and> \<not> TRAILING_PUNCTUATION tag)"

fun split_name :: "char \<Rightarrow> string \<Rightarrow> string list" where
  "split_name d [] = [[]]"
| "split_name d (c # s) =
     (if c = d then [] # split_name d s else (c # hd (split_name d s)) # tl (split_name d s))"

definition IsNameValidBeforeTag :: "string \<Rightarrow> bool" where
  "IsNameValidBeforeTag s =
     (let parts = split_name CHR ''/'' s in IsRootNameValid (hd parts) \<and> list_all IsSubNameValid (tl parts))"

definition IsQualifierNameValidBeforeTag :: "string \<Rightarrow> bool" where
  "IsQualifierNameValidBeforeTag s =
     (let parts = split_name CHR ''/'' s in
      IsQualifierNameValid (hd parts) \<and> length parts \<le> 2 \<and> list_all IsSubQualifierNameValid (tl parts))"

definition IsAssetNameASubasset :: "string \<Rightarrow> bool" where
  "IsAssetNameASubasset s = (let parts = split_name CHR ''/'' s in IsRootNameValid (hd parts) \<and> 1 < length parts)"

definition IsAssetNameASubQualifier :: "string \<Rightarrow> bool" where
  "IsAssetNameASubQualifier s = (let parts = split_name CHR ''/'' s in IsQualifierNameValid (hd parts) \<and> 1 < length parts)"

subsection \<open>The type of a name\<close>

datatype name_error = MaxLength nat | UniqueCharacters | ChannelLength nat | ChannelCharacters | OwnerCharacters | VoteCharacters
  | QualifierCharacters | RestrictedCharacters | MinLength nat | AtLeastThree | NameCharacters

text \<open>The message that the function sets, or \<open>None\<close> when it returns true.\<close>

definition IsTypeCheckNameValid :: "AssetType \<Rightarrow> string \<Rightarrow> name_error option" where
  "IsTypeCheckNameValid type name =
     (if type = UNIQUE then
        if MAX_NAME_LENGTH < length name then Some (MaxLength MAX_NAME_LENGTH)
        else let parts = split_name CHR ''#'' name in
          if \<not> (IsNameValidBeforeTag (hd parts) \<and> IsUniqueTagValid (last parts)) then Some UniqueCharacters else None
      else if type = MSGCHANNEL then
        if MAX_NAME_LENGTH < length name then Some (MaxLength MAX_NAME_LENGTH)
        else let parts = split_name CHR ''~'' name; valid = IsNameValidBeforeTag (hd parts) \<and> IsMsgChannelTagValid (last parts) in
          if MAX_CHANNEL_NAME_LENGTH < length (last parts) then Some (ChannelLength MAX_CHANNEL_NAME_LENGTH)
          else if \<not> valid then Some ChannelCharacters else None
      else if type = OWNER then
        if MAX_NAME_LENGTH < length name then Some (MaxLength MAX_NAME_LENGTH)
        else if \<not> IsNameValidBeforeTag (butlast name) then Some OwnerCharacters else None
      else if type = VOTE then
        if MAX_NAME_LENGTH < length name then Some (MaxLength MAX_NAME_LENGTH)
        else let parts = split_name CHR ''^'' name in
          if \<not> (IsNameValidBeforeTag (hd parts) \<and> IsVoteTagValid (last parts)) then Some VoteCharacters else None
      else if type = QUALIFIER \<or> type = SUB_QUALIFIER then
        if MAX_NAME_LENGTH < length name then Some (MaxLength MAX_NAME_LENGTH)
        else if \<not> IsQualifierNameValidBeforeTag name then Some QualifierCharacters else None
      else if type = RESTRICTED then
        if MAX_NAME_LENGTH < length name then Some (MaxLength MAX_NAME_LENGTH)
        else if \<not> IsRestrictedNameValid name then Some RestrictedCharacters else None
      else
        if MAX_NAME_LENGTH - 1 < length name then Some (MaxLength (MAX_NAME_LENGTH - 1))
        else if \<not> IsAssetNameASubasset name \<and> length name < MIN_ASSET_LENGTH then Some (MinLength MIN_ASSET_LENGTH)
        else let valid = IsNameValidBeforeTag name in
          if \<not> valid \<and> IsAssetNameASubasset name \<and> length name < 3 then Some AtLeastThree
          else if \<not> valid then Some NameCharacters else None)"

text \<open>The result, and what becomes of the type and the message that are passed by reference.\<close>

definition typed_name :: "AssetType \<Rightarrow> AssetType \<Rightarrow> string \<Rightarrow> name_error option \<Rightarrow> bool \<times> AssetType \<times> name_error option" where
  "typed_name type assetType name err =
     (case IsTypeCheckNameValid type name of None \<Rightarrow> (True, assetType, err) | Some e \<Rightarrow> (False, INVALID, Some e))"

definition IsAssetNameValid :: "string \<Rightarrow> AssetType \<Rightarrow> name_error option \<Rightarrow> bool \<times> AssetType \<times> name_error option" where
  "IsAssetNameValid name assetType err =
     (if 40 < length name then (False, assetType, err)
      else if UNIQUE_INDICATOR name then typed_name UNIQUE UNIQUE name err
      else if MSG_CHANNEL_INDICATOR name then typed_name MSGCHANNEL MSGCHANNEL name err
      else if OWNER_INDICATOR name then typed_name OWNER OWNER name err
      else if VOTE_INDICATOR name then typed_name VOTE VOTE name err
      else if QUALIFIER_INDICATOR name then
        typed_name QUALIFIER (if IsAssetNameASubQualifier name then SUB_QUALIFIER else QUALIFIER) name err
      else if SUB_QUALIFIER_INDICATOR name then
        typed_name SUB_QUALIFIER (if IsAssetNameASubQualifier name then SUB_QUALIFIER else INVALID) name err
      else if RESTRICTED_INDICATOR name then typed_name RESTRICTED RESTRICTED name err
      else let type = (if IsAssetNameASubasset name then SUB else ROOT) in typed_name type type name err)"

text \<open>The callers that pass a type start it as \<open>INVALID\<close> here; in the code it is not initialised.\<close>

definition asset_name_type :: "string \<Rightarrow> AssetType option" where
  "asset_name_type name = (case IsAssetNameValid name INVALID None of (ok, type, _) \<Rightarrow> if ok then Some type else None)"

definition IsAssetNameARoot :: "string \<Rightarrow> bool" where
  "IsAssetNameARoot name = (asset_name_type name = Some ROOT)"

definition IsAssetNameAnOwner :: "string \<Rightarrow> bool" where
  "IsAssetNameAnOwner name = (asset_name_type name \<noteq> None \<and> OWNER_INDICATOR name)"

definition IsAssetNameAnRestricted :: "string \<Rightarrow> bool" where
  "IsAssetNameAnRestricted name = (asset_name_type name \<noteq> None \<and> RESTRICTED_INDICATOR name)"

definition IsAssetNameAQualifier :: "string \<Rightarrow> bool \<Rightarrow> bool" where
  "IsAssetNameAQualifier name fOnlyQualifiers =
     (if fOnlyQualifiers then asset_name_type name \<noteq> None \<and> QUALIFIER_INDICATOR name
      else asset_name_type name \<noteq> None \<and> (QUALIFIER_INDICATOR name \<or> SUB_QUALIFIER_INDICATOR name))"

definition IsAssetNameAnMsgChannel :: "string \<Rightarrow> bool" where
  "IsAssetNameAnMsgChannel name = (asset_name_type name \<noteq> None \<and> MSG_CHANNEL_INDICATOR name)"

definition RestrictedNameToOwnerName :: "string \<Rightarrow> string" where
  "RestrictedNameToOwnerName name = (if \<not> IsAssetNameAnRestricted name then [] else drop 1 name @ OWNER_TAG)"

text \<open>The prefix before the last delimiter.\<close>

definition before_last :: "char \<Rightarrow> string \<Rightarrow> string" where
  "before_last d name = (if d \<in> set name then rev (drop 1 (dropWhile (\<lambda>c. c \<noteq> d) (rev name))) else name)"

definition GetParentName :: "string \<Rightarrow> string" where
  "GetParentName name =
     (case asset_name_type name of
        None \<Rightarrow> []
      | Some type \<Rightarrow>
          if type = SUB then before_last CHR ''/'' name
          else if type = UNIQUE then before_last CHR ''#'' name
          else if type = MSGCHANNEL then before_last CHR ''~'' name
          else if type = VOTE then before_last CHR ''^'' name
          else if type = SUB_QUALIFIER then before_last CHR ''/'' name
          else name)"

definition GetUniqueAssetName :: "string \<Rightarrow> string \<Rightarrow> string" where
  "GetUniqueAssetName parent tag =
     (let unique = parent @ ''#'' @ tag in if asset_name_type unique = Some UNIQUE then unique else [])"

subsection \<open>Splitting\<close>

lemma split_name_ne [simp]: "split_name d s \<noteq> []"
  by (cases s) auto

lemma hd_split_name: "hd (split_name d s) = takeWhile (\<lambda>c. c \<noteq> d) s"
  by (induction s) auto

lemma split_name_none: "d \<notin> set s \<Longrightarrow> split_name d s = [s]"
  by (induction s) auto

lemma split_name_app: "split_name d (a @ d # b) = split_name d a @ split_name d b"
  by (induction a) auto

lemma parts_no_delim: "p \<in> set (split_name d s) \<Longrightarrow> d \<notin> set p"
proof (induction s arbitrary: p)
  case (Cons c s)
  obtain q qs where "split_name d s = q # qs" by (cases "split_name d s") simp_all
  with Cons show ?case by (auto split: if_splits)
qed simp

lemma length_split_name: "1 < length (split_name d s) \<longleftrightarrow> d \<in> set s"
  by (induction s) (auto simp: Suc_lessI)

lemma set_parts: "c \<in> set s \<Longrightarrow> c = d \<or> (\<exists>p\<in>set (split_name d s). c \<in> set p)"
proof (induction s)
  case (Cons a s)
  obtain q qs where "split_name d s = q # qs" by (cases "split_name d s") simp_all
  with Cons show ?case by auto
qed simp

lemma split_last_delim:
  assumes "d \<in> set s"
  obtains a b where "s = a @ d # b" "d \<notin> set b" "before_last d s = a"
proof -
  obtain b a where s: "rev s = b @ d # a" "d \<notin> set b"
    using split_list_first[of d "rev s"] assms by auto
  then have "dropWhile (\<lambda>c. c \<noteq> d) (rev s) = d # a"
    by (subst s(1), subst dropWhile_append2) auto
  moreover have "s = rev a @ d # rev b" using s(1) by (metis append.assoc append_Cons append_Nil rev.simps(2) rev_append rev_rev_ident)
  ultimately show thesis using that[of "rev a" "rev b"] s(2) assms by (simp add: before_last_def)
qed

subsection \<open>Shapes of names\<close>

lemma name_char_not [simp]:
  "\<not> name_char CHR ''^''" "\<not> name_char CHR ''~''" "\<not> name_char CHR ''#''" "\<not> name_char CHR ''!''" "\<not> name_char CHR ''/''"
  "\<not> name_char CHR ''$''"
  by (simp_all add: name_char_def in_range_def)

lemma name_char_before_tag: "name_char c \<or> c = CHR ''/'' \<Longrightarrow> before_tag_char c"
  by (auto simp: before_tag_char_def)

lemma before_tag_parts:
  assumes "IsNameValidBeforeTag s"
  shows "list_all (\<lambda>c. name_char c \<or> c = CHR ''/'') s" "3 \<le> length s" "list_all before_tag_char s"
proof -
  let ?ps = "split_name CHR ''/'' s"
  have hd: "match_class name_char 3 (hd ?ps)" and tl: "list_all (match_class name_char 1) (tl ?ps)"
    using assms by (auto simp: IsNameValidBeforeTag_def IsRootNameValid_def ROOT_NAME_CHARACTERS_def IsSubNameValid_def
        SUB_NAME_CHARACTERS_def list_all_iff Let_def)
  have "list_all name_char p" if "p \<in> set ?ps" for p
    using that hd tl by (cases ?ps) (auto simp: match_class_def list_all_iff)
  then show all: "list_all (\<lambda>c. name_char c \<or> c = CHR ''/'') s"
    using set_parts[of _ s "CHR ''/''"] by (fastforce simp: list_all_iff)
  have "3 \<le> length (takeWhile (\<lambda>c. c \<noteq> CHR ''/'') s)" using hd by (simp add: hd_split_name match_class_def)
  then show "3 \<le> length s" using length_takeWhile_le le_trans by blast
  show "list_all before_tag_char s" using all name_char_before_tag by (auto simp: list_all_iff)
qed

lemma before_tag_dropWhile: "list_all before_tag_char s \<Longrightarrow> dropWhile before_tag_char s = []"
  by (simp add: list_all_iff)

lemma no_indicator:
  assumes "IsNameValidBeforeTag s"
  shows "\<not> UNIQUE_INDICATOR s" "\<not> MSG_CHANNEL_INDICATOR s" "\<not> OWNER_INDICATOR s" "\<not> VOTE_INDICATOR s"
    "\<not> QUALIFIER_INDICATOR s" "\<not> SUB_QUALIFIER_INDICATOR s" "\<not> RESTRICTED_INDICATOR s"
proof -
  have e: "dropWhile before_tag_char s = []" using before_tag_parts(3)[OF assms] by (rule before_tag_dropWhile)
  obtain c t where s: "s = c # t" using before_tag_parts(2)[OF assms] by (cases s) auto
  have c: "c \<noteq> CHR ''#''" "c \<noteq> CHR ''$''" using before_tag_parts(1)[OF assms] by (auto simp: s)
  show "\<not> UNIQUE_INDICATOR s" "\<not> MSG_CHANNEL_INDICATOR s" "\<not> OWNER_INDICATOR s" "\<not> VOTE_INDICATOR s"
    by (simp_all add: UNIQUE_INDICATOR_def MSG_CHANNEL_INDICATOR_def OWNER_INDICATOR_def VOTE_INDICATOR_def tag_indicator_def
        match_after_def e)
  show "\<not> QUALIFIER_INDICATOR s" "\<not> SUB_QUALIFIER_INDICATOR s" "\<not> RESTRICTED_INDICATOR s"
    by (simp_all only: QUALIFIER_INDICATOR_def SUB_QUALIFIER_INDICATOR_def RESTRICTED_INDICATOR_def match_after_def s list.case c) simp_all
qed

lemma typed_name_ok: "typed_name t t' s e = (True, t'', e') \<longleftrightarrow> IsTypeCheckNameValid t s = None \<and> t'' = t' \<and> e' = e"
  by (auto simp: typed_name_def split: option.splits)

lemma typed_name_cases: "\<exists>t'' e'. typed_name t t' s e = (False, t'', e') \<or> typed_name t t' s e = (True, t'', e)"
  by (auto simp: typed_name_def split: option.splits)

lemma asset_name_type_iff: "asset_name_type s = Some t \<longleftrightarrow> IsAssetNameValid s INVALID None = (True, t, None)"
proof -
  have "\<exists>t e. IsAssetNameValid s INVALID None = (False, t, e) \<or> IsAssetNameValid s INVALID None = (True, t, None)"
    using typed_name_cases[of _ _ s None] unfolding IsAssetNameValid_def Let_def by (simp only: split: if_split) blast
  then show ?thesis by (auto simp: asset_name_type_def)
qed

text \<open>What the check of each type asks for.\<close>

lemma type_check_simps [simp]:
  "IsTypeCheckNameValid UNIQUE s = None \<longleftrightarrow> length s \<le> 31 \<and> IsNameValidBeforeTag (hd (split_name CHR ''#'' s))
     \<and> IsUniqueTagValid (last (split_name CHR ''#'' s))"
  "IsTypeCheckNameValid MSGCHANNEL s = None \<longleftrightarrow> length s \<le> 31 \<and> IsNameValidBeforeTag (hd (split_name CHR ''~'' s))
     \<and> IsMsgChannelTagValid (last (split_name CHR ''~'' s)) \<and> length (last (split_name CHR ''~'' s)) \<le> 12"
  "IsTypeCheckNameValid OWNER s = None \<longleftrightarrow> length s \<le> 31 \<and> IsNameValidBeforeTag (butlast s)"
  "IsTypeCheckNameValid VOTE s = None \<longleftrightarrow> length s \<le> 31 \<and> IsNameValidBeforeTag (hd (split_name CHR ''^'' s))
     \<and> IsVoteTagValid (last (split_name CHR ''^'' s))"
  "IsTypeCheckNameValid QUALIFIER s = None \<longleftrightarrow> length s \<le> 31 \<and> IsQualifierNameValidBeforeTag s"
  "IsTypeCheckNameValid SUB_QUALIFIER s = None \<longleftrightarrow> length s \<le> 31 \<and> IsQualifierNameValidBeforeTag s"
  "IsTypeCheckNameValid RESTRICTED s = None \<longleftrightarrow> length s \<le> 31 \<and> IsRestrictedNameValid s"
  unfolding IsTypeCheckNameValid_def Let_def
  by (simp_all only: AssetType.distinct if_False if_True simp_thms) (auto simp: not_less)

lemma type_check_plain:
  assumes "t = ROOT \<or> t = SUB"
  shows "IsTypeCheckNameValid t s = None \<longleftrightarrow> length s \<le> 30 \<and> IsNameValidBeforeTag s"
  using assms
proof
  assume t: "t = ROOT"
  show ?thesis
    unfolding t IsTypeCheckNameValid_def Let_def using before_tag_parts(2)[of s]
    by (simp only: AssetType.distinct if_False if_True simp_thms) auto
next
  assume t: "t = SUB"
  show ?thesis
    unfolding t IsTypeCheckNameValid_def Let_def using before_tag_parts(2)[of s]
    by (simp only: AssetType.distinct if_False if_True simp_thms) auto
qed

lemma asset_name_cases:
  assumes "asset_name_type s = Some t"
  obtains "t = UNIQUE" "UNIQUE_INDICATOR s" "IsTypeCheckNameValid UNIQUE s = None"
  | "t = MSGCHANNEL" "MSG_CHANNEL_INDICATOR s" "IsTypeCheckNameValid MSGCHANNEL s = None"
  | "t = OWNER" "OWNER_INDICATOR s" "IsTypeCheckNameValid OWNER s = None"
  | "t = VOTE" "VOTE_INDICATOR s" "IsTypeCheckNameValid VOTE s = None"
  | "t = (if IsAssetNameASubQualifier s then SUB_QUALIFIER else QUALIFIER)" "QUALIFIER_INDICATOR s"
      "IsTypeCheckNameValid QUALIFIER s = None"
  | "t = (if IsAssetNameASubQualifier s then SUB_QUALIFIER else INVALID)" "SUB_QUALIFIER_INDICATOR s" "\<not> QUALIFIER_INDICATOR s"
      "IsTypeCheckNameValid SUB_QUALIFIER s = None"
  | "t = RESTRICTED" "RESTRICTED_INDICATOR s" "IsTypeCheckNameValid RESTRICTED s = None"
  | "t = (if IsAssetNameASubasset s then SUB else ROOT)" "IsTypeCheckNameValid t s = None"
  using assms unfolding asset_name_type_iff IsAssetNameValid_def Let_def
  by (simp only: typed_name_ok split: if_split_asm) blast+

text \<open>The names of root and sub assets.\<close>

lemma name_validI:
  assumes "length s \<le> 30" "IsNameValidBeforeTag s"
  shows "asset_name_type s = Some (if CHR ''/'' \<in> set s then SUB else ROOT)"
proof -
  define t where "t = (if IsAssetNameASubasset s then SUB else ROOT)"
  have "IsAssetNameASubasset s \<longleftrightarrow> CHR ''/'' \<in> set s"
    using assms(2) length_split_name[of "CHR ''/''" s] by (auto simp: IsAssetNameASubasset_def IsNameValidBeforeTag_def Let_def)
  then have t: "t = (if CHR ''/'' \<in> set s then SUB else ROOT)" unfolding t_def by simp
  have "IsTypeCheckNameValid t s = None" using assms type_check_plain[of t s] unfolding t_def by simp
  then show ?thesis
    using assms no_indicator[OF assms(2)] unfolding t[symmetric] asset_name_type_iff IsAssetNameValid_def Let_def t_def[symmetric]
    by (simp add: typed_name_ok)
qed

lemma name_valid_iff:
  "asset_name_type s = Some ROOT \<or> asset_name_type s = Some SUB \<longleftrightarrow> length s \<le> 30 \<and> IsNameValidBeforeTag s"
proof
  assume "asset_name_type s = Some ROOT \<or> asset_name_type s = Some SUB"
  then obtain t where t: "asset_name_type s = Some t" "t = ROOT \<or> t = SUB" by blast
  from t(1) show "length s \<le> 30 \<and> IsNameValidBeforeTag s"
    by (cases rule: asset_name_cases) (use t(2) type_check_plain[of t s] in \<open>auto split: if_splits\<close>)
qed (simp add: name_validI)

lemma SUB_iff: "asset_name_type s = Some SUB \<longleftrightarrow> length s \<le> 30 \<and> IsNameValidBeforeTag s \<and> CHR ''/'' \<in> set s"
  using name_valid_iff[of s] name_validI[of s] by (auto split: if_splits)

lemma tag_indicatorE:
  assumes "tag_indicator d s" "d \<in> set ''^~#!''"
  obtains a b where "s = a @ d # b" "list_all before_tag_char a" "list_all tag_char b" "b \<noteq> []" "hd (split_name d s) = a"
proof -
  obtain b where b: "dropWhile before_tag_char s = d # b" "list_all tag_char b" "b \<noteq> []"
    using assms(1) by (fastforce simp: tag_indicator_def match_after_def match_class_def split: list.splits)
  define a where "a = takeWhile before_tag_char s"
  have s: "s = a @ d # b" using takeWhile_dropWhile_id[of before_tag_char s] b(1) by (simp add: a_def)
  have a: "list_all before_tag_char a" by (auto simp: a_def list_all_iff dest: set_takeWhileD)
  then have "d \<notin> set a" using assms(2) by (auto simp: list_all_iff before_tag_char_def)
  then have "hd (split_name d s) = a" by (simp add: s split_name_app split_name_none)
  with s a b that show thesis by blast
qed

text \<open>For the delimiters that a tag excludes the split has two parts.\<close>

lemma tag_split:
  assumes "s = a @ d # b" "d \<notin> set a" "d \<notin> set b"
  shows "split_name d s = [a, b]" "before_last d s = a"
proof -
  show "split_name d s = [a, b]" using assms by (simp add: split_name_app split_name_none)
  obtain a' b' where "s = a' @ d # b'" "d \<notin> set b'" "before_last d s = a'" using split_last_delim[of d s] assms(1) by auto
  moreover have "a' = a" using calculation(1,2) assms by (metis append_Cons_eq_iff)
  ultimately show "before_last d s = a" by simp
qed

lemma parent_of_tagged:
  assumes "tag_indicator d s" "d = CHR ''#'' \<or> d = CHR ''~''" "length s \<le> 31" "IsNameValidBeforeTag (hd (split_name d s))"
  shows "length (before_last d s) \<le> 30 \<and> IsNameValidBeforeTag (before_last d s)
    \<and> s = before_last d s @ d # last (split_name d s)"
proof -
  obtain a b where s: "s = a @ d # b" "list_all before_tag_char a" "list_all tag_char b"
    by (rule tag_indicatorE[OF assms(1)]) (use assms(2) in auto)
  have "d \<notin> set a" "d \<notin> set b" using s(2,3) assms(2) by (auto simp: list_all_iff before_tag_char_def tag_char_def)
  from tag_split[OF s(1) this] show ?thesis using assms(3,4) s(1) by auto
qed

lemma parent_of_sub:
  assumes "IsNameValidBeforeTag s" "CHR ''/'' \<in> set s"
  shows "IsNameValidBeforeTag (before_last CHR ''/'' s) \<and> (\<exists>b. s = before_last CHR ''/'' s @ CHR ''/'' # b)"
proof -
  obtain a b where s: "s = a @ CHR ''/'' # b" "CHR ''/'' \<notin> set b" "before_last CHR ''/'' s = a"
    using split_last_delim[OF assms(2)] .
  have "split_name CHR ''/'' s = split_name CHR ''/'' a @ [b]" unfolding s(1) split_name_app split_name_none[OF s(2)] ..
  then have "IsNameValidBeforeTag a" using assms(1) by (simp add: IsNameValidBeforeTag_def Let_def)
  with s(1,3) show ?thesis by auto
qed

lemma parent_of_sub_qualifier:
  assumes "IsQualifierNameValidBeforeTag s" "CHR ''/'' \<in> set s"
  shows "IsQualifierNameValid (before_last CHR ''/'' s) \<and> (\<exists>b. s = before_last CHR ''/'' s @ CHR ''/'' # b)"
proof -
  obtain a b where s: "s = a @ CHR ''/'' # b" "CHR ''/'' \<notin> set b" "before_last CHR ''/'' s = a"
    using split_last_delim[OF assms(2)] .
  have "split_name CHR ''/'' s = split_name CHR ''/'' a @ [b]" unfolding s(1) split_name_app split_name_none[OF s(2)] ..
  then have p: "IsQualifierNameValid (hd (split_name CHR ''/'' a))" "length (split_name CHR ''/'' a) \<le> 1"
    using assms(1) by (simp_all add: IsQualifierNameValidBeforeTag_def Let_def)
  then have "CHR ''/'' \<notin> set a" using length_split_name[of "CHR ''/''" a] by linarith
  then show ?thesis using p(1) s by (auto simp: split_name_none)
qed

lemma qualifier_validI:
  assumes "length s \<le> 31" "IsQualifierNameValid s"
  shows "asset_name_type s = Some QUALIFIER"
proof -
  obtain t where t: "s = CHR ''#'' # t" "match_class name_char 3 t"
    using assms(2) by (auto simp: IsQualifierNameValid_def QUALIFIER_NAME_CHARACTERS_def match_after_def split: list.splits)
  have "\<not> before_tag_char CHR ''#''" by (simp add: before_tag_char_def)
  then have n: "\<not> UNIQUE_INDICATOR s" "\<not> MSG_CHANNEL_INDICATOR s" "\<not> OWNER_INDICATOR s" "\<not> VOTE_INDICATOR s" "QUALIFIER_INDICATOR s"
    using t by (simp_all add: UNIQUE_INDICATOR_def MSG_CHANNEL_INDICATOR_def OWNER_INDICATOR_def VOTE_INDICATOR_def
        tag_indicator_def QUALIFIER_INDICATOR_def match_after_def)
  have "CHR ''/'' \<notin> set s" using t by (auto simp: match_class_def list_all_iff)
  then have "split_name CHR ''/'' s = [s]" by (rule split_name_none)
  then have "\<not> IsAssetNameASubQualifier s" "IsTypeCheckNameValid QUALIFIER s = None"
    using assms by (simp_all add: IsAssetNameASubQualifier_def IsQualifierNameValidBeforeTag_def Let_def)
  with n assms(1) show ?thesis by (simp add: asset_name_type_iff IsAssetNameValid_def typed_name_ok)
qed
lemma owner_indicator_iff: "OWNER_INDICATOR s \<longleftrightarrow> (\<exists>a. s = a @ ''!'' \<and> a \<noteq> [] \<and> list_all before_tag_char a)"
proof
  assume "OWNER_INDICATOR s"
  then have "takeWhile before_tag_char s \<noteq> []" "s = takeWhile before_tag_char s @ ''!''"
    unfolding OWNER_INDICATOR_def by (metis takeWhile_dropWhile_id)+
  then show "\<exists>a. s = a @ ''!'' \<and> a \<noteq> [] \<and> list_all before_tag_char a"
    by (intro exI[of _ "takeWhile before_tag_char s"]) (auto simp: list_all_iff dest: set_takeWhileD)
next
  assume "\<exists>a. s = a @ ''!'' \<and> a \<noteq> [] \<and> list_all before_tag_char a"
  then obtain a where a: "s = a @ ''!''" "a \<noteq> []" "\<forall>c\<in>set a. before_tag_char c" by (auto simp: list_all_iff)
  have "\<not> before_tag_char CHR ''!''" by (simp add: before_tag_char_def)
  then show "OWNER_INDICATOR s" using a by (simp add: OWNER_INDICATOR_def takeWhile_append dropWhile_append)
qed

lemma owner_valid_iff: "asset_name_type s = Some OWNER \<longleftrightarrow> OWNER_INDICATOR s \<and> length s \<le> 31 \<and> IsNameValidBeforeTag (butlast s)"
proof
  assume "asset_name_type s = Some OWNER"
  then show "OWNER_INDICATOR s \<and> length s \<le> 31 \<and> IsNameValidBeforeTag (butlast s)"
    by (cases rule: asset_name_cases) (auto split: if_splits)
next
  assume s: "OWNER_INDICATOR s \<and> length s \<le> 31 \<and> IsNameValidBeforeTag (butlast s)"
  then have "dropWhile before_tag_char s = ''!''" by (simp add: OWNER_INDICATOR_def)
  then have "\<not> UNIQUE_INDICATOR s" "\<not> MSG_CHANNEL_INDICATOR s"
    by (simp_all add: UNIQUE_INDICATOR_def MSG_CHANNEL_INDICATOR_def tag_indicator_def match_after_def)
  with s show "asset_name_type s = Some OWNER"
    by (simp add: asset_name_type_iff IsAssetNameValid_def typed_name_ok)
qed

lemma owner_of_name: "length s \<le> 30 \<Longrightarrow> IsNameValidBeforeTag s \<Longrightarrow> asset_name_type (s @ OWNER_TAG) = Some OWNER"
  using before_tag_parts(2,3)[of s] by (auto simp: owner_valid_iff owner_indicator_iff)

lemma sub_qualifier_valid:
  assumes "asset_name_type s = Some SUB_QUALIFIER"
  shows "length s \<le> 31 \<and> IsQualifierNameValidBeforeTag s \<and> CHR ''/'' \<in> set s"
  using assms by (cases rule: asset_name_cases)
    (auto simp: IsAssetNameASubQualifier_def Let_def length_split_name[symmetric] split: if_splits)

lemma qualifier_length: "IsQualifierNameValidBeforeTag s \<Longrightarrow> 3 \<le> length s"
  using length_takeWhile_le[of "\<lambda>c. c \<noteq> CHR ''/''" s]
  by (auto simp: IsQualifierNameValidBeforeTag_def IsQualifierNameValid_def QUALIFIER_NAME_CHARACTERS_def match_after_def
      match_class_def hd_split_name Let_def split: list.splits)

lemma before_tag_length: "IsNameValidBeforeTag (hd (split_name d s)) \<Longrightarrow> 3 \<le> length s"
  using before_tag_parts(2)[of "hd (split_name d s)"] length_takeWhile_le[of "\<lambda>c. c \<noteq> d" s] by (simp add: hd_split_name)

lemma sub_qualifier_is_sub:
  assumes "SUB_QUALIFIER_INDICATOR s" "IsQualifierNameValidBeforeTag s"
  shows "IsAssetNameASubQualifier s"
proof -
  obtain t r where t: "s = CHR ''#'' # t" "dropWhile name_char t = CHR ''/'' # r"
    using assms(1) by (auto simp: SUB_QUALIFIER_INDICATOR_def match_after_def split: list.splits)
  then have "CHR ''/'' \<in> set s" using set_dropWhileD[of "CHR ''/''" name_char t] by simp
  then show ?thesis
    using assms(2) length_split_name[of "CHR ''/''" s] by (auto simp: IsAssetNameASubQualifier_def IsQualifierNameValidBeforeTag_def Let_def)
qed

text \<open>C32. A valid name has one of the nine types that names can have, never the types of reissues, of null data or the invalid
  type, and between three and thirty-one characters. A name and the name of its owner token are valid together: the name
  of the token, the asset name with \<open>!\<close> after it, is a valid owner name exactly if the asset name is a valid root or sub
  asset name.\<close>

theorem asset_name_types:
  "(asset_name_type s = Some t \<longrightarrow> t \<in> {ROOT, SUB, UNIQUE, MSGCHANNEL, OWNER, VOTE, QUALIFIER, SUB_QUALIFIER, RESTRICTED}
      \<and> 3 \<le> length s \<and> length s \<le> 31)
    \<and> (asset_name_type (s @ OWNER_TAG) = Some OWNER \<longleftrightarrow> asset_name_type s = Some ROOT \<or> asset_name_type s = Some SUB)"
proof (intro conjI impI)
  assume "asset_name_type s = Some t"
  then show "t \<in> {ROOT, SUB, UNIQUE, MSGCHANNEL, OWNER, VOTE, QUALIFIER, SUB_QUALIFIER, RESTRICTED}"
    by (cases rule: asset_name_cases) (use sub_qualifier_is_sub[of s] in \<open>simp_all split: if_splits\<close>)
next
  assume "asset_name_type s = Some t"
  then show "3 \<le> length s"
    by (cases rule: asset_name_cases)
      (use before_tag_length[of _ s] qualifier_length[of s] before_tag_parts(2)[of s] before_tag_parts(2)[of "butlast s"]
        type_check_plain[of t s]
        in \<open>auto simp: IsRestrictedNameValid_def RESTRICTED_NAME_CHARACTERS_def match_after_def match_class_def split: if_splits list.splits\<close>)
next
  assume "asset_name_type s = Some t"
  then show "length s \<le> 31"
    by (cases rule: asset_name_cases) (use type_check_plain[of t s] in \<open>auto split: if_splits\<close>)
next
  show "asset_name_type (s @ OWNER_TAG) = Some OWNER \<longleftrightarrow> asset_name_type s = Some ROOT \<or> asset_name_type s = Some SUB"
    using owner_of_name[of s] name_valid_iff[of s] by (auto simp: owner_valid_iff)
qed

theorem asset_name_types_witness:
  "asset_name_type ''ABC/DEF'' = Some SUB \<and> asset_name_type (''ABC/DEF'' @ OWNER_TAG) = Some OWNER \<and> SUB \<noteq> INVALID"
proof -
  have "asset_name_type ''ABC/DEF'' = Some SUB" by code_simp
  then show ?thesis using asset_name_types[of "''ABC/DEF''" SUB] by simp
qed

text \<open>C29. The parent of a valid sub asset, unique asset or message channel is a proper prefix of the name that ends before a
  delimiter, it is a valid root or sub asset name, and so its owner token has a valid name. The parent of a valid
  sub-qualifier is a valid qualifier.\<close>

theorem GetParentName_valid:
  assumes "asset_name_type s = Some t" "t \<in> {SUB, UNIQUE, MSGCHANNEL, SUB_QUALIFIER}"
  shows "(\<exists>d b. s = GetParentName s @ d # b)
    \<and> (if t = SUB_QUALIFIER then asset_name_type (GetParentName s) = Some QUALIFIER
       else (asset_name_type (GetParentName s) = Some ROOT \<or> asset_name_type (GetParentName s) = Some SUB)
         \<and> asset_name_type (GetParentName s @ OWNER_TAG) = Some OWNER)"
proof -
  consider "t = SUB" | "t = UNIQUE" | "t = MSGCHANNEL" | "t = SUB_QUALIFIER" using assms(2) by blast
  then show ?thesis
  proof cases
    case 1
    then have s: "length s \<le> 30" "IsNameValidBeforeTag s" "CHR ''/'' \<in> set s" using assms(1) SUB_iff by auto
    with 1 assms(1) parent_of_sub[OF s(2,3)] show ?thesis
      by (auto simp: GetParentName_def name_valid_iff owner_of_name dest: arg_cong[where f = length])
  next
    case 2
    with assms(1) have "tag_indicator CHR ''#'' s" "length s \<le> 31" "IsNameValidBeforeTag (hd (split_name CHR ''#'' s))"
      by (auto elim!: asset_name_cases simp: UNIQUE_INDICATOR_def split: if_splits)
    from parent_of_tagged[OF this(1) _ this(2,3)] 2 assms(1) show ?thesis
      by (auto simp: GetParentName_def name_valid_iff owner_of_name)
  next
    case 3
    with assms(1) have "tag_indicator CHR ''~'' s" "length s \<le> 31" "IsNameValidBeforeTag (hd (split_name CHR ''~'' s))"
      by (auto elim!: asset_name_cases simp: MSG_CHANNEL_INDICATOR_def split: if_splits)
    from parent_of_tagged[OF this(1) _ this(2,3)] 3 assms(1) show ?thesis
      by (auto simp: GetParentName_def name_valid_iff owner_of_name)
  next
    case 4
    then have s: "length s \<le> 31" "IsQualifierNameValidBeforeTag s" "CHR ''/'' \<in> set s" using assms(1) sub_qualifier_valid by auto
    with 4 assms(1) parent_of_sub_qualifier[OF s(2,3)] show ?thesis
      by (auto simp: GetParentName_def intro!: qualifier_validI dest: arg_cong[where f = length])
  qed
qed

theorem GetParentName_valid_witness:
  "asset_name_type (GetParentName ''ABC/DEF#tag'' @ OWNER_TAG) = Some OWNER"
proof -
  have "asset_name_type ''ABC/DEF#tag'' = Some UNIQUE" by code_simp
  then show ?thesis using GetParentName_valid[of "''ABC/DEF#tag''" UNIQUE] by simp
qed

text \<open>A vote name may have several \<open>^\<close>, and only the text after the last one is checked. So a name with spaces and lower
  case in its middle is a valid vote name, and what the code takes for its parent is no valid name.\<close>

lemma vote_name_unchecked:
  "asset_name_type ''ABC^a b^X'' = Some VOTE \<and> asset_name_type (GetParentName ''ABC^a b^X'') = None"
  by code_simp

text \<open>A restricted name or a sub-qualifier may begin with punctuation, unlike a qualifier.\<close>

lemma leading_punctuation_accepted:
  "asset_name_type ''$.ABC'' = Some RESTRICTED" "asset_name_type ''#ABC/#.D'' = Some SUB_QUALIFIER" "asset_name_type ''#.ABC'' = None"
  by code_simp+

end
