(* ===== verification/Base58.thy ===== *)
theory Base58
  imports Bool_Expr
begin

text \<open>
  Base 58 and addresses: \<^verbatim>\<open>src/src/base58.cpp\<close>. The arrays \<open>b58\<close> and \<open>b256\<close> are worked on from their end, so they are
  lists with the least significant digit first here. An outer \<open>None\<close> is a failed assertion; the lemmas show that there is
  none. The double SHA-256 of the checksum is an argument.
\<close>

subsection \<open>Conversion of the base\<close>

text \<open>The inner loop of both directions: multiply by \<open>f\<close>, add \<open>carry\<close>, in base \<open>b\<close>. It returns the array, the carry that
  is left and the number of digits visited.\<close>

fun carry_loop :: "nat \<Rightarrow> nat \<Rightarrow> nat \<Rightarrow> nat \<Rightarrow> nat \<Rightarrow> nat list \<Rightarrow> nat list \<times> nat \<times> nat" where
  "carry_loop f b len carry i [] = ([], carry, i)"
| "carry_loop f b len carry i (d # ds) =
     (if carry \<noteq> 0 \<or> i < len then
        let c = carry + f * d; (ds', carry', i') = carry_loop f b len (c div b) (i + 1) ds in (c mod b # ds', carry', i')
      else (d # ds, carry, i))"

fun convert_loop :: "nat \<Rightarrow> nat \<Rightarrow> nat list \<Rightarrow> nat list \<Rightarrow> nat \<Rightarrow> (nat list \<times> nat) option" where
  "convert_loop f b [] arr len = Some (arr, len)"
| "convert_loop f b (c # cs) arr len =
     (case carry_loop f b len c 0 arr of
        (arr', carry, i) \<Rightarrow> if carry \<noteq> 0 then None else convert_loop f b cs arr' i)"

text \<open>The digits from the front, without leading zeroes.\<close>

definition significant :: "nat list \<times> nat \<Rightarrow> nat list" where
  "significant r = (case r of (arr, len) \<Rightarrow> dropWhile (\<lambda>d. d = 0) (rev (take len arr)))"

definition pszBase58 :: string where
  "pszBase58 = ''123456789ABCDEFGHJKLMNPQRSTUVWXYZabcdefghijkmnopqrstuvwxyz''"

definition base58_digit :: "char \<Rightarrow> nat option" where
  "base58_digit c = (let k = length (takeWhile (\<lambda>d. d \<noteq> c) pszBase58) in if k < 58 then Some k else None)"

definition EncodeBase58 :: "bytes \<Rightarrow> string option" where
  "EncodeBase58 vch =
     (let zeroes = length (takeWhile (\<lambda>x. x = 0) vch);
          rest = dropWhile (\<lambda>x. x = 0) vch;
          size = length rest * 138 div 100 + 1
      in case convert_loop 256 58 (map unat rest) (replicate size 0) 0 of
           None \<Rightarrow> None
         | Some r \<Rightarrow> Some (replicate zeroes CHR ''1'' @ map ((!) pszBase58) (significant r)))"

text \<open>The digits up to the first space; an invalid character ends the function with false.\<close>

definition base58_digits :: "string \<Rightarrow> nat list option" where
  "base58_digits s = (if list_all (\<lambda>c. base58_digit c \<noteq> None) s then Some (map (the \<circ> base58_digit) s) else None)"

definition DecodeBase58 :: "string \<Rightarrow> bytes option option" where
  "DecodeBase58 str =
     (let s = dropWhile isspace (takeWhile (\<lambda>c. c \<noteq> CHR 0x00) str);
          zeroes = length (takeWhile (\<lambda>c. c = CHR ''1'') s);
          rest = dropWhile (\<lambda>c. c = CHR ''1'') s;
          size = length rest * 733 div 1000 + 1
      in case base58_digits (takeWhile (\<lambda>c. \<not> isspace c) rest) of
           None \<Rightarrow> Some None
         | Some ds \<Rightarrow>
             (case convert_loop 58 256 ds (replicate size 0) 0 of
                None \<Rightarrow> None
              | Some r \<Rightarrow>
                  if dropWhile isspace (dropWhile (\<lambda>c. \<not> isspace c) rest) \<noteq> [] then Some None
                  else Some (Some (replicate zeroes 0 @ map of_nat (significant r)))))"

definition EncodeBase58Check :: "(bytes \<Rightarrow> uint256) \<Rightarrow> bytes \<Rightarrow> string option" where
  "EncodeBase58Check Hash vchIn = EncodeBase58 (vchIn @ take 4 (Hash vchIn))"

definition DecodeBase58Check :: "(bytes \<Rightarrow> uint256) \<Rightarrow> string \<Rightarrow> bytes option option" where
  "DecodeBase58Check Hash str =
     (case DecodeBase58 str of
        None \<Rightarrow> None
      | Some None \<Rightarrow> Some None
      | Some (Some vch) \<Rightarrow>
          if length vch < 4 then Some None
          else let data = take (length vch - 4) vch in
            if take 4 (Hash data) \<noteq> drop (length vch - 4) vch then Some None else Some (Some data))"

subsection \<open>Addresses\<close>

datatype CTxDestination = CNoDestination | CKeyID bytes | CScriptID bytes

record CBase58Data =
  vchVersion :: bytes
  vchData :: bytes

record base58_prefixes =
  PUBKEY_ADDRESS :: bytes
  SCRIPT_ADDRESS :: bytes

definition CBase58Data_SetString :: "(bytes \<Rightarrow> uint256) \<Rightarrow> string \<Rightarrow> nat \<Rightarrow> CBase58Data option" where
  "CBase58Data_SetString Hash str nVersionBytes =
     (case DecodeBase58Check Hash str of
        None \<Rightarrow> None
      | Some vchTemp \<Rightarrow>
          (case vchTemp of
             None \<Rightarrow> Some \<lparr>vchVersion = [], vchData = []\<rparr>
           | Some v \<Rightarrow>
               if length v < nVersionBytes then Some \<lparr>vchVersion = [], vchData = []\<rparr>
               else Some \<lparr>vchVersion = take nVersionBytes v, vchData = drop nVersionBytes v\<rparr>))"

definition CBase58Data_ToString :: "(bytes \<Rightarrow> uint256) \<Rightarrow> CBase58Data \<Rightarrow> string option" where
  "CBase58Data_ToString Hash d = EncodeBase58Check Hash (vchVersion d @ vchData d)"

definition CHookersAndBlowAddress :: "base58_prefixes \<Rightarrow> CTxDestination \<Rightarrow> CBase58Data" where
  "CHookersAndBlowAddress params dest =
     (case dest of
        CKeyID h \<Rightarrow> \<lparr>vchVersion = PUBKEY_ADDRESS params, vchData = take 20 h\<rparr>
      | CScriptID h \<Rightarrow> \<lparr>vchVersion = SCRIPT_ADDRESS params, vchData = take 20 h\<rparr>
      | CNoDestination \<Rightarrow> \<lparr>vchVersion = [], vchData = []\<rparr>)"

definition address_IsValid :: "base58_prefixes \<Rightarrow> CBase58Data \<Rightarrow> bool" where
  "address_IsValid params d =
     (length (vchData d) = 20 \<and> (vchVersion d = PUBKEY_ADDRESS params \<or> vchVersion d = SCRIPT_ADDRESS params))"

definition address_Get :: "base58_prefixes \<Rightarrow> CBase58Data \<Rightarrow> CTxDestination" where
  "address_Get params d =
     (if \<not> address_IsValid params d then CNoDestination
      else if vchVersion d = PUBKEY_ADDRESS params then CKeyID (vchData d)
      else if vchVersion d = SCRIPT_ADDRESS params then CScriptID (vchData d)
      else CNoDestination)"

definition EncodeDestination :: "(bytes \<Rightarrow> uint256) \<Rightarrow> base58_prefixes \<Rightarrow> CTxDestination \<Rightarrow> string option" where
  "EncodeDestination Hash params dest =
     (let addr = CHookersAndBlowAddress params dest in
      if \<not> address_IsValid params addr then Some [] else CBase58Data_ToString Hash addr)"

definition DecodeDestination :: "(bytes \<Rightarrow> uint256) \<Rightarrow> base58_prefixes \<Rightarrow> string \<Rightarrow> CTxDestination option" where
  "DecodeDestination Hash params str = map_option (address_Get params) (CBase58Data_SetString Hash str 1)"

subsection \<open>The conversion computes the number\<close>

fun lval :: "nat \<Rightarrow> nat list \<Rightarrow> nat" where
  "lval b [] = 0"
| "lval b (d # ds) = d + b * lval b ds"

lemma lval_zeros [simp]: "list_all (\<lambda>d. d = 0) ds \<Longrightarrow> lval b ds = 0"
  by (induction ds) auto

lemma lval_append: "lval b (ds @ es) = lval b ds + b ^ length ds * lval b es"
  by (induction ds) (simp_all add: algebra_simps)

lemma lval_less: "list_all (\<lambda>d. d < b) ds \<Longrightarrow> lval b ds < b ^ length ds"
proof (induction ds)
  case (Cons d ds)
  then have le: "lval b ds + 1 \<le> b ^ length ds" and "d < b" by simp_all
  then have "d + b * lval b ds < b * (lval b ds + 1)" by simp
  also have "\<dots> \<le> b * b ^ length ds" using le by (rule mult_le_mono2)
  finally show ?case by simp
qed simp

text \<open>What one pass of the loop does, when the digits from position \<open>len\<close> on are zero; \<open>i\<close> counts from the digit at the
  head of the list.\<close>

lemma carry_loop_val:
  assumes "carry_loop f b len carry i ds = (ds', carry', i')" "0 < b" "list_all (\<lambda>d. d < b) ds"
    "list_all (\<lambda>d. d = 0) (drop (len - i) ds)"
  shows "lval b ds' + b ^ length ds * carry' = f * lval b ds + carry \<and> length ds' = length ds \<and> list_all (\<lambda>d. d < b) ds'
    \<and> i \<le> i' \<and> list_all (\<lambda>d. d = 0) (drop (i' - i) ds')"
  using assms
proof (induction ds arbitrary: carry i ds' carry' i')
  case (Cons d ds)
  show ?case
  proof (cases "carry \<noteq> 0 \<or> i < len")
    case True
    define c where "c = carry + f * d"
    obtain es c' j where r: "carry_loop f b len (c div b) (i + 1) ds = (es, c', j)" by (cases rule: prod_cases3)
    have ds': "ds' = c mod b # es" "carry' = c'" "i' = j" using Cons.prems(1) True r by (auto simp: Let_def c_def)
    have "len - i = 0 \<or> len - i = Suc (len - (i + 1))" by auto
    then have "list_all (\<lambda>d. d = 0) (drop (len - (i + 1)) ds)"
      using Cons.prems(4) by (auto simp: list_all_iff dest: in_set_dropD)
    then have IH: "lval b es + b ^ length ds * c' = f * lval b ds + c div b" "length es = length ds" "list_all (\<lambda>d. d < b) es"
        "i + 1 \<le> j" "list_all (\<lambda>d. d = 0) (drop (j - (i + 1)) es)"
      using Cons.IH[OF r Cons.prems(2)] Cons.prems(3) by simp_all
    have "c mod b + b * (lval b es + b ^ length ds * c') = b * (f * lval b ds) + c"
      unfolding IH(1) by (simp add: algebra_simps)
    then have "lval b ds' + b ^ length (d # ds) * carry' = f * lval b (d # ds) + carry"
      unfolding ds' c_def by (simp add: algebra_simps)
    moreover have "j - i = Suc (j - (i + 1))" using IH(4) by simp
    ultimately show ?thesis using IH(2-5) Cons.prems(2) unfolding ds' by simp
  next
    case False
    then have "list_all (\<lambda>d. d = 0) (d # ds)" "ds' = d # ds" "carry' = 0" "i' = i" using Cons.prems(1,4) by auto
    with Cons.prems(2) False show ?thesis by (auto simp: list_all_iff)
  qed
qed auto

lemma convert_loop_val:
  assumes "0 < b" "0 < f" "list_all (\<lambda>d. d < b) arr" "list_all (\<lambda>d. d = 0) (drop len arr)"
    "lval b arr * f ^ length cs + lval f (rev cs) < b ^ length arr"
  shows "\<exists>arr' len'. convert_loop f b cs arr len = Some (arr', len') \<and> length arr' = length arr \<and> list_all (\<lambda>d. d < b) arr'
    \<and> list_all (\<lambda>d. d = 0) (drop len' arr') \<and> lval b arr' = lval b arr * f ^ length cs + lval f (rev cs)"
  using assms(3-)
proof (induction cs arbitrary: arr len)
  case (Cons c cs)
  obtain a1 c1 i1 where r: "carry_loop f b len c 0 arr = (a1, c1, i1)" by (cases rule: prod_cases3)
  from carry_loop_val[OF r assms(1)] Cons.prems have a1: "lval b a1 + b ^ length arr * c1 = f * lval b arr + c" "length a1 = length arr"
      "list_all (\<lambda>d. d < b) a1" "list_all (\<lambda>d. d = 0) (drop i1 a1)"
    by simp_all
  have tot: "(f * lval b arr + c) * f ^ length cs + lval f (rev cs) = lval b arr * f ^ length (c # cs) + lval f (rev (c # cs))"
    by (simp add: lval_append algebra_simps)
  have "f * lval b arr + c \<le> (f * lval b arr + c) * f ^ length cs" using assms(2) by simp
  also have "\<dots> < b ^ length arr" using Cons.prems(3) tot by linarith
  finally have "b ^ length arr * c1 < b ^ length arr" using a1(1) by linarith
  then have "c1 = 0" using assms(1) by (cases c1) auto
  with a1 have v: "lval b a1 = f * lval b arr + c" by simp
  have "lval b a1 * f ^ length cs + lval f (rev cs) < b ^ length a1" unfolding v tot a1(2) by (rule Cons.prems(3))
  from Cons.IH[OF a1(3,4) this] show ?case using r \<open>c1 = 0\<close> a1(2) unfolding v tot by auto
qed auto

subsection \<open>Digits of a number\<close>

definition bval :: "nat \<Rightarrow> nat list \<Rightarrow> nat" where
  "bval b ds = lval b (rev ds)"

lemma bval_Cons: "bval b (d # ds) = d * b ^ length ds + bval b ds"
  by (simp add: bval_def lval_append)

lemma bval_less: "list_all (\<lambda>d. d < b) ds \<Longrightarrow> bval b ds < b ^ length ds"
  using lval_less[of b "rev ds"] by (simp add: bval_def)

lemma bval_dropWhile: "bval b (dropWhile (\<lambda>d. d = 0) ds) = bval b ds"
  by (induction ds) (auto simp: bval_Cons)

text \<open>Digits without a leading zero are determined by the number.\<close>

lemma bval_length_le:
  assumes "list_all (\<lambda>d. d < b) ds" "list_all (\<lambda>d. d < b) es" "bval b ds = bval b es" "ds \<noteq> [] \<longrightarrow> hd ds \<noteq> 0"
  shows "length ds \<le> length es"
proof (cases ds)
  case (Cons d ds')
  show ?thesis
  proof (rule ccontr)
    assume "\<not> length ds \<le> length es"
    then have "length es \<le> length ds'" using Cons by simp
    have "1 < b \<or> b = 1" using assms(1) Cons by auto
    then have "b ^ length es \<le> b ^ length ds'" using \<open>length es \<le> length ds'\<close> by (intro power_increasing) auto
    also have "\<dots> \<le> d * b ^ length ds'" using assms(4) Cons by simp
    also have "\<dots> \<le> bval b ds" unfolding Cons bval_Cons by simp
    finally show False using bval_less[OF assms(2)] assms(3) by simp
  qed
qed simp

lemma bval_inj_length:
  "list_all (\<lambda>d. d < b) ds \<Longrightarrow> list_all (\<lambda>d. d < b) es \<Longrightarrow> length ds = length es \<Longrightarrow> bval b ds = bval b es \<Longrightarrow> ds = es"
proof (induction ds es rule: list_induct2')
  case (4 d ds e es)
  have l: "bval b ds < b ^ length ds" "bval b es < b ^ length ds" using 4 bval_less[of b ds] bval_less[of b es] by auto
  have eq: "d * b ^ length ds + bval b ds = e * b ^ length ds + bval b es" using 4 by (simp add: bval_Cons)
  have q: "(x * m + y) div m = x" if "y < m" for x y m :: nat using that by simp
  have "d = e" using q[OF l(1), of d] q[OF l(2), of e] unfolding eq by simp
  with eq 4 show ?case by simp
qed auto

lemma digits_unique:
  assumes "list_all (\<lambda>d. d < b) ds" "list_all (\<lambda>d. d < b) es" "bval b ds = bval b es"
    "ds \<noteq> [] \<longrightarrow> hd ds \<noteq> 0" "es \<noteq> [] \<longrightarrow> hd es \<noteq> 0"
  shows "ds = es"
  using assms bval_length_le[of b ds es] bval_length_le[of b es ds] by (intro bval_inj_length) auto

text \<open>What the significant digits of a conversion are.\<close>

lemma convert_significant:
  assumes "0 < b" "0 < f" "list_all (\<lambda>d. d < f) cs" "f ^ length cs \<le> b ^ n"
  shows "\<exists>r. convert_loop f b cs (replicate n 0) 0 = Some r \<and> list_all (\<lambda>d. d < b) (significant r)
    \<and> bval b (significant r) = bval f cs \<and> (significant r \<noteq> [] \<longrightarrow> hd (significant r) \<noteq> 0)"
proof -
  have z: "lval b (replicate n 0) = 0" by (rule lval_zeros) (simp add: list_all_iff)
  have "lval f (rev cs) < b ^ n" using lval_less[of f "rev cs"] assms(3,4) by simp
  then obtain arr len where r: "convert_loop f b cs (replicate n 0) 0 = Some (arr, len)" "list_all (\<lambda>d. d < b) arr"
      "list_all (\<lambda>d. d = 0) (drop len arr)" "lval b arr = lval f (rev cs)"
    using convert_loop_val[of b f "replicate n 0" 0 cs] assms(1,2) z by (auto simp: list_all_iff)
  define ds where "ds = significant (arr, len)"
  have "bval b ds = lval b (take len arr)" by (simp add: ds_def significant_def bval_dropWhile) (simp add: bval_def)
  also have "\<dots> = lval b arr" using lval_append[of b "take len arr" "drop len arr"] r(3) by simp
  finally have "bval b ds = bval f cs" using r(4) by (simp add: bval_def)
  moreover have "list_all (\<lambda>d. d < b) ds"
    using r(2) by (auto simp: ds_def significant_def list_all_iff dest!: set_dropWhileD in_set_takeD)
  moreover have "ds \<noteq> [] \<longrightarrow> hd ds \<noteq> 0"
    using hd_dropWhile[of "\<lambda>d. d = 0" "rev (take len arr)"] by (auto simp: ds_def significant_def)
  ultimately show ?thesis using r(1) unfolding ds_def by blast
qed

subsection \<open>The arrays are long enough\<close>

lemma power_ratio:
  assumes "x ^ q \<le> y ^ p" "0 < q" "1 \<le> (y :: nat)"
  shows "x ^ n \<le> y ^ (n * p div q + 1)"
proof (rule power_le_imp_le_base)
  have "(x ^ n) ^ q = (x ^ q) ^ n" by (simp flip: power_mult add: mult.commute)
  also have "\<dots> \<le> (y ^ p) ^ n" using assms(1) by (rule power_mono) simp
  also have "\<dots> = y ^ (n * p)" by (simp flip: power_mult add: mult.commute)
  also have "\<dots> \<le> y ^ (q * (n * p div q + 1))"
  proof (rule power_increasing)
    have "n * p = q * (n * p div q) + n * p mod q" by simp
    then show "n * p \<le> q * (n * p div q + 1)" using mod_less_divisor[OF assms(2), of "n * p"] by (simp only: distrib_left mult_1_right)
  qed (rule assms(3))
  also have "\<dots> = (y ^ (n * p div q + 1)) ^ q" by (simp only: mult.commute[of q] power_mult)
  finally show "(x ^ n) ^ Suc (q - 1) \<le> (y ^ (n * p div q + 1)) ^ Suc (q - 1)" using assms(2) by simp
qed simp

lemma encode_fits: "256 ^ n \<le> (58 :: nat) ^ (n * 138 div 100 + 1)"
proof -
  have "256 ^ n \<le> (58 :: nat) ^ (n * 69 div 50 + 1)" by (rule power_ratio) simp_all
  moreover have "n * 69 div 50 = n * 138 div 100" by linarith
  ultimately show ?thesis by simp
qed

lemma decode_fits: "58 ^ n \<le> (256 :: nat) ^ (n * 733 div 1000 + 1)"
proof -
  have "58 ^ n \<le> (256 :: nat) ^ (n * 52 div 71 + 1)" by (rule power_ratio) simp_all
  also have "\<dots> \<le> 256 ^ (n * 733 div 1000 + 1)" by (intro power_increasing) linarith+
  finally show ?thesis .
qed

subsection \<open>Round trips\<close>

lemma distinct_pszBase58: "distinct pszBase58" "length pszBase58 = 58"
  by (code_simp, simp add: pszBase58_def)

lemma base58_digit_nth: "d < 58 \<Longrightarrow> base58_digit (pszBase58 ! d) = Some d"
proof -
  assume d: "d < 58"
  have "takeWhile (\<lambda>c. c \<noteq> pszBase58 ! d) pszBase58 = take d pszBase58"
    using distinct_pszBase58 d by (intro takeWhile_eq_take_P_nth) (auto simp: nth_eq_iff_index_eq)
  then show ?thesis using d distinct_pszBase58(2) by (simp add: base58_digit_def)
qed

lemma base58_chars: "list_all (\<lambda>c. \<not> isspace c \<and> c \<noteq> CHR 0x00) pszBase58"
  by code_simp

lemma base58_char: "d < 58 \<Longrightarrow> \<not> isspace (pszBase58 ! d) \<and> pszBase58 ! d \<noteq> CHR 0x00"
  using base58_chars distinct_pszBase58(2) by (auto simp: list_all_iff)

lemma base58_one: "pszBase58 ! 0 = CHR ''1''" "d < 58 \<Longrightarrow> pszBase58 ! d = CHR ''1'' \<longleftrightarrow> d = 0"
proof -
  show one: "pszBase58 ! 0 = CHR ''1''" by (simp add: pszBase58_def)
  show "pszBase58 ! d = CHR ''1'' \<longleftrightarrow> d = 0" if "d < 58"
    using that distinct_pszBase58 nth_eq_iff_index_eq[of pszBase58 d 0] one by simp
qed

text \<open>The value of an encoding: as many ones as the bytes have leading zeroes, and the digits of their number.\<close>

lemma EncodeBase58_digits:
  obtains ds where "EncodeBase58 vch = Some (replicate (length (takeWhile (\<lambda>x. x = 0) vch)) CHR ''1'' @ map ((!) pszBase58) ds)"
    "list_all (\<lambda>d. d < 58) ds" "bval 58 ds = bval 256 (map unat (dropWhile (\<lambda>x. x = 0) vch))" "ds \<noteq> [] \<longrightarrow> hd ds \<noteq> 0"
proof -
  let ?rest = "dropWhile (\<lambda>x. x = 0) vch"
  have "list_all (\<lambda>d. d < 256) (map unat ?rest)"
    using unsigned_less[where ?'b = 8 and ?'a = nat] by (simp add: list_all_iff)
  then obtain r where r: "convert_loop 256 58 (map unat ?rest) (replicate (length ?rest * 138 div 100 + 1) 0) 0 = Some r"
      "list_all (\<lambda>d. d < 58) (significant r)" "bval 58 (significant r) = bval 256 (map unat ?rest)"
      "significant r \<noteq> [] \<longrightarrow> hd (significant r) \<noteq> 0"
    using convert_significant[of 58 256 "map unat ?rest" "length ?rest * 138 div 100 + 1"] encode_fits by (auto simp del: replicate.simps)
  show thesis
    using that[of "significant r"] r by (simp add: EncodeBase58_def Let_def del: replicate_Suc)
qed

lemma base58_digits_map: "list_all (\<lambda>d. d < 58) ds \<Longrightarrow> base58_digits (map ((!) pszBase58) ds) = Some ds"
  by (auto simp: base58_digits_def list_all_iff base58_digit_nth intro!: map_idI)

lemma skip_ones:
  assumes "t = [] \<or> hd t \<noteq> CHR ''1''"
  shows "takeWhile (\<lambda>c. c = CHR ''1'') (replicate z CHR ''1'' @ t) = replicate z CHR ''1''"
    "dropWhile (\<lambda>c. c = CHR ''1'') (replicate z CHR ''1'' @ t) = t"
  using assms by (induction z; cases t; simp)+

lemma no_spaces:
  assumes "list_all (\<lambda>c. \<not> isspace c \<and> c \<noteq> CHR 0x00) t"
  shows "takeWhile (\<lambda>c. \<not> isspace c) t = t" "dropWhile (\<lambda>c. \<not> isspace c) t = []"
    "takeWhile (\<lambda>c. c \<noteq> CHR 0x00) (replicate z CHR ''1'' @ t) = replicate z CHR ''1'' @ t"
    "dropWhile isspace (replicate z CHR ''1'' @ t) = replicate z CHR ''1'' @ t"
proof -
  have sp: "\<not> isspace CHR ''1''" by (simp add: isspace_def)
  have t: "\<forall>c\<in>set t. \<not> isspace c" "\<forall>c\<in>set t. c \<noteq> CHR 0x00" using assms by (simp_all add: list_all_iff)
  show "takeWhile (\<lambda>c. \<not> isspace c) t = t" "dropWhile (\<lambda>c. \<not> isspace c) t = []" using t by simp_all
  show "takeWhile (\<lambda>c. c \<noteq> CHR 0x00) (replicate z CHR ''1'' @ t) = replicate z CHR ''1'' @ t"
    using t by (induction z) simp_all
  show "dropWhile isspace (replicate z CHR ''1'' @ t) = replicate z CHR ''1'' @ t"
    using sp t by (cases z; cases t) simp_all
qed

lemma DecodeBase58_digits:
  assumes "list_all (\<lambda>d. d < 58) ds" "ds \<noteq> [] \<longrightarrow> hd ds \<noteq> 0"
  obtains es where "DecodeBase58 (replicate z CHR ''1'' @ map ((!) pszBase58) ds) = Some (Some (replicate z 0 @ map of_nat es))"
    "list_all (\<lambda>d. d < 256) es" "bval 256 es = bval 58 ds" "es \<noteq> [] \<longrightarrow> hd es \<noteq> 0"
proof -
  define t where "t = map ((!) pszBase58) ds"
  let ?n = "length t * 733 div 1000 + 1"
  have t: "list_all (\<lambda>c. \<not> isspace c \<and> c \<noteq> CHR 0x00) t" using assms(1) base58_char by (auto simp: list_all_iff t_def)
  have hd: "t = [] \<or> hd t \<noteq> CHR ''1''" using assms base58_one(2)[of "hd ds"] by (cases ds) (auto simp: t_def)
  note parts = skip_ones[OF hd] no_spaces[OF t]
  have fits: "58 ^ length ds \<le> (256 :: nat) ^ ?n" using decode_fits[of "length ds"] by (simp add: t_def)
  obtain r where r: "convert_loop 58 256 ds (replicate ?n 0) 0 = Some r" "list_all (\<lambda>d. d < 256) (significant r)"
      "bval 256 (significant r) = bval 58 ds" "significant r \<noteq> [] \<longrightarrow> hd (significant r) \<noteq> 0"
    using convert_significant[OF _ _ assms(1) fits] by auto
  have "DecodeBase58 (replicate z CHR ''1'' @ t) = Some (Some (replicate z 0 @ map of_nat (significant r)))"
    unfolding DecodeBase58_def Let_def parts base58_digits_map[OF assms(1), folded t_def] option.case r(1) by simp
  with r(2-4) that show thesis unfolding t_def by blast
qed

lemma DecodeBase58_EncodeBase58: "\<exists>s. EncodeBase58 vch = Some s \<and> DecodeBase58 s = Some (Some vch)"
proof -
  let ?z = "length (takeWhile (\<lambda>x. x = 0) vch)" and ?rest = "dropWhile (\<lambda>x. x = 0) vch"
  obtain ds where e: "EncodeBase58 vch = Some (replicate ?z CHR ''1'' @ map ((!) pszBase58) ds)" "list_all (\<lambda>d. d < 58) ds"
      "bval 58 ds = bval 256 (map unat ?rest)" "ds \<noteq> [] \<longrightarrow> hd ds \<noteq> 0"
    by (rule EncodeBase58_digits)
  obtain es where d: "DecodeBase58 (replicate ?z CHR ''1'' @ map ((!) pszBase58) ds) = Some (Some (replicate ?z 0 @ map of_nat es))"
      "list_all (\<lambda>d. d < 256) es" "bval 256 es = bval 58 ds" "es \<noteq> [] \<longrightarrow> hd es \<noteq> 0"
    by (rule DecodeBase58_digits[OF e(2,4)])
  have "hd ?rest \<noteq> 0" if "?rest \<noteq> []" using hd_dropWhile[OF that] .
  then have "map unat ?rest \<noteq> [] \<longrightarrow> hd (map unat ?rest) \<noteq> 0" by (auto simp: hd_map unat_eq_zero)
  moreover have "list_all (\<lambda>d. d < 256) (map unat ?rest)"
    using unsigned_less[where ?'b = 8 and ?'a = nat] by (simp add: list_all_iff)
  ultimately have "es = map unat ?rest" using digits_unique[OF d(2), of "map unat ?rest"] d(3,4) e(3) by simp
  then have "map of_nat es = ?rest" by (simp add: comp_def)
  moreover have "replicate ?z 0 = takeWhile (\<lambda>x. x = 0) vch"
    by (rule replicate_length_same[symmetric, THEN sym]) (auto dest: set_takeWhileD)
  ultimately have "replicate ?z 0 @ map of_nat es = vch" using takeWhile_dropWhile_id[of "\<lambda>x. x = 0" vch] by simp
  with e(1) d(1) show ?thesis by simp
qed
lemma Base58Check_roundtrip:
  assumes "\<And>v. length (Hash v) = 32"
  shows "\<exists>s. EncodeBase58Check Hash v = Some s \<and> DecodeBase58Check Hash s = Some (Some v)"
  using DecodeBase58_EncodeBase58[of "v @ take 4 (Hash v)"] assms
  by (auto simp: EncodeBase58Check_def DecodeBase58Check_def Let_def)

lemma EncodeDestination_roundtrip:
  assumes "\<And>v. length (Hash v) = 32" "length (PUBKEY_ADDRESS params) = 1" "length (SCRIPT_ADDRESS params) = 1"
    "PUBKEY_ADDRESS params \<noteq> SCRIPT_ADDRESS params" "dest = CKeyID h \<or> dest = CScriptID h" "length h = 20"
  shows "\<exists>s. EncodeDestination Hash params dest = Some s \<and> DecodeDestination Hash params s = Some dest"
proof -
  obtain pre where pre: "CHookersAndBlowAddress params dest = \<lparr>vchVersion = pre, vchData = h\<rparr>" "length pre = 1"
      "address_IsValid params \<lparr>vchVersion = pre, vchData = h\<rparr>" "address_Get params \<lparr>vchVersion = pre, vchData = h\<rparr> = dest"
    using assms by (auto simp: CHookersAndBlowAddress_def address_IsValid_def address_Get_def)
  obtain s where s: "EncodeBase58Check Hash (pre @ h) = Some s" "DecodeBase58Check Hash s = Some (Some (pre @ h))"
    using Base58Check_roundtrip[of Hash "pre @ h"] assms(1) by blast
  have "CBase58Data_SetString Hash s 1 = Some \<lparr>vchVersion = pre, vchData = h\<rparr>"
    using s(2) pre(2) by (simp add: CBase58Data_SetString_def)
  then show ?thesis
    using s(1) pre by (simp add: EncodeDestination_def DecodeDestination_def CBase58Data_ToString_def)
qed

text \<open>C27. Encoding never fails an assertion, and decoding the text gives the bytes back, with their leading zeroes. With a
  checksum, the address of a key hash or a script hash decodes to the same destination, when the network gives the two
  kinds different one-byte prefixes.\<close>

theorem Base58_roundtrip:
  assumes "\<And>v. length (Hash v) = 32" "length (PUBKEY_ADDRESS params) = 1" "length (SCRIPT_ADDRESS params) = 1"
    "PUBKEY_ADDRESS params \<noteq> SCRIPT_ADDRESS params" "dest = CKeyID h \<or> dest = CScriptID h" "length h = 20"
  shows "(\<exists>s. EncodeBase58 vch = Some s \<and> DecodeBase58 s = Some (Some vch))
    \<and> (\<exists>s. EncodeDestination Hash params dest = Some s \<and> DecodeDestination Hash params s = Some dest)"
  using DecodeBase58_EncodeBase58 EncodeDestination_roundtrip[of Hash params dest h] assms by blast

theorem Base58_roundtrip_witness:
  "\<exists>s. EncodeDestination (\<lambda>v. replicate 32 5) \<lparr>PUBKEY_ADDRESS = [60], SCRIPT_ADDRESS = [122]\<rparr> (CKeyID (replicate 20 7)) = Some s
     \<and> DecodeDestination (\<lambda>v. replicate 32 5) \<lparr>PUBKEY_ADDRESS = [60], SCRIPT_ADDRESS = [122]\<rparr> s = Some (CKeyID (replicate 20 7))"
  by (rule conjunct2[OF Base58_roundtrip[of "\<lambda>v. replicate 32 5" _ _ "replicate 20 7"]]) simp_all

end
