(* ===== verification/Standard.thy ===== *)
theory Standard
  imports Script Base58
begin

text \<open>
  Standard scripts: \<^verbatim>\<open>src/src/script/standard.cpp\<close>. \<open>Solver\<close> classifies a script and takes its keys and hashes out of it;
  the other functions go between destinations and scripts. \<open>Hash160\<close> stands for the hash of a public key.
\<close>

datatype txnouttype = TX_NONSTANDARD | TX_PUBKEY | TX_PUBKEYHASH | TX_SCRIPTHASH | TX_MULTISIG | TX_NULL_DATA
  | TX_WITNESS_V0_SCRIPTHASH | TX_WITNESS_V0_KEYHASH | TX_ASSET asset_type | TX_RESTRICTED_ASSET_DATA

subsection \<open>Templates\<close>

text \<open>The loop of \<open>OP_PUBKEYS\<close>: it collects elements that have the size of a public key.\<close>

function take_pubkeys :: "script \<Rightarrow> opcodetype \<Rightarrow> valtype \<Rightarrow> valtype list \<Rightarrow> script \<times> opcodetype \<times> valtype \<times> valtype list" where
  "take_pubkeys pc1 opcode1 vch1 sols =
     (if 33 \<le> length vch1 \<and> length vch1 \<le> 65 then
        (case GetOp2 pc1 of
           (fRet, pc1', opcode1', vch1') \<Rightarrow>
             if \<not> fRet then (pc1', opcode1', vch1', sols @ [vch1])
             else take_pubkeys pc1' opcode1' vch1' (sols @ [vch1]))
      else (pc1, opcode1, vch1, sols))"
  by pat_completeness auto
termination
  by (relation "measure (\<lambda>(pc1, _). length pc1)") (auto dest: GetOp2_shorter'[OF sym])

declare take_pubkeys.simps [simp del]

lemma take_pubkeys_shorter: "length (fst (take_pubkeys pc o1 v sols)) \<le> length pc"
proof (induction pc o1 v sols rule: take_pubkeys.induct)
  case (1 pc o1 v sols)
  obtain r pc' o' v' where g: "GetOp2 pc = (r, pc', o', v')" by (cases rule: prod_cases4)
  have "length pc' \<le> length pc" using GetOp2_shorter[of pc] g by (cases "pc = []") auto
  then show ?case using 1 g by (fastforce simp: take_pubkeys.simps[of pc] split: if_splits)
qed

text \<open>One operand of a template; \<open>None\<close> is a \<open>break\<close>.\<close>

definition match_operand :: "opcodetype \<Rightarrow> valtype \<Rightarrow> opcodetype \<Rightarrow> valtype \<Rightarrow> valtype list \<Rightarrow> valtype list option" where
  "match_operand opcode1 vch1 opcode2 vch2 sols =
     (if opcode2 = OP_PUBKEY then
        (if length vch1 < 33 \<or> 65 < length vch1 then None else Some (sols @ [vch1]))
      else if opcode2 = OP_PUBKEYHASH then
        (if length vch1 \<noteq> 20 then None else Some (sols @ [vch1]))
      else if opcode2 = OP_SMALLINTEGER then
        (if opcode1 = OP_0 \<or> (OP_1 \<le> opcode1 \<and> opcode1 \<le> OP_16) then Some (sols @ [[word_of_int (DecodeOP_N opcode1)]]) else None)
      else if opcode1 \<noteq> opcode2 \<or> vch1 \<noteq> vch2 then None
      else Some sols)"

function match_template :: "script \<Rightarrow> script \<Rightarrow> valtype list \<Rightarrow> valtype list option" where
  "match_template pc1 pc2 sols =
     (if pc1 = [] \<and> pc2 = [] then Some sols
      else case GetOp2 pc1 of
        (fRet1, pc1', opcode1, vch1) \<Rightarrow>
          if \<not> fRet1 then None
          else case GetOp2 pc2 of
            (fRet2, pc2', opcode2, vch2) \<Rightarrow>
              if \<not> fRet2 then None
              else if opcode2 = OP_PUBKEYS then
                (case take_pubkeys pc1' opcode1 vch1 sols of
                   (pc1'', opcode1', vch1', sols') \<Rightarrow>
                     (case GetOp2 pc2' of
                        (fRet2', pc2'', opcode2', vch2') \<Rightarrow>
                          if \<not> fRet2' then None
                          else (case match_operand opcode1' vch1' opcode2' vch2' sols' of
                                  None \<Rightarrow> None
                                | Some sols'' \<Rightarrow> match_template pc1'' pc2'' sols'')))
              else (case match_operand opcode1 vch1 opcode2 vch2 sols of
                      None \<Rightarrow> None
                    | Some sols' \<Rightarrow> match_template pc1' pc2' sols'))"
  by pat_completeness auto
termination
proof (relation "measure (\<lambda>(pc1, _). length pc1)", goal_cases)
  case (2 pc1 pc2 sols fRet1 a1 pc1' b1 opcode1 vch1 fRet2 a2 pc2' b2 opcode2 vch2 pc1'')
  then have "length pc1'' \<le> length pc1'" using take_pubkeys_shorter[of pc1' opcode1 vch1 sols] by (metis fst_conv)
  moreover have "length pc1' < length pc1" using 2 by (auto dest: GetOp2_shorter'[OF sym])
  ultimately show ?case by simp
qed (auto dest: GetOp2_shorter'[OF sym])

declare match_template.simps [simp del]

definition tmpl_pubkey :: script where
  "tmpl_pubkey = push_opcode (push_opcode [] OP_PUBKEY) OP_CHECKSIG"

definition tmpl_pubkeyhash :: script where
  "tmpl_pubkeyhash = push_opcode (push_opcode (push_opcode (push_opcode (push_opcode [] OP_DUP) OP_HASH160) OP_PUBKEYHASH)
     OP_EQUALVERIFY) OP_CHECKSIG"

definition tmpl_multisig :: script where
  "tmpl_multisig = push_opcode (push_opcode (push_opcode (push_opcode [] OP_SMALLINTEGER) OP_PUBKEYS) OP_SMALLINTEGER) OP_CHECKMULTISIG"

text \<open>The type and the solutions, or \<open>None\<close> when the function returns false.\<close>

definition Solver :: "script \<Rightarrow> (txnouttype \<times> valtype list) option" where
  "Solver s =
     (if IsPayToScriptHash s then Some (TX_SCRIPTHASH, [take 20 (drop 2 s)])
      else case IsAssetScript s of
        Some (nType, _, _) \<Rightarrow> Some (TX_ASSET nType, [take 20 (drop 3 s)])
      | None \<Rightarrow>
        (case IsWitnessProgram s of
           Some (witnessversion, witnessprogram) \<Rightarrow>
             if witnessversion = 0 \<and> length witnessprogram = 20 then Some (TX_WITNESS_V0_KEYHASH, [witnessprogram])
             else if witnessversion = 0 \<and> length witnessprogram = 32 then Some (TX_WITNESS_V0_SCRIPTHASH, [witnessprogram])
             else None
         | None \<Rightarrow>
           if s \<noteq> [] \<and> s ! 0 = of_nat OP_RETURN \<and> IsPushOnly (drop 1 s) then Some (TX_NULL_DATA, [])
           else if s \<noteq> [] \<and> s ! 0 = of_nat OP_HNB_ASSET \<and> IsPushOnly (drop 1 s) then
             Some (TX_RESTRICTED_ASSET_DATA, if 23 \<le> length s \<and> s ! 1 \<noteq> of_nat OP_RESERVED then [take 20 (drop 2 s)] else [])
           else
             (case match_template s tmpl_pubkey [] of
                Some sols \<Rightarrow> Some (TX_PUBKEY, sols)
              | None \<Rightarrow>
                (case match_template s tmpl_pubkeyhash [] of
                   Some sols \<Rightarrow> Some (TX_PUBKEYHASH, sols)
                 | None \<Rightarrow>
                   (case match_template s tmpl_multisig [] of
                      Some sols \<Rightarrow>
                        let m = unat (hd (hd sols)); n = unat (hd (last sols)) in
                        if m < 1 \<or> n < 1 \<or> n < m \<or> length sols - 2 \<noteq> n then None else Some (TX_MULTISIG, sols)
                    | None \<Rightarrow> None)))))"

subsection \<open>Destinations\<close>

definition pubkey_len :: "u8 \<Rightarrow> nat" where
  "pubkey_len chHeader = (if chHeader = 2 \<or> chHeader = 3 then 33 else if chHeader = 4 \<or> chHeader = 6 \<or> chHeader = 7 then 65 else 0)"

definition CPubKey_IsValid :: "valtype \<Rightarrow> bool" where
  "CPubKey_IsValid v = (v \<noteq> [] \<and> pubkey_len (hd v) \<noteq> 0 \<and> pubkey_len (hd v) = length v)"

definition ExtractDestination :: "(bytes \<Rightarrow> bytes) \<Rightarrow> script \<Rightarrow> CTxDestination option" where
  "ExtractDestination Hash160 s =
     (case Solver s of
        None \<Rightarrow> None
      | Some (whichType, vSolutions) \<Rightarrow>
          (case whichType of
             TX_PUBKEY \<Rightarrow> if CPubKey_IsValid (vSolutions ! 0) then Some (CKeyID (Hash160 (vSolutions ! 0))) else None
           | TX_PUBKEYHASH \<Rightarrow> Some (CKeyID (vSolutions ! 0))
           | TX_SCRIPTHASH \<Rightarrow> Some (CScriptID (vSolutions ! 0))
           | TX_ASSET _ \<Rightarrow> Some (CKeyID (vSolutions ! 0))
           | TX_RESTRICTED_ASSET_DATA \<Rightarrow> if vSolutions \<noteq> [] then Some (CKeyID (vSolutions ! 0)) else None
           | _ \<Rightarrow> None))"

definition ExtractDestinations :: "(bytes \<Rightarrow> bytes) \<Rightarrow> script \<Rightarrow> (txnouttype \<times> CTxDestination list \<times> nat) option" where
  "ExtractDestinations Hash160 s =
     (case Solver s of
        None \<Rightarrow> None
      | Some (typeRet, vSolutions) \<Rightarrow>
          if typeRet = TX_NULL_DATA then None
          else if typeRet = TX_MULTISIG then
            let addresses = map (\<lambda>k. CKeyID (Hash160 k)) (filter CPubKey_IsValid (butlast (tl vSolutions))) in
            if addresses = [] then None else Some (typeRet, addresses, unat (hd (hd vSolutions)))
          else map_option (\<lambda>address. (typeRet, [address], 1)) (ExtractDestination Hash160 s))"

definition GetScriptForDestination :: "CTxDestination \<Rightarrow> script" where
  "GetScriptForDestination dest =
     (case dest of
        CNoDestination \<Rightarrow> []
      | CKeyID h \<Rightarrow>
          push_opcode (push_opcode (push_vch (push_opcode (push_opcode [] OP_DUP) OP_HASH160) h) OP_EQUALVERIFY) OP_CHECKSIG
      | CScriptID h \<Rightarrow> push_opcode (push_vch (push_opcode [] OP_HASH160) h) OP_EQUAL)"

definition GetScriptForNullAssetDataDestination :: "CTxDestination \<Rightarrow> script" where
  "GetScriptForNullAssetDataDestination dest =
     (case dest of
        CNoDestination \<Rightarrow> []
      | CKeyID h \<Rightarrow> push_vch (push_opcode [] OP_HNB_ASSET) h
      | CScriptID h \<Rightarrow> push_vch (push_opcode [] OP_HNB_ASSET) h)"

definition GetScriptForRawPubKey :: "bytes \<Rightarrow> script" where
  "GetScriptForRawPubKey pubKey = push_opcode (push_vch [] pubKey) OP_CHECKSIG"

definition GetScriptForMultisig :: "int \<Rightarrow> bytes list \<Rightarrow> script" where
  "GetScriptForMultisig nRequired keys =
     push_opcode (push_opcode (fold (\<lambda>key s. push_vch s key) keys (push_opcode [] (EncodeOP_N nRequired)))
       (EncodeOP_N (int (length keys)))) OP_CHECKMULTISIG"

subsection \<open>Matching\<close>

lemma match_Nil [simp]: "match_template [] [] sols = Some sols"
  by (simp add: match_template.simps)

lemma match_step:
  assumes "GetOp2 pc1 = (True, pc1', o1, v1)" "GetOp2 pc2 = (True, pc2', o2, v2)" "o2 \<noteq> OP_PUBKEYS"
  shows "match_template pc1 pc2 sols = (case match_operand o1 v1 o2 v2 sols of None \<Rightarrow> None | Some s \<Rightarrow> match_template pc1' pc2' s)"
proof -
  have "pc1 \<noteq> []" using assms(1) by auto
  then show ?thesis using assms by (simp add: match_template.simps[of pc1 pc2])
qed

lemma match_keys:
  assumes "GetOp2 pc1 = (True, pc1', o1, v1)" "GetOp2 pc2 = (True, pc2', OP_PUBKEYS, v2)"
    "take_pubkeys pc1' o1 v1 sols = (pc1'', o1', v1', sols')" "GetOp2 pc2' = (True, pc2'', o2', v2')"
  shows "match_template pc1 pc2 sols =
    (case match_operand o1' v1' o2' v2' sols' of None \<Rightarrow> None | Some s \<Rightarrow> match_template pc1'' pc2'' s)"
proof -
  have "pc1 \<noteq> []" using assms(1) by auto
  then show ?thesis using assms by (simp add: match_template.simps[of pc1 pc2])
qed

lemma tmpl_bytes:
  "tmpl_pubkey = [of_nat OP_PUBKEY, of_nat OP_CHECKSIG]"
  "tmpl_pubkeyhash = [of_nat OP_DUP, of_nat OP_HASH160, of_nat OP_PUBKEYHASH, of_nat OP_EQUALVERIFY, of_nat OP_CHECKSIG]"
  "tmpl_multisig = [of_nat OP_SMALLINTEGER, of_nat OP_PUBKEYS, of_nat OP_SMALLINTEGER, of_nat OP_CHECKMULTISIG]"
  by (simp_all add: tmpl_pubkey_def tmpl_pubkeyhash_def tmpl_multisig_def push_opcode_def)

lemma match_opcode:
  assumes "OP_PUSHDATA4 < op" "op < 256" "op \<noteq> OP_HNB_ASSET" "op \<notin> {OP_SMALLINTEGER, OP_PUBKEYS, OP_PUBKEYHASH, OP_PUBKEY}"
  shows "match_template (of_nat op # r1) (of_nat op # r2) sols = match_template r1 r2 sols"
  by (subst match_step[OF GetOp2_opcode[OF assms(1-3)] GetOp2_opcode[OF assms(1-3)]]) (use assms(4) in \<open>simp_all add: match_operand_def\<close>)

text \<open>A push against the place of a key hash or a key.\<close>

lemma match_push:
  assumes "length b < 2 ^ 32" "op = OP_PUBKEYHASH \<or> op = OP_PUBKEY"
  shows "match_template (push_vch [] b @ r1) (of_nat op # r2) sols =
    (if op = OP_PUBKEYHASH \<and> length b = 20 \<or> op = OP_PUBKEY \<and> 33 \<le> length b \<and> length b \<le> 65 then match_template r1 r2 (sols @ [b])
     else None)"
proof -
  have g: "GetOp2 (of_nat op # r2) = (True, r2, op, [])" using assms(2) by (intro GetOp2_opcode) auto
  show ?thesis
    by (subst match_step[OF GetOp2_push_vch[OF assms(1)] g]) (use assms(2) in \<open>auto simp: match_operand_def\<close>)
qed

text \<open>An opcode without data is no key.\<close>

lemma match_pubkey_opcode:
  assumes "OP_PUSHDATA4 < op" "op < 256" "op \<noteq> OP_HNB_ASSET"
  shows "match_template (of_nat op # r1) (of_nat OP_PUBKEY # r2) sols = None"
proof -
  have g: "GetOp2 (of_nat OP_PUBKEY # r2) = (True, r2, OP_PUBKEY, [])" by (rule GetOp2_opcode) simp_all
  show ?thesis by (subst match_step[OF GetOp2_opcode[OF assms] g]) (simp_all add: match_operand_def)
qed

lemma push_20: "length h = 20 \<Longrightarrow> push_vch s h = s @ 20 # h"
  by (simp add: push_vch_def)

lemma keyhash_bytes: "length h = 20 \<Longrightarrow>
    GetScriptForDestination (CKeyID h) = of_nat OP_DUP # of_nat OP_HASH160 # push_vch [] h @ [of_nat OP_EQUALVERIFY, of_nat OP_CHECKSIG]"
  by (simp add: GetScriptForDestination_def push_opcode_def push_20)

lemma scripthash_bytes: "length h = 20 \<Longrightarrow> GetScriptForDestination (CScriptID h) = [169, 20] @ h @ [135]"
  by (simp add: GetScriptForDestination_def push_opcode_def push_20)

lemma match_keyhash:
  assumes "length h = 20"
  shows "match_template (of_nat OP_DUP # of_nat OP_HASH160 # push_vch [] h @ [of_nat OP_EQUALVERIFY, of_nat OP_CHECKSIG]) tmpl_pubkeyhash []
    = Some [h]"
proof -
  have m: "match_template (of_nat OP_DUP # r1) (of_nat OP_DUP # r2) s = match_template r1 r2 s"
      "match_template (of_nat OP_HASH160 # r1) (of_nat OP_HASH160 # r2) s = match_template r1 r2 s"
      "match_template (of_nat OP_EQUALVERIFY # r1) (of_nat OP_EQUALVERIFY # r2) s = match_template r1 r2 s"
      "match_template (of_nat OP_CHECKSIG # r1) (of_nat OP_CHECKSIG # r2) s = match_template r1 r2 s" for r1 r2 s
    by (rule match_opcode; simp)+
  have "length h < 2 ^ 32" using assms by simp
  from match_push[OF this, of OP_PUBKEYHASH] assms
  have p: "match_template (push_vch [] h @ r1) (of_nat OP_PUBKEYHASH # r2) s = match_template r1 r2 (s @ [h])" for r1 r2 s
    by simp
  show ?thesis unfolding tmpl_bytes m p by (simp only: match_Nil append_Nil)
qed

lemma Solver_keyhash:
  assumes h: "length h = 20"
  shows "Solver (GetScriptForDestination (CKeyID h)) = Some (TX_PUBKEYHASH, [h])"
proof -
  define s where "s = GetScriptForDestination (CKeyID h)"
  have "s = of_nat OP_DUP # of_nat OP_HASH160 # push_vch [] h @ [of_nat OP_EQUALVERIFY, of_nat OP_CHECKSIG]"
    using h by (simp add: s_def keyhash_bytes)
  then have k: "match_template s tmpl_pubkeyhash [] = Some [h]" "match_template s tmpl_pubkey [] = None" "s \<noteq> []" "s ! 0 = 118"
    using match_keyhash[OF h] match_pubkey_opcode[of OP_DUP] by (simp_all add: tmpl_bytes)
  have "length s = 25" using h by (simp add: s_def keyhash_bytes push_20)
  then have "\<not> IsPayToScriptHash s" "IsAssetScript s = None" "IsWitnessProgram s = None"
    using k(4) by (simp_all add: IsPayToScriptHash_def IsAssetScript_def IsWitnessProgram_def)
  with k show ?thesis unfolding s_def[symmetric] Solver_def by simp
qed

lemma Solver_scripthash:
  assumes h: "length h = 20"
  shows "Solver (GetScriptForDestination (CScriptID h)) = Some (TX_SCRIPTHASH, [h])"
  using h by (simp add: Solver_def scripthash_bytes IsPayToScriptHash_def nth_append)

lemma ExtractDestination_GetScriptForDestination:
  assumes "dest = CKeyID h \<or> dest = CScriptID h" "length h = 20"
  shows "ExtractDestination Hash160 (GetScriptForDestination dest) = Some dest"
  using assms by (auto simp: ExtractDestination_def Solver_keyhash Solver_scripthash)

text \<open>A multisignature script: the keys between two small integers.\<close>

definition keys_bytes :: "bytes list \<Rightarrow> script" where
  "keys_bytes keys = concat (map (push_vch []) keys)"

lemma push_vch_prefix: "push_vch s b = s @ push_vch [] b"
  by (simp add: push_vch_def)

lemma fold_push_vch: "fold (\<lambda>key s. push_vch s key) keys s = s @ keys_bytes keys"
proof (induction keys arbitrary: s)
  case (Cons k keys)
  show ?case using Cons[of "push_vch s k"] push_vch_prefix[of s k] by (simp add: keys_bytes_def)
qed (simp add: keys_bytes_def)

lemma Solver_pubkey:
  assumes "33 \<le> length k" "length k \<le> 65" "IsAssetScript (GetScriptForRawPubKey k) = None"
  shows "Solver (GetScriptForRawPubKey k) = Some (TX_PUBKEY, [k])"
proof -
  define s where "s = GetScriptForRawPubKey k"
  have s: "s = of_nat (length k) # k @ [of_nat OP_CHECKSIG]" "s = push_vch [] k @ [of_nat OP_CHECKSIG]"
    using assms(1,2) by (simp_all add: s_def GetScriptForRawPubKey_def push_opcode_def push_vch_def)
  have u: "unat (s ! 0) = length k" using assms(2) by (simp add: s(1) unat_of_nat_byte del: of_nat_numeral)
  have "length k < 2 ^ 32" using assms(2) by simp
  from match_push[OF this, of OP_PUBKEY] assms(1,2)
  have p: "match_template (push_vch [] k @ r1) (of_nat OP_PUBKEY # r2) ss = match_template r1 r2 (ss @ [k])" for r1 r2 ss
    by simp
  have m: "match_template (of_nat OP_CHECKSIG # r1) (of_nat OP_CHECKSIG # r2) ss = match_template r1 r2 ss" for r1 r2 ss
    by (rule match_opcode) simp_all
  have "match_template s tmpl_pubkey [] = Some [k]" unfolding s(2) tmpl_bytes p m by simp
  moreover have "\<not> IsPayToScriptHash s" "IsWitnessProgram s = None" "s ! 0 \<noteq> of_nat OP_RETURN" "s ! 0 \<noteq> of_nat OP_HNB_ASSET"
    using u assms(1,2) by (auto simp: IsPayToScriptHash_def IsWitnessProgram_def s(1))
  ultimately show ?thesis using assms(3) unfolding s_def[symmetric] Solver_def by simp
qed

lemma take_pubkeys_all:
  assumes "list_all (\<lambda>k. 33 \<le> length k \<and> length k \<le> 65) (k # keys)" "GetOp2 r = (True, r', o', v')" "length v' < 33"
  shows "take_pubkeys (keys_bytes keys @ r) o1 k sols = (r', o', v', sols @ k # keys)"
  using assms(1)
proof (induction keys arbitrary: o1 k sols)
  case Nil
  then show ?case using assms(2,3) by (simp add: take_pubkeys.simps keys_bytes_def)
next
  case (Cons k' keys)
  have g: "GetOp2 (keys_bytes (k' # keys) @ r) = (True, keys_bytes keys @ r, push_op k', k')"
    using GetOp2_push_vch[of k' "keys_bytes keys @ r"] Cons.prems by (simp add: keys_bytes_def)
  show ?case using Cons.prems Cons.IH[of k' "push_op k'" "sols @ [k]"] by (subst take_pubkeys.simps) (simp add: g)
qed

lemma EncodeOP_N_small: "1 \<le> n \<Longrightarrow> n \<le> 16 \<Longrightarrow> EncodeOP_N n = nat (80 + n) \<and> DecodeOP_N (EncodeOP_N n) = n"
  by (auto simp: EncodeOP_N_def DecodeOP_N_def)

lemma match_small:
  assumes "1 \<le> n" "n \<le> 16"
  shows "GetOp2 (of_nat (EncodeOP_N n) # r) = (True, r, EncodeOP_N n, [])"
    "match_operand (EncodeOP_N n) [] OP_SMALLINTEGER v sols = Some (sols @ [[word_of_int n]])"
proof -
  have e: "EncodeOP_N n = nat (80 + n)" "DecodeOP_N (EncodeOP_N n) = n" using EncodeOP_N_small[OF assms] by auto
  show "GetOp2 (of_nat (EncodeOP_N n) # r) = (True, r, EncodeOP_N n, [])"
    by (rule GetOp2_opcode) (use e assms in auto)
  show "match_operand (EncodeOP_N n) [] OP_SMALLINTEGER v sols = Some (sols @ [[word_of_int n]])"
    using e assms by (auto simp: match_operand_def)
qed

lemma match_multisig:
  assumes "1 \<le> m" "m \<le> int (length keys)" "length keys \<le> 16" "list_all (\<lambda>k. 33 \<le> length k \<and> length k \<le> 65) keys"
  shows "match_template (GetScriptForMultisig m keys) tmpl_multisig []
    = Some ([word_of_int m] # keys @ [[word_of_int (int (length keys))]])"
proof -
  obtain k ks where keys: "keys = k # ks" using assms(1,2) by (cases keys) auto
  let ?n = "int (length keys)"
  have n: "1 \<le> ?n" "?n \<le> 16" "m \<le> 16" using assms by auto
  let ?r = "of_nat (EncodeOP_N ?n) # [of_nat OP_CHECKMULTISIG]"
  have s: "GetScriptForMultisig m keys = of_nat (EncodeOP_N m) # keys_bytes keys @ ?r"
    by (simp add: GetScriptForMultisig_def fold_push_vch push_opcode_def)
  have t1: "GetOp2 (of_nat OP_SMALLINTEGER # r) = (True, r, OP_SMALLINTEGER, [])" for r by (rule GetOp2_opcode) simp_all
  have t2: "GetOp2 (of_nat OP_PUBKEYS # r) = (True, r, OP_PUBKEYS, [])" for r by (rule GetOp2_opcode) simp_all
  have t3: "match_template (of_nat OP_CHECKMULTISIG # r1) (of_nat OP_CHECKMULTISIG # r2) ss = match_template r1 r2 ss" for r1 r2 ss
    by (rule match_opcode) simp_all
  have g: "GetOp2 (keys_bytes keys @ ?r) = (True, keys_bytes ks @ ?r, push_op k, k)"
    using GetOp2_push_vch[of k "keys_bytes ks @ ?r"] assms(4) by (simp add: keys_bytes_def keys)
  have "take_pubkeys (keys_bytes ks @ ?r) (push_op k) k [[word_of_int m]] =
      ([of_nat OP_CHECKMULTISIG], EncodeOP_N ?n, [], [[word_of_int m]] @ k # ks)"
    by (rule take_pubkeys_all) (use assms(4) keys match_small(1)[OF n(1,2)] in auto)
  note keysm = match_keys[OF g t2 this t1]
  have "match_template (GetScriptForMultisig m keys) tmpl_multisig []
      = match_template (keys_bytes keys @ ?r) [of_nat OP_PUBKEYS, of_nat OP_SMALLINTEGER, of_nat OP_CHECKMULTISIG] [[word_of_int m]]"
    unfolding s tmpl_bytes using match_step[OF match_small(1)[OF assms(1) n(3)] t1]
    by (simp add: match_small(2)[OF assms(1) n(3)] del: of_nat_numeral)
  also have "\<dots> = Some ([word_of_int m] # keys @ [[word_of_int ?n]])"
    unfolding keysm match_small(2)[OF n(1,2)] option.case t3 match_Nil by (simp add: keys)
  finally show ?thesis .
qed

lemma Solver_multisig:
  assumes "1 \<le> m" "m \<le> int (length keys)" "length keys \<le> 16" "list_all (\<lambda>k. 33 \<le> length k \<and> length k \<le> 65) keys"
    "IsAssetScript (GetScriptForMultisig m keys) = None"
  shows "Solver (GetScriptForMultisig m keys) = Some (TX_MULTISIG, [word_of_int m] # keys @ [[word_of_int (int (length keys))]])"
proof -
  define s where "s = GetScriptForMultisig m keys"
  obtain k ks where keys: "keys = k # ks" using assms(1,2) by (cases keys) auto
  have m: "1 \<le> m" "m \<le> 16" using assms by auto
  define op where "op = EncodeOP_N m"
  have op: "80 < op" "op \<le> 96" using EncodeOP_N_small[OF m] m by (auto simp: op_def)
  define r where "r = keys_bytes keys @ [of_nat (EncodeOP_N (int (length keys))), of_nat OP_CHECKMULTISIG]"
  have s: "s = of_nat op # r" by (simp add: s_def op_def r_def GetScriptForMultisig_def fold_push_vch push_opcode_def)
  have u: "unat (s ! 0) = op" using op by (simp add: s unat_of_nat_byte)
  have "keys_bytes keys = of_nat (length k) # k @ keys_bytes ks" using assms(4) by (simp add: keys keys_bytes_def push_vch_def)
  then have "unat (s ! 1) = length k" "36 \<le> length s" "length k + 2 < length s"
    using assms(4) by (simp_all add: s r_def keys unat_of_nat_byte)
  then have "\<not> IsPayToScriptHash s" "IsWitnessProgram s = None" by (auto simp: IsPayToScriptHash_def IsWitnessProgram_def)
  moreover have "s ! 0 \<noteq> of_nat OP_RETURN" "s ! 0 \<noteq> of_nat OP_HNB_ASSET" using u op by auto
  moreover have "match_template s tmpl_pubkey [] = None" unfolding tmpl_bytes s by (rule match_pubkey_opcode) (use op in auto)
  moreover have "match_template s tmpl_pubkeyhash [] = None"
  proof -
    have g: "GetOp2 s = (True, r, op, [])" unfolding s by (rule GetOp2_opcode) (use op in auto)
    have t: "GetOp2 (of_nat OP_DUP # r') = (True, r', OP_DUP, [])" for r' by (rule GetOp2_opcode) simp_all
    show ?thesis unfolding tmpl_bytes by (subst match_step[OF g t]) (use op in \<open>simp_all add: match_operand_def\<close>)
  qed
  moreover have "unat (word_of_int m :: u8) = nat m" "unat (word_of_int (int (length keys)) :: u8) = length keys"
    using m assms(3) by (simp_all add: unsigned_of_int unat_of_nat_byte take_bit_int_eq_self)
  moreover have "keys \<noteq> []" "\<not> length keys < nat m" using assms(1,2) by auto
  ultimately show ?thesis
    using match_multisig[OF assms(1-4)] assms(5) m unfolding s_def[symmetric] Solver_def by (simp add: s(1) Let_def)
qed

text \<open>C34. The classifier recognises the scripts that the constructors build and returns what they were built from: the
  destination of an address, the key of a raw public key script, and the threshold, keys and count of a multisignature
  script. For the last two it needs that the bytes of a key do not happen to have the marks of an asset script at the
  fixed positions where the asset test looks.\<close>

theorem Solver_constructed:
  assumes "dest = CKeyID h \<or> dest = CScriptID h" "length h = 20"
    and "33 \<le> length k" "length k \<le> 65" "IsAssetScript (GetScriptForRawPubKey k) = None"
    and "1 \<le> m" "m \<le> int (length keys)" "length keys \<le> 16" "list_all (\<lambda>k. 33 \<le> length k \<and> length k \<le> 65) keys"
    and "IsAssetScript (GetScriptForMultisig m keys) = None"
  shows "ExtractDestination Hash160 (GetScriptForDestination dest) = Some dest
    \<and> Solver (GetScriptForRawPubKey k) = Some (TX_PUBKEY, [k])
    \<and> Solver (GetScriptForMultisig m keys) = Some (TX_MULTISIG, [word_of_int m] # keys @ [[word_of_int (int (length keys))]])"
  using ExtractDestination_GetScriptForDestination[OF assms(1,2)] Solver_pubkey[OF assms(3-5)] Solver_multisig[OF assms(6-10)]
  by blast

theorem Solver_constructed_witness:
  "Solver (GetScriptForMultisig 1 [replicate 33 2, replicate 33 3])
    = Some (TX_MULTISIG, [word_of_int 1] # [replicate 33 2, replicate 33 3] @ [[word_of_int (int (length [replicate 33 (2 :: u8), replicate 33 3]))]])"
proof -
  have "IsAssetScript (GetScriptForRawPubKey (replicate 33 2)) = None"
      "IsAssetScript (GetScriptForMultisig 1 [replicate 33 2, replicate 33 3]) = None"
    by code_simp+
  from Solver_constructed[of "CKeyID (replicate 20 7)" "replicate 20 7", OF _ _ _ _ this(1) _ _ _ _ this(2)] show ?thesis by simp
qed

text \<open>A script without the asset opcode can be taken for an asset transfer: the test looks at bytes, here inside a public key.\<close>

lemma asset_test_inside_push:
  "IsAssetScript (GetScriptForRawPubKey (replicate 24 4 @ [192, 9, 114, 118, 110, 116] @ replicate 35 0)) = Some (TX_TRANSFER_ASSET, False, 31)"
  by code_simp

end
