(* ===== verification/Asset_Script.thy ===== *)
theory Asset_Script
  imports Transaction Asset_Names Standard
begin

text \<open>
  Asset data in scripts: the classes of \<^verbatim>\<open>src/src/assets/assettypes.h\<close> with their serialisation, the \<open>Construct\<close> and
  \<open>FromScript\<close> functions of \<^verbatim>\<open>src/src/assets/assets.cpp\<close>, and \<open>IsUnspendable\<close> with the amount readers of
  \<^verbatim>\<open>src/src/script/script.cpp\<close>. A \<open>std::string\<close> is a list of characters, written as its bytes. Reading an asset ends with
  the trailing \<open>OP_DROP\<close> still in the stream, and the reader of an optional hash looks at how much is left.
\<close>

subsection \<open>Strings and small integers\<close>

definition string_bytes :: "string \<Rightarrow> bytes" where
  "string_bytes s = map (\<lambda>c. of_nat (of_char c)) s"

definition bytes_string :: "bytes \<Rightarrow> string" where
  "bytes_string b = map (\<lambda>x. char_of (unat x)) b"

definition Serialize_string :: "string \<Rightarrow> bytes" where
  "Serialize_string s = WriteCompactSize (length s) @ string_bytes s"

definition Unserialize_string :: "bytes \<Rightarrow> (string \<times> bytes) option" where
  "Unserialize_string s = do { (nSize, s) \<leftarrow> ReadCompactSize s; (b, s) \<leftarrow> stream_read nSize s; Some (bytes_string b, s) }"

definition Serialize_int8 :: "int \<Rightarrow> bytes" where
  "Serialize_int8 a = ser_writedata8 (word_of_int a)"

definition Unserialize_int8 :: "bytes \<Rightarrow> (int \<times> bytes) option" where
  "Unserialize_int8 s = do { (w, s) \<leftarrow> ser_readdata8 s; Some (sint w, s) }"

subsection \<open>Hashes of documents\<close>

abbreviation (input) IPFS_SHA2_256 :: u8 where "IPFS_SHA2_256 \<equiv> 0x12"
abbreviation (input) TXID_NOTIFIER :: u8 where "TXID_NOTIFIER \<equiv> 0x54"

text \<open>Writing and reading an optional hash; the first component is the result of the function.\<close>

definition WriteAssetHash :: "string \<Rightarrow> bool \<times> bytes" where
  "WriteAssetHash strIPFSHash =
     (if length strIPFSHash = 34 then (True, ser_writedata8 IPFS_SHA2_256 @ Serialize_string (drop 2 strIPFSHash))
      else if length strIPFSHash = 32 then (True, ser_writedata8 TXID_NOTIFIER @ Serialize_string strIPFSHash)
      else (False, []))"

definition ReadAssetHash :: "bytes \<Rightarrow> ((bool \<times> string) \<times> bytes) option" where
  "ReadAssetHash s =
     (if 33 \<le> length s then
        do { (sha2_256, s) \<leftarrow> ser_readdata8 s;
             (hash, s) \<leftarrow> Unserialize_string s;
             Some ((True, (if sha2_256 = IPFS_SHA2_256 then [CHR 0x12, CHR 0x20] else []) @ take 32 hash), s) }
      else Some ((False, []), s))"

subsection \<open>Asset classes\<close>

record CNewAsset =
  na_strName :: string
  na_nAmount :: int
  na_units :: int
  na_nReissuable :: int
  na_nHasIPFS :: int
  na_strIPFSHash :: string

definition Serialize_CNewAsset :: "CNewAsset \<Rightarrow> bytes" where
  "Serialize_CNewAsset a =
     Serialize_string (na_strName a) @ Serialize_int64 (na_nAmount a) @ Serialize_int8 (na_units a)
     @ Serialize_int8 (na_nReissuable a) @ Serialize_int8 (na_nHasIPFS a)
     @ (if na_nHasIPFS a = 1 then snd (WriteAssetHash (na_strIPFSHash a)) else [])"

definition Unserialize_CNewAsset :: "bytes \<Rightarrow> (CNewAsset \<times> bytes) option" where
  "Unserialize_CNewAsset s =
     do { (name, s) \<leftarrow> Unserialize_string s; (amount, s) \<leftarrow> Unserialize_int64 s; (units, s) \<leftarrow> Unserialize_int8 s;
          (reissuable, s) \<leftarrow> Unserialize_int8 s; (hasIPFS, s) \<leftarrow> Unserialize_int8 s;
          ((_, hash), s) \<leftarrow> (if hasIPFS = 1 then ReadAssetHash s else Some ((False, []), s));
          Some (\<lparr>na_strName = name, na_nAmount = amount, na_units = units, na_nReissuable = reissuable, na_nHasIPFS = hasIPFS,
                 na_strIPFSHash = hash\<rparr>, s) }"

record CAssetTransfer =
  at_strName :: string
  at_nAmount :: int
  at_message :: string
  at_nExpireTime :: int

definition Serialize_CAssetTransfer :: "CAssetTransfer \<Rightarrow> bytes" where
  "Serialize_CAssetTransfer a =
     (let (validIPFS, b) = WriteAssetHash (at_message a) in
      Serialize_string (at_strName a) @ Serialize_int64 (at_nAmount a) @ b
      @ (if validIPFS \<and> at_nExpireTime a \<noteq> 0 then Serialize_int64 (at_nExpireTime a) else []))"

definition Unserialize_CAssetTransfer :: "bytes \<Rightarrow> (CAssetTransfer \<times> bytes) option" where
  "Unserialize_CAssetTransfer s =
     do { (name, s) \<leftarrow> Unserialize_string s; (amount, s) \<leftarrow> Unserialize_int64 s;
          ((validIPFS, msg), s) \<leftarrow> ReadAssetHash s;
          (expire, s) \<leftarrow> (if validIPFS \<and> 8 \<le> length s then Unserialize_int64 s else Some (0, s));
          Some (\<lparr>at_strName = name, at_nAmount = amount, at_message = msg, at_nExpireTime = expire\<rparr>, s) }"

record CReissueAsset =
  ra_strName :: string
  ra_nAmount :: int
  ra_nUnits :: int
  ra_nReissuable :: int
  ra_strIPFSHash :: string

definition Serialize_CReissueAsset :: "CReissueAsset \<Rightarrow> bytes" where
  "Serialize_CReissueAsset a =
     Serialize_string (ra_strName a) @ Serialize_int64 (ra_nAmount a) @ Serialize_int8 (ra_nUnits a)
     @ Serialize_int8 (ra_nReissuable a) @ snd (WriteAssetHash (ra_strIPFSHash a))"

definition Unserialize_CReissueAsset :: "bytes \<Rightarrow> (CReissueAsset \<times> bytes) option" where
  "Unserialize_CReissueAsset s =
     do { (name, s) \<leftarrow> Unserialize_string s; (amount, s) \<leftarrow> Unserialize_int64 s; (units, s) \<leftarrow> Unserialize_int8 s;
          (reissuable, s) \<leftarrow> Unserialize_int8 s; ((_, hash), s) \<leftarrow> ReadAssetHash s;
          Some (\<lparr>ra_strName = name, ra_nAmount = amount, ra_nUnits = units, ra_nReissuable = reissuable, ra_strIPFSHash = hash\<rparr>, s) }"

record CNullAssetTxData =
  asset_name :: string
  nd_flag :: int

definition Serialize_CNullAssetTxData :: "CNullAssetTxData \<Rightarrow> bytes" where
  "Serialize_CNullAssetTxData a = Serialize_string (asset_name a) @ Serialize_int8 (nd_flag a)"

definition Unserialize_CNullAssetTxData :: "bytes \<Rightarrow> (CNullAssetTxData \<times> bytes) option" where
  "Unserialize_CNullAssetTxData s =
     do { (name, s) \<leftarrow> Unserialize_string s; (fl, s) \<leftarrow> Unserialize_int8 s; Some (\<lparr>asset_name = name, nd_flag = fl\<rparr>, s) }"

subsection \<open>Constructing scripts\<close>

definition asset_suffix :: "u8 \<Rightarrow> bytes \<Rightarrow> script \<Rightarrow> script" where
  "asset_suffix kind payload script =
     push_opcode (push_vch (push_opcode script OP_HNB_ASSET) ([HNB_R, HNB_V, HNB_N, kind] @ payload)) OP_DROP"

definition CNewAsset_ConstructTransaction :: "CNewAsset \<Rightarrow> script \<Rightarrow> script" where
  "CNewAsset_ConstructTransaction a script = asset_suffix HNB_Q (Serialize_CNewAsset a) script"

definition ConstructOwnerTransaction :: "CNewAsset \<Rightarrow> script \<Rightarrow> script" where
  "ConstructOwnerTransaction a script = asset_suffix HNB_O (Serialize_string (na_strName a @ OWNER_TAG)) script"

definition CAssetTransfer_ConstructTransaction :: "CAssetTransfer \<Rightarrow> script \<Rightarrow> script" where
  "CAssetTransfer_ConstructTransaction a script = asset_suffix HNB_T (Serialize_CAssetTransfer a) script"

definition CReissueAsset_ConstructTransaction :: "CReissueAsset \<Rightarrow> script \<Rightarrow> script" where
  "CReissueAsset_ConstructTransaction a script = asset_suffix HNB_R (Serialize_CReissueAsset a) script"

definition CNullAssetTxData_ConstructTransaction :: "CNullAssetTxData \<Rightarrow> script \<Rightarrow> script" where
  "CNullAssetTxData_ConstructTransaction a script = push_vch script (Serialize_CNullAssetTxData a)"

definition ConstructGlobalRestrictionTransaction :: "CNullAssetTxData \<Rightarrow> script \<Rightarrow> script" where
  "ConstructGlobalRestrictionTransaction a script =
     push_vch (push_opcode (push_opcode (push_opcode script OP_HNB_ASSET) OP_RESERVED) OP_RESERVED) (Serialize_CNullAssetTxData a)"

definition CNullAssetTxVerifierString_ConstructTransaction :: "string \<Rightarrow> script \<Rightarrow> script" where
  "CNullAssetTxVerifierString_ConstructTransaction verifier script =
     push_vch (push_opcode (push_opcode script OP_HNB_ASSET) OP_RESERVED) (Serialize_string verifier)"

subsection \<open>Reading scripts\<close>

definition IsScriptNewAsset :: "script \<Rightarrow> nat option" where
  "IsScriptNewAsset s =
     (case IsAssetScript s of Some (nType, fIsOwner, i) \<Rightarrow> if nType = TX_NEW_ASSET \<and> \<not> fIsOwner then Some i else None | None \<Rightarrow> None)"

definition IsScriptOwnerAsset :: "script \<Rightarrow> nat option" where
  "IsScriptOwnerAsset s =
     (case IsAssetScript s of Some (nType, fIsOwner, i) \<Rightarrow> if nType = TX_NEW_ASSET \<and> fIsOwner then Some i else None | None \<Rightarrow> None)"

definition IsScriptReissueAsset :: "script \<Rightarrow> nat option" where
  "IsScriptReissueAsset s =
     (case IsAssetScript s of Some (nType, _, i) \<Rightarrow> if nType = TX_REISSUE_ASSET then Some i else None | None \<Rightarrow> None)"

definition IsScriptTransferAsset :: "script \<Rightarrow> nat option" where
  "IsScriptTransferAsset s =
     (case IsAssetScript s of Some (nType, _, i) \<Rightarrow> if nType = TX_TRANSFER_ASSET then Some i else None | None \<Rightarrow> None)"

text \<open>The address of a script as text; a script without a destination has the empty one.\<close>

record address_env =
  ae_Hash :: "bytes \<Rightarrow> uint256"
  ae_Hash160 :: "bytes \<Rightarrow> bytes"
  ae_prefixes :: base58_prefixes

definition script_address :: "address_env \<Rightarrow> script \<Rightarrow> string" where
  "script_address env s =
     (let destination = (case ExtractDestination (ae_Hash160 env) s of None \<Rightarrow> CNoDestination | Some d \<Rightarrow> d) in
      the (EncodeDestination (ae_Hash env) (ae_prefixes env) destination))"

definition AssetFromScript :: "address_env \<Rightarrow> script \<Rightarrow> (CNewAsset \<times> string) option" where
  "AssetFromScript env s =
     do { i \<leftarrow> IsScriptNewAsset s; (a, _) \<leftarrow> Unserialize_CNewAsset (drop i s); Some (a, script_address env s) }"

definition OwnerAssetFromScript :: "address_env \<Rightarrow> script \<Rightarrow> (string \<times> string) option" where
  "OwnerAssetFromScript env s =
     do { i \<leftarrow> IsScriptOwnerAsset s; (a, _) \<leftarrow> Unserialize_string (drop i s); Some (a, script_address env s) }"

definition ReissueAssetFromScript :: "address_env \<Rightarrow> script \<Rightarrow> (CReissueAsset \<times> string) option" where
  "ReissueAssetFromScript env s =
     do { i \<leftarrow> IsScriptReissueAsset s; (a, _) \<leftarrow> Unserialize_CReissueAsset (drop i s); Some (a, script_address env s) }"

text \<open>Before the activation of large transfer scripts the data was taken from a fixed position.\<close>

definition TransferAssetFromScript :: "address_env \<Rightarrow> bool \<Rightarrow> script \<Rightarrow> (CAssetTransfer \<times> string) option" where
  "TransferAssetFromScript env fTransferScriptsSizeDeployed s =
     do { i \<leftarrow> IsScriptTransferAsset s;
          (a, _) \<leftarrow> Unserialize_CAssetTransfer (drop (if fTransferScriptsSizeDeployed then i else 31) s);
          Some (a, script_address env s) }"

definition new_asset_of_type :: "address_env \<Rightarrow> (AssetType \<Rightarrow> bool) \<Rightarrow> script \<Rightarrow> bool" where
  "new_asset_of_type env P s =
     (case IsAssetScript s of
        None \<Rightarrow> False
      | Some _ \<Rightarrow>
          (case AssetFromScript env s of
             None \<Rightarrow> False
           | Some (asset, _) \<Rightarrow> (case asset_name_type (na_strName asset) of None \<Rightarrow> False | Some t \<Rightarrow> P t)))"

definition IsScriptNewUniqueAsset :: "address_env \<Rightarrow> script \<Rightarrow> bool" where
  "IsScriptNewUniqueAsset env = new_asset_of_type env (\<lambda>t. t = UNIQUE)"

definition IsScriptNewMsgChannelAsset :: "address_env \<Rightarrow> script \<Rightarrow> bool" where
  "IsScriptNewMsgChannelAsset env = new_asset_of_type env (\<lambda>t. t = MSGCHANNEL)"

definition IsScriptNewQualifierAsset :: "address_env \<Rightarrow> script \<Rightarrow> bool" where
  "IsScriptNewQualifierAsset env = new_asset_of_type env (\<lambda>t. t = QUALIFIER \<or> t = SUB_QUALIFIER)"

definition IsScriptNewRestrictedAsset :: "address_env \<Rightarrow> script \<Rightarrow> bool" where
  "IsScriptNewRestrictedAsset env = new_asset_of_type env (\<lambda>t. t = RESTRICTED)"

definition AssetNullDataFromScript :: "address_env \<Rightarrow> script \<Rightarrow> (CNullAssetTxData \<times> string) option" where
  "AssetNullDataFromScript env s =
     (if \<not> IsNullAssetTxDataScript s then None
      else do { (a, _) \<leftarrow> Unserialize_CNullAssetTxData (drop 23 s); Some (a, script_address env s) })"

definition GlobalAssetNullDataFromScript :: "script \<Rightarrow> CNullAssetTxData option" where
  "GlobalAssetNullDataFromScript s =
     (if \<not> IsNullGlobalRestrictionAssetTxDataScript s then None
      else do { (a, _) \<leftarrow> Unserialize_CNullAssetTxData (drop 4 s); Some a })"

definition AssetNullVerifierDataFromScript :: "script \<Rightarrow> string option" where
  "AssetNullVerifierDataFromScript s =
     (if \<not> IsNullAssetVerifierTxDataScript s then None else do { (a, _) \<leftarrow> Unserialize_string (drop 3 s); Some a })"

subsection \<open>Amounts and unspendable outputs\<close>

abbreviation (input) OWNER_ASSET_AMOUNT :: int where "OWNER_ASSET_AMOUNT \<equiv> 1 * COIN"

definition AmountFromNewAssetScript :: "script \<Rightarrow> int option" where
  "AmountFromNewAssetScript s = do { i \<leftarrow> IsScriptNewAsset s; (a, _) \<leftarrow> Unserialize_CNewAsset (drop i s); Some (na_nAmount a) }"

definition AmountFromTransferScript :: "script \<Rightarrow> int option" where
  "AmountFromTransferScript s =
     do { i \<leftarrow> IsScriptTransferAsset s; (a, _) \<leftarrow> Unserialize_CAssetTransfer (drop i s); Some (at_nAmount a) }"

definition AmountFromReissueScript :: "script \<Rightarrow> int option" where
  "AmountFromReissueScript s =
     do { i \<leftarrow> IsScriptReissueAsset s; (a, _) \<leftarrow> Unserialize_CReissueAsset (drop i s); Some (ra_nAmount a) }"

definition GetAssetAmountFromScript :: "script \<Rightarrow> int option" where
  "GetAssetAmountFromScript s =
     (case IsAssetScript s of
        None \<Rightarrow> None
      | Some (nType, fIsOwner, _) \<Rightarrow>
          if nType = TX_NEW_ASSET \<and> \<not> fIsOwner then AmountFromNewAssetScript s
          else if nType = TX_TRANSFER_ASSET then AmountFromTransferScript s
          else if nType = TX_NEW_ASSET \<and> fIsOwner then Some OWNER_ASSET_AMOUNT
          else if nType = TX_REISSUE_ASSET then AmountFromReissueScript s
          else None)"

definition IsUnspendable :: "script \<Rightarrow> bool" where
  "IsUnspendable s =
     (s \<noteq> [] \<and> hd s = of_nat OP_RETURN \<or> s \<noteq> [] \<and> hd s = of_nat OP_HNB_ASSET \<or> MAX_SCRIPT_SIZE < length s
      \<or> GetAssetAmountFromScript s = Some 0)"

subsection \<open>Codecs of the fields\<close>

lemma string_bytes_length [simp]: "length (string_bytes s) = length s" "length (bytes_string b) = length b"
  by (simp_all add: string_bytes_def bytes_string_def)

lemma bytes_string_bytes [simp]: "bytes_string (string_bytes s) = s"
proof -
  have "char_of (unat (of_nat (of_char c) :: u8)) = c" for c
  proof -
    have "of_char c = of_char c mod (256 :: nat)" using of_char_of[of "of_char c :: nat"] by simp
    then have "of_char c < (256 :: nat)" by (metis mod_less_divisor zero_less_numeral)
    then have "unat (of_nat (of_char c) :: u8) = of_char c" by (rule unat_of_nat_byte)
    then show ?thesis by simp
  qed
  then show ?thesis by (simp add: bytes_string_def string_bytes_def comp_def)
qed

lemma string_bytes_string [simp]: "string_bytes (bytes_string b) = b"
proof -
  have "of_nat (of_char (char_of (unat x))) = x" for x :: u8
  proof -
    have "unat x < 256" using unsigned_less[of x] by simp
    then show ?thesis by (simp add: of_char_of)
  qed
  then show ?thesis by (simp add: bytes_string_def string_bytes_def comp_def)
qed

interpretation stringc: codec Serialize_string Unserialize_string "\<lambda>s. length s \<le> MAX_SIZE"
  by unfold_locales (auto simp: Serialize_string_def Unserialize_string_def csize.get_put take_all_read stream_read_iff
      dest!: csize.put_get split: bind_splits)

definition int8 :: "int \<Rightarrow> bool" where
  "int8 a \<longleftrightarrow> -128 \<le> a \<and> a < 128"

lemma sint_word_of_int8: "int8 a \<Longrightarrow> sint (word_of_int a :: u8) = a"
  unfolding int8_def by (simp add: signed_of_int signed_take_bit_int_eq_self)

lemma int8_sint: "int8 (sint (w :: u8))"
  using sint_greater_eq[of w] sint_less[of w] by (simp add: int8_def)

interpretation i8c: codec Serialize_int8 Unserialize_int8 int8
  by unfold_locales (auto simp: Serialize_int8_def Unserialize_int8_def u8c.get_put sint_word_of_int8 int8_sint
      dest!: u8c.put_get split: bind_splits)

text \<open>The hashes that survive: 32 bytes, or 34 bytes with the prefix of an IPFS hash.\<close>

definition valid_hash :: "string \<Rightarrow> bool" where
  "valid_hash h \<longleftrightarrow> length h = 32 \<or> length h = 34 \<and> take 2 h = [CHR 0x12, CHR 0x20]"

lemma length_Serialize_string: "length s < 253 \<Longrightarrow> length (Serialize_string s) = length s + 1"
  by (simp add: Serialize_string_def WriteCompactSize_def ser_writedata8_def)

lemma ReadAssetHash_none: "length rest < 33 \<Longrightarrow> ReadAssetHash rest = Some ((False, []), rest)"
  by (simp add: ReadAssetHash_def)

lemma WriteAssetHash_valid:
  assumes "valid_hash h"
  shows "fst (WriteAssetHash h)" "length (snd (WriteAssetHash h)) = 34"
    "ReadAssetHash (snd (WriteAssetHash h) @ rest) = Some ((True, h), rest)"
proof -
  obtain c g where w: "WriteAssetHash h = (True, ser_writedata8 c @ Serialize_string g)" "length g = 32"
      "(if c = IPFS_SHA2_256 then [CHR 0x12, CHR 0x20] else []) @ g = h"
  proof (cases "length h = 32")
    case True
    then show thesis using that[of TXID_NOTIFIER h] by (simp add: WriteAssetHash_def)
  next
    case False
    then have "length h = 34" "[CHR 0x12, CHR 0x20] @ drop 2 h = h"
      using assms append_take_drop_id[of 2 h] by (auto simp: valid_hash_def)
    then show thesis using that[of IPFS_SHA2_256 "drop 2 h"] by (simp add: WriteAssetHash_def)
  qed
  have len: "length (ser_writedata8 c @ Serialize_string g) = 34"
    using w(2) by (simp add: length_Serialize_string) (simp add: ser_writedata8_def)
  show "fst (WriteAssetHash h)" "length (snd (WriteAssetHash h)) = 34" using w(1) len by simp_all
  have "33 \<le> length (ser_writedata8 c @ Serialize_string g @ rest)" using len by simp
  moreover have "length g \<le> MAX_SIZE" using w(2) by (simp add: MAX_SIZE_def)
  ultimately show "ReadAssetHash (snd (WriteAssetHash h) @ rest) = Some ((True, h), rest)"
    using w by (simp add: ReadAssetHash_def u8c.get_put stringc.get_put)
qed

lemma WriteAssetHash_Nil [simp]: "WriteAssetHash [] = (False, [])"
  by (simp add: WriteAssetHash_def)

subsection \<open>Assets round-trip\<close>

definition valid_name :: "string \<Rightarrow> bool" where
  "valid_name s \<longleftrightarrow> length s \<le> 40"

definition valid_CNewAsset :: "CNewAsset \<Rightarrow> bool" where
  "valid_CNewAsset a \<longleftrightarrow> valid_name (na_strName a) \<and> int64 (na_nAmount a) \<and> int8 (na_units a) \<and> int8 (na_nReissuable a)
     \<and> int8 (na_nHasIPFS a) \<and> (if na_nHasIPFS a = 1 then valid_hash (na_strIPFSHash a) else na_strIPFSHash a = [])"

definition valid_CAssetTransfer :: "CAssetTransfer \<Rightarrow> bool" where
  "valid_CAssetTransfer a \<longleftrightarrow> valid_name (at_strName a) \<and> int64 (at_nAmount a) \<and> int64 (at_nExpireTime a)
     \<and> (valid_hash (at_message a) \<or> at_message a = [] \<and> at_nExpireTime a = 0)"

definition valid_CReissueAsset :: "CReissueAsset \<Rightarrow> bool" where
  "valid_CReissueAsset a \<longleftrightarrow> valid_name (ra_strName a) \<and> int64 (ra_nAmount a) \<and> int8 (ra_nUnits a) \<and> int8 (ra_nReissuable a)
     \<and> (valid_hash (ra_strIPFSHash a) \<or> ra_strIPFSHash a = [])"

lemma valid_name_size: "valid_name s \<Longrightarrow> length s \<le> MAX_SIZE"
  by (simp add: valid_name_def MAX_SIZE_def)

lemma read_CNewAsset: "valid_CNewAsset a \<Longrightarrow> Unserialize_CNewAsset (Serialize_CNewAsset a @ rest) = Some (a, rest)"
  by (auto simp: valid_CNewAsset_def Unserialize_CNewAsset_def Serialize_CNewAsset_def stringc.get_put i64c.get_put i8c.get_put
      valid_name_size WriteAssetHash_valid split: if_splits)

lemma read_CAssetTransfer:
  assumes "valid_CAssetTransfer a" "length rest < 8"
  shows "Unserialize_CAssetTransfer (Serialize_CAssetTransfer a @ rest) = Some (a, rest)"
proof -
  obtain v b where w: "WriteAssetHash (at_message a) = (v, b)" by (cases "WriteAssetHash (at_message a)")
  have len: "length (Serialize_int64 x) = 8" for x by (simp add: Serialize_int64_def ser_writedata64_def)
  have base: "length (at_strName a) \<le> MAX_SIZE" "int64 (at_nAmount a)" "int64 (at_nExpireTime a)"
    using assms(1) by (auto simp: valid_CAssetTransfer_def valid_name_size)
  consider "valid_hash (at_message a)" "at_nExpireTime a = 0" | "valid_hash (at_message a)" "at_nExpireTime a \<noteq> 0"
      | "at_message a = []" "at_nExpireTime a = 0"
    using assms(1) by (auto simp: valid_CAssetTransfer_def)
  then show ?thesis
  proof cases
    case 1
    with WriteAssetHash_valid[OF 1(1)] w base assms(2) show ?thesis
      by (simp add: Unserialize_CAssetTransfer_def Serialize_CAssetTransfer_def stringc.get_put i64c.get_put)
  next
    case 2
    with WriteAssetHash_valid[OF 2(1)] w base len show ?thesis
      by (simp add: Unserialize_CAssetTransfer_def Serialize_CAssetTransfer_def stringc.get_put i64c.get_put)
  next
    case 3
    with base assms(2) show ?thesis
      by (simp add: Unserialize_CAssetTransfer_def Serialize_CAssetTransfer_def stringc.get_put i64c.get_put ReadAssetHash_none)
  qed
qed

lemma read_CReissueAsset: "valid_CReissueAsset a \<Longrightarrow> length rest < 33 \<Longrightarrow>
    Unserialize_CReissueAsset (Serialize_CReissueAsset a @ rest) = Some (a, rest)"
  by (auto simp: valid_CReissueAsset_def Unserialize_CReissueAsset_def Serialize_CReissueAsset_def stringc.get_put i64c.get_put
      i8c.get_put valid_name_size WriteAssetHash_valid ReadAssetHash_none)

lemma asset_lengths:
  "valid_CNewAsset a \<Longrightarrow> 12 \<le> length (Serialize_CNewAsset a) \<and> length (Serialize_CNewAsset a) \<le> 100"
  "valid_CAssetTransfer t \<Longrightarrow> length (Serialize_CAssetTransfer t) \<le> 100"
  "valid_CReissueAsset r \<Longrightarrow> length (Serialize_CReissueAsset r) \<le> 100"
proof -
  have i: "length (Serialize_int64 x) = 8" "length (Serialize_int8 x) = 1" for x
    by (simp_all add: Serialize_int64_def ser_writedata64_def Serialize_int8_def ser_writedata8_def)
  have s: "valid_name n \<Longrightarrow> length (Serialize_string n) \<le> 41 \<and> 1 \<le> length (Serialize_string n)" for n
    using length_Serialize_string[of n] by (simp add: valid_name_def)
  show "valid_CNewAsset a \<Longrightarrow> 12 \<le> length (Serialize_CNewAsset a) \<and> length (Serialize_CNewAsset a) \<le> 100"
    using s[of "na_strName a"] by (auto simp: valid_CNewAsset_def Serialize_CNewAsset_def i WriteAssetHash_valid split: if_splits)
  show "valid_CAssetTransfer t \<Longrightarrow> length (Serialize_CAssetTransfer t) \<le> 100"
    using s[of "at_strName t"] WriteAssetHash_valid(2)[of "at_message t"]
    by (auto simp: valid_CAssetTransfer_def Serialize_CAssetTransfer_def i split: prod.splits)
  show "valid_CReissueAsset r \<Longrightarrow> length (Serialize_CReissueAsset r) \<le> 100"
    using s[of "ra_strName r"] by (auto simp: valid_CReissueAsset_def Serialize_CReissueAsset_def i WriteAssetHash_valid)
qed

subsection \<open>Asset scripts are recognised\<close>

text \<open>The header in front of the payload: one length byte below 76 bytes, two up to 255.\<close>

lemma asset_suffix_bytes:
  assumes "length payload \<le> 251"
  shows "asset_suffix kind payload s = s @ 192 # (if length payload < 72 then [of_nat (4 + length payload)] else [76, of_nat (4 + length payload)])
    @ [HNB_R, HNB_V, HNB_N, kind] @ payload @ [117]"
  using assms by (simp add: asset_suffix_def push_opcode_def push_vch_def)

definition kind_type :: "u8 \<Rightarrow> (asset_type \<times> bool) option" where
  "kind_type kind = (if kind = HNB_T then Some (TX_TRANSFER_ASSET, False) else if kind = HNB_Q then Some (TX_NEW_ASSET, False)
     else if kind = HNB_O then Some (TX_NEW_ASSET, True) else if kind = HNB_R then Some (TX_REISSUE_ASSET, False) else None)"

lemma nth_25: "length s = 25 \<Longrightarrow> (s @ r) ! 25 = r ! 0" "length s = 25 \<Longrightarrow> (s @ r) ! 27 = r ! 2" "length s = 25 \<Longrightarrow> (s @ r) ! 28 = r ! 3"
  "length s = 25 \<Longrightarrow> (s @ r) ! 29 = r ! 4" "length s = 25 \<Longrightarrow> (s @ r) ! 30 = r ! 5" "length s = 25 \<Longrightarrow> (s @ r) ! 31 = r ! 6"
  by (simp_all add: nth_append)

lemma IsAssetScript_suffix:
  assumes "length s = 25" "length payload \<le> 251" "length payload \<noteq> 110" "kind_type kind = Some (t, own)"
    "kind = HNB_Q \<longrightarrow> 8 \<le> length payload"
  shows "\<exists>i. IsAssetScript (asset_suffix kind payload s) = Some (t, own, i) \<and> drop i (asset_suffix kind payload s) = payload @ [117]"
proof (cases "length payload < 72")
  case True
  let ?r = "[192, of_nat (4 + length payload), HNB_R, HNB_V, HNB_N, kind] @ payload @ [117]"
  have e: "asset_suffix kind payload s = s @ ?r" using True assms(2) by (simp add: asset_suffix_bytes)
  have "asset_index (s @ ?r) = Some 30" using nth_25[OF assms(1), of ?r] by (simp add: asset_index_def)
  moreover have "(s @ ?r) ! 25 = of_nat OP_HNB_ASSET" "(s @ ?r) ! 30 = kind" using nth_25[OF assms(1), of ?r] by simp_all
  moreover have "31 < length (s @ ?r)" "kind = HNB_Q \<longrightarrow> 39 < length (s @ ?r)" using assms(1,5) by auto
  moreover have "drop 31 (s @ ?r) = payload @ [117]" using assms(1) by simp
  ultimately have "IsAssetScript (s @ ?r) = Some (t, own, 31)" "drop 31 (s @ ?r) = payload @ [117]"
    using assms(4) by (auto simp: IsAssetScript_def kind_type_def split: if_splits)
  then show ?thesis unfolding e by blast
next
  case False
  let ?r = "[192, 76, of_nat (4 + length payload), HNB_R, HNB_V, HNB_N, kind] @ payload @ [117]"
  have e: "asset_suffix kind payload s = s @ ?r" using False assms(2) by (simp add: asset_suffix_bytes)
  have "unat (of_nat (4 + length payload) :: u8) = 4 + length payload" using assms(2) by (intro unat_of_nat_byte) simp
  then have "(of_nat (4 + length payload) :: u8) \<noteq> 114" using assms(3) by (auto simp del: of_nat_add)
  then have "asset_index (s @ ?r) = Some 31" using nth_25[OF assms(1), of ?r] by (simp add: asset_index_def)
  moreover have "(s @ ?r) ! 25 = of_nat OP_HNB_ASSET" "(s @ ?r) ! 31 = kind" using nth_25[OF assms(1), of ?r] by simp_all
  moreover have "39 < length (s @ ?r)" using assms(1) False by simp
  moreover have "drop 32 (s @ ?r) = payload @ [117]" using assms(1) by simp
  ultimately have "IsAssetScript (s @ ?r) = Some (t, own, 32)" "drop 32 (s @ ?r) = payload @ [117]"
    using assms(4) by (auto simp: IsAssetScript_def kind_type_def split: if_splits)
  then show ?thesis unfolding e by blast
qed
lemma keyhash_script:
  assumes "length h = 20"
  shows "length (GetScriptForDestination (CKeyID h)) = 25" "take 20 (drop 3 (GetScriptForDestination (CKeyID h))) = h"
  using assms by (simp_all add: keyhash_bytes push_20)

lemma script_address_suffix:
  assumes "length h = 20" "IsAssetScript (GetScriptForDestination (CKeyID h) @ r) = Some (t, own, i)"
  shows "script_address env (GetScriptForDestination (CKeyID h) @ r) = the (EncodeDestination (ae_Hash env) (ae_prefixes env) (CKeyID h))"
proof -
  have "31 < length (GetScriptForDestination (CKeyID h) @ r)" using assms(2) by (auto simp: IsAssetScript_def split: if_splits)
  then have "\<not> IsPayToScriptHash (GetScriptForDestination (CKeyID h) @ r)" by (auto simp: IsPayToScriptHash_def)
  then have "Solver (GetScriptForDestination (CKeyID h) @ r) = Some (TX_ASSET t, [h])"
    using assms keyhash_script[OF assms(1)] by (simp add: Solver_def)
  then show ?thesis by (simp add: script_address_def ExtractDestination_def)
qed

lemma asset_suffix_append: "asset_suffix kind payload s = s @ asset_suffix kind payload []"
  using push_vch_prefix[of "s @ [192]"] push_vch_prefix[of "[192]"] by (simp add: asset_suffix_def push_opcode_def)

lemma asset_to_key:
  assumes "length h = 20" "length payload \<le> 100" "kind_type kind = Some (t, own)" "kind = HNB_Q \<longrightarrow> 8 \<le> length payload"
  obtains i where "IsAssetScript (asset_suffix kind payload (GetScriptForDestination (CKeyID h))) = Some (t, own, i)"
    "drop i (asset_suffix kind payload (GetScriptForDestination (CKeyID h))) = payload @ [117]"
    "script_address env (asset_suffix kind payload (GetScriptForDestination (CKeyID h)))
       = the (EncodeDestination (ae_Hash env) (ae_prefixes env) (CKeyID h))"
proof -
  obtain i where i: "IsAssetScript (asset_suffix kind payload (GetScriptForDestination (CKeyID h))) = Some (t, own, i)"
      "drop i (asset_suffix kind payload (GetScriptForDestination (CKeyID h))) = payload @ [117]"
    using IsAssetScript_suffix[OF keyhash_script(1)[OF assms(1)], of payload kind t own] assms(2-4) by auto
  then show thesis using that script_address_suffix[OF assms(1)] asset_suffix_append[of kind payload "GetScriptForDestination (CKeyID h)"] by metis
qed

lemma kind_types: "kind_type HNB_T = Some (TX_TRANSFER_ASSET, False)" "kind_type HNB_Q = Some (TX_NEW_ASSET, False)"
  "kind_type HNB_O = Some (TX_NEW_ASSET, True)" "kind_type HNB_R = Some (TX_REISSUE_ASSET, False)"
  by (simp_all add: kind_type_def)

text \<open>Before the deployment the reader takes the data from byte 31, which is right for a push with one header byte.\<close>

lemma transfer_at_31:
  assumes "length s = 25" "length payload \<le> 100"
  shows "drop 31 (asset_suffix HNB_T payload s) = (if length payload \<le> 71 then payload @ [117] else 116 # payload @ [117])"
  using assms asset_suffix_bytes[of payload HNB_T s] by (auto simp: push_vch_def asset_suffix_def push_opcode_def)

lemma transfer_misread:
  assumes "length payload \<le> 100"
  shows "Unserialize_CAssetTransfer (116 # payload @ [117]) = None"
proof -
  have "ReadCompactSize (116 # payload @ [117]) = Some (116, payload @ [117])"
    by (simp add: ReadCompactSize_def ser_readdata8_def stream_read_def limit_size_def MAX_SIZE_def)
  then show ?thesis using assms by (simp add: Unserialize_CAssetTransfer_def Unserialize_string_def stream_read_def)
qed

lemma transfer_roundtrip:
  assumes "length h = 20" "valid_CAssetTransfer a"
  defines "s \<equiv> CAssetTransfer_ConstructTransaction a (GetScriptForDestination (CKeyID h))"
  shows "TransferAssetFromScript env fDeployed s = (if fDeployed \<or> length (Serialize_CAssetTransfer a) \<le> 71
      then Some (a, the (EncodeDestination (ae_Hash env) (ae_prefixes env) (CKeyID h))) else None)"
    "GetAssetAmountFromScript s = Some (at_nAmount a)"
proof -
  note l = asset_lengths(2)[OF assms(2)]
  obtain i where i: "IsAssetScript s = Some (TX_TRANSFER_ASSET, False, i)" "drop i s = Serialize_CAssetTransfer a @ [117]"
      "script_address env s = the (EncodeDestination (ae_Hash env) (ae_prefixes env) (CKeyID h))"
    using asset_to_key[OF assms(1) l kind_types(1), where env = env]
    unfolding s_def CAssetTransfer_ConstructTransaction_def by auto
  have r: "Unserialize_CAssetTransfer (Serialize_CAssetTransfer a @ [117]) = Some (a, [117])" by (rule read_CAssetTransfer[OF assms(2)]) simp
  have "drop 31 s = (if length (Serialize_CAssetTransfer a) \<le> 71 then Serialize_CAssetTransfer a @ [117] else 116 # Serialize_CAssetTransfer a @ [117])"
    unfolding s_def CAssetTransfer_ConstructTransaction_def by (rule transfer_at_31[OF keyhash_script(1)[OF assms(1)] l])
  then show "TransferAssetFromScript env fDeployed s = (if fDeployed \<or> length (Serialize_CAssetTransfer a) \<le> 71
      then Some (a, the (EncodeDestination (ae_Hash env) (ae_prefixes env) (CKeyID h))) else None)"
    using i r transfer_misread[OF l] by (simp add: TransferAssetFromScript_def IsScriptTransferAsset_def)
  show "GetAssetAmountFromScript s = Some (at_nAmount a)"
    using i r by (simp add: GetAssetAmountFromScript_def AmountFromTransferScript_def IsScriptTransferAsset_def)
qed

lemma new_asset_roundtrip:
  assumes "length h = 20" "valid_CNewAsset a"
  defines "s \<equiv> CNewAsset_ConstructTransaction a (GetScriptForDestination (CKeyID h))"
  shows "AssetFromScript env s = Some (a, the (EncodeDestination (ae_Hash env) (ae_prefixes env) (CKeyID h)))"
    "GetAssetAmountFromScript s = Some (na_nAmount a)"
proof -
  obtain i where i: "IsAssetScript s = Some (TX_NEW_ASSET, False, i)" "drop i s = Serialize_CNewAsset a @ [117]"
      "script_address env s = the (EncodeDestination (ae_Hash env) (ae_prefixes env) (CKeyID h))"
    using asset_to_key[OF assms(1) _ kind_types(2), of "Serialize_CNewAsset a" env] asset_lengths(1)[OF assms(2)]
    unfolding s_def CNewAsset_ConstructTransaction_def by auto
  have r: "Unserialize_CNewAsset (drop i s) = Some (a, [117])" unfolding i(2) by (rule read_CNewAsset[OF assms(2)])
  show "AssetFromScript env s = Some (a, the (EncodeDestination (ae_Hash env) (ae_prefixes env) (CKeyID h)))"
    using i r by (simp add: AssetFromScript_def IsScriptNewAsset_def)
  show "GetAssetAmountFromScript s = Some (na_nAmount a)"
    using i r by (simp add: GetAssetAmountFromScript_def AmountFromNewAssetScript_def IsScriptNewAsset_def)
qed

lemma owner_roundtrip:
  assumes "length h = 20" "length (na_strName a) \<le> 40"
  defines "s \<equiv> ConstructOwnerTransaction a (GetScriptForDestination (CKeyID h))"
  shows "OwnerAssetFromScript env s = Some (na_strName a @ OWNER_TAG, the (EncodeDestination (ae_Hash env) (ae_prefixes env) (CKeyID h)))"
proof -
  have l: "length (Serialize_string (na_strName a @ OWNER_TAG)) \<le> 100" using assms(2) by (simp add: length_Serialize_string)
  obtain i where i: "IsAssetScript s = Some (TX_NEW_ASSET, True, i)" "drop i s = Serialize_string (na_strName a @ OWNER_TAG) @ [117]"
      "script_address env s = the (EncodeDestination (ae_Hash env) (ae_prefixes env) (CKeyID h))"
    using asset_to_key[OF assms(1) l kind_types(3), where env = env] unfolding s_def ConstructOwnerTransaction_def by auto
  have r: "Unserialize_string (drop i s) = Some (na_strName a @ OWNER_TAG, [117])"
    unfolding i(2) by (rule stringc.get_put) (use assms(2) in \<open>simp add: MAX_SIZE_def\<close>)
  show ?thesis using i r by (simp add: OwnerAssetFromScript_def IsScriptOwnerAsset_def)
qed

lemma reissue_roundtrip:
  assumes "length h = 20" "valid_CReissueAsset a"
  defines "s \<equiv> CReissueAsset_ConstructTransaction a (GetScriptForDestination (CKeyID h))"
  shows "ReissueAssetFromScript env s = Some (a, the (EncodeDestination (ae_Hash env) (ae_prefixes env) (CKeyID h)))"
    "GetAssetAmountFromScript s = Some (ra_nAmount a)"
proof -
  obtain i where i: "IsAssetScript s = Some (TX_REISSUE_ASSET, False, i)" "drop i s = Serialize_CReissueAsset a @ [117]"
      "script_address env s = the (EncodeDestination (ae_Hash env) (ae_prefixes env) (CKeyID h))"
    using asset_to_key[OF assms(1) asset_lengths(3)[OF assms(2)] kind_types(4), where env = env]
    unfolding s_def CReissueAsset_ConstructTransaction_def by auto
  have r: "Unserialize_CReissueAsset (drop i s) = Some (a, [117])" unfolding i(2) by (rule read_CReissueAsset[OF assms(2)]) simp
  show "ReissueAssetFromScript env s = Some (a, the (EncodeDestination (ae_Hash env) (ae_prefixes env) (CKeyID h)))"
    using i r by (simp add: ReissueAssetFromScript_def IsScriptReissueAsset_def)
  show "GetAssetAmountFromScript s = Some (ra_nAmount a)"
    using i r by (simp add: GetAssetAmountFromScript_def AmountFromReissueScript_def IsScriptReissueAsset_def)
qed

text \<open>C19. What is issued, transferred or reissued to the address of a key is read back from the script: the asset with all
  its fields, and the address of the key. The readers of amounts agree with it. Issuing, transferring and reissuing take
  names of up to forty characters and hashes in one of their two forms. For transfers this holds in general only once
  the transfer-script-size rule is deployed (\<open>AreTransferScriptsSizeDeployed\<close>). Before, the reader takes the data from a fixed
  position: a transfer of up to 71 bytes is read back and every longer one fails.\<close>

theorem asset_scripts_roundtrip:
  assumes "length h = 20" "valid_CNewAsset a" "valid_CAssetTransfer t" "valid_CReissueAsset r"
    and s: "s = GetScriptForDestination (CKeyID h)" and addr: "addr = the (EncodeDestination (ae_Hash env) (ae_prefixes env) (CKeyID h))"
  shows "AssetFromScript env (CNewAsset_ConstructTransaction a s) = Some (a, addr)
    \<and> OwnerAssetFromScript env (ConstructOwnerTransaction a s) = Some (na_strName a @ OWNER_TAG, addr)
    \<and> TransferAssetFromScript env fTransferScriptsSizeDeployed (CAssetTransfer_ConstructTransaction t s)
        = (if fTransferScriptsSizeDeployed \<or> length (Serialize_CAssetTransfer t) \<le> 71 then Some (t, addr) else None)
    \<and> ReissueAssetFromScript env (CReissueAsset_ConstructTransaction r s) = Some (r, addr)
    \<and> GetAssetAmountFromScript (CNewAsset_ConstructTransaction a s) = Some (na_nAmount a)
    \<and> GetAssetAmountFromScript (CAssetTransfer_ConstructTransaction t s) = Some (at_nAmount t)
    \<and> GetAssetAmountFromScript (CReissueAsset_ConstructTransaction r s) = Some (ra_nAmount r)"
proof -
  have n: "length (na_strName a) \<le> 40" using assms(2) by (simp add: valid_CNewAsset_def valid_name_def)
  note facts = new_asset_roundtrip[OF assms(1,2)] owner_roundtrip[OF assms(1) n] transfer_roundtrip[OF assms(1,3)]
    reissue_roundtrip[OF assms(1,4)]
  from facts show ?thesis unfolding s addr by blast
qed

text \<open>Concrete values: an environment, a transfer with a message that expires, an asset with an IPFS hash and a reissue.\<close>

definition sample_address_env :: address_env where
  "sample_address_env = \<lparr>ae_Hash = \<lambda>_. replicate 32 5, ae_Hash160 = \<lambda>_. replicate 20 6,
     ae_prefixes = \<lparr>PUBKEY_ADDRESS = [60], SCRIPT_ADDRESS = [122]\<rparr>\<rparr>"

definition sample_transfer :: CAssetTransfer where
  "sample_transfer = \<lparr>at_strName = ''ABC'', at_nAmount = 7, at_message = replicate 32 CHR ''x'', at_nExpireTime = 99\<rparr>"

definition sample_asset :: CNewAsset where
  "sample_asset = \<lparr>na_strName = ''ABC'', na_nAmount = 700, na_units = 2, na_nReissuable = 1, na_nHasIPFS = 1,
     na_strIPFSHash = [CHR 0x12, CHR 0x20] @ replicate 32 CHR ''y''\<rparr>"

definition sample_reissue :: CReissueAsset where
  "sample_reissue = \<lparr>ra_strName = ''ABC'', ra_nAmount = 9, ra_nUnits = -1, ra_nReissuable = 0, ra_strIPFSHash = []\<rparr>"

lemma valid_samples: "valid_CNewAsset sample_asset" "valid_CAssetTransfer sample_transfer" "valid_CReissueAsset sample_reissue"
  by (simp_all add: sample_asset_def sample_transfer_def sample_reissue_def valid_CNewAsset_def valid_CAssetTransfer_def
      valid_CReissueAsset_def valid_name_def valid_hash_def int64_def int8_def)

theorem asset_scripts_roundtrip_witness:
  "TransferAssetFromScript sample_address_env True (CAssetTransfer_ConstructTransaction sample_transfer (GetScriptForDestination (CKeyID (replicate 20 1))))
    = Some (sample_transfer, the (EncodeDestination (ae_Hash sample_address_env) (ae_prefixes sample_address_env) (CKeyID (replicate 20 1))))"
  using asset_scripts_roundtrip[of "replicate 20 1" sample_asset sample_transfer sample_reissue _ _ sample_address_env True, OF _ valid_samples refl refl]
  by simp


text \<open>C35. A verifier string of up to 74 characters is read back from its output. A longer one, up to the limit of 80 that
  the check of verifier strings allows, needs a push with two header bytes; the reader skips only one of them, takes the
  length of the push for the length of the string, and returns the string with its own length in front as a character.\<close>

theorem verifier_script_roundtrip:
  assumes "length v \<le> 80"
  shows "AssetNullVerifierDataFromScript (CNullAssetTxVerifierString_ConstructTransaction v [])
    = Some (if length v < 75 then v else char_of (length v) # v)"
proof (cases "length v < 75")
  case True
  have ser: "Serialize_string v = of_nat (length v) # string_bytes v" using True by (simp add: Serialize_string_def WriteCompactSize_def ser_writedata8_def)
  define s where "s = CNullAssetTxVerifierString_ConstructTransaction v []"
  have s: "s = 192 # 80 # of_nat (length v + 1) # Serialize_string v"
    using True by (simp add: s_def CNullAssetTxVerifierString_ConstructTransaction_def push_opcode_def push_vch_def ser)
  have "unat (of_nat (length v + 1) :: u8) = length v + 1" using True by (intro unat_of_nat_byte) simp
  then have "(of_nat (length v + 1) :: u8) \<noteq> 80" using True by (auto simp del: of_nat_add of_nat_Suc)
  then have "IsNullAssetVerifierTxDataScript s" by (simp add: IsNullAssetVerifierTxDataScript_def s ser del: of_nat_add of_nat_Suc)
  moreover have "Unserialize_string (drop 3 s) = Some (v, [])"
    using stringc.get_put[of v "[]"] True by (simp add: s MAX_SIZE_def del: of_nat_add of_nat_Suc)
  ultimately show ?thesis using True unfolding s_def[symmetric] by (simp add: AssetNullVerifierDataFromScript_def)
next
  case False
  have ser: "Serialize_string v = of_nat (length v) # string_bytes v" using assms by (simp add: Serialize_string_def WriteCompactSize_def ser_writedata8_def)
  define s w where "s = CNullAssetTxVerifierString_ConstructTransaction v []" and "w = char_of (length v) # v"
  have w: "Serialize_string w = of_nat (length v + 1) # of_nat (length v) # string_bytes v"
  proof -
    have "(of_nat (of_char (char_of (length v) :: char)) :: u8) = of_nat (length v)" using assms by (simp add: of_char_of)
    then show ?thesis using assms by (simp add: w_def Serialize_string_def WriteCompactSize_def ser_writedata8_def string_bytes_def)
  qed
  have "s = [192, 80, 76] @ Serialize_string w"
    using False assms unfolding w by (simp add: s_def CNullAssetTxVerifierString_ConstructTransaction_def push_opcode_def push_vch_def ser)
  then have "IsNullAssetVerifierTxDataScript s" "drop 3 s = Serialize_string w @ []"
    by (simp_all add: IsNullAssetVerifierTxDataScript_def w)
  moreover have "Unserialize_string (Serialize_string w @ []) = Some (w, [])"
    using assms by (intro stringc.get_put) (simp add: w_def MAX_SIZE_def)
  ultimately show ?thesis using False unfolding s_def[symmetric] w_def[symmetric] by (simp add: AssetNullVerifierDataFromScript_def)
qed

theorem verifier_script_roundtrip_witness:
  "AssetNullVerifierDataFromScript (CNullAssetTxVerifierString_ConstructTransaction (replicate 75 CHR ''A'') []) = Some (CHR ''K'' # replicate 75 CHR ''A'')"
proof -
  have "char_of (75 :: nat) = CHR ''K''" by code_simp
  then show ?thesis using verifier_script_roundtrip[of "replicate 75 CHR ''A''"] by simp
qed

text \<open>A payload of exactly 114 bytes is not recognised: its length is the letter that the test takes for the start of the
  mark. No asset with a name of at most forty characters has one. An asset sent to a script hash is not recognised either.\<close>

lemma asset_suffix_114: "length s = 25 \<Longrightarrow> length payload = 110 \<Longrightarrow> IsAssetScript (asset_suffix kind payload s) = None"
  using nth_25[of s] by (simp add: asset_suffix_bytes IsAssetScript_def asset_index_def)

lemma asset_to_script_hash:
  assumes "length h = 20" "length payload \<le> 71"
  shows "IsAssetScript (asset_suffix kind payload (GetScriptForDestination (CScriptID h))) = None"
  using assms by (simp add: asset_suffix_bytes IsAssetScript_def scripthash_bytes nth_append)

end
