(* ===== verification/Compressor.thy ===== *)
theory Compressor
  imports Transaction
begin

text \<open>
  The compact form of outputs in the coin database: \<^verbatim>\<open>src/src/compressor.h\<close>, \<^verbatim>\<open>src/src/compressor.cpp\<close> and the serialisation
  of \<open>Coin\<close> in \<^verbatim>\<open>src/src/coins.h\<close>. The two operations on public keys that need the elliptic-curve library are arguments:
  whether a key is a point of the curve, and the uncompressed form of a key.
\<close>

subsection \<open>Amounts\<close>

function strip_tens :: "nat \<Rightarrow> nat \<Rightarrow> nat \<times> nat" where
  "strip_tens n e = (if n mod 10 = 0 \<and> e < 9 then strip_tens (n div 10) (e + 1) else (n, e))"
  by pat_completeness auto
termination
  by (relation "measure (\<lambda>(n, e). 9 - e)") auto

declare strip_tens.simps [simp del]

definition CompressAmount :: "nat \<Rightarrow> nat" where
  "CompressAmount n =
     (if n = 0 then 0
      else
        let (n, e) = strip_tens n 0 in
        if e < 9 then let d = n mod 10; n = n div 10 in (1 + (n * 9 + d - 1) * 10 + e) mod 2 ^ 64
        else (1 + (n - 1) * 10 + 9) mod 2 ^ 64)"

definition DecompressAmount :: "nat \<Rightarrow> nat" where
  "DecompressAmount x =
     (if x = 0 then 0
      else
        let x = x - 1; e = x mod 10; x = x div 10;
            n = (if e < 9 then let d = x mod 9 + 1; x = x div 9 in x * 10 + d else x + 1)
        in n * 10 ^ e mod 2 ^ 64)"

subsection \<open>Scripts\<close>

record pubkey_ops =
  IsFullyValid :: "bytes \<Rightarrow> bool"
  DecompressKey :: "bytes \<Rightarrow> bytes option"

abbreviation (input) nSpecialScripts :: nat where "nSpecialScripts \<equiv> 6"

definition IsToKeyID :: "script \<Rightarrow> bytes option" where
  "IsToKeyID s =
     (if length s = 25 \<and> s ! 0 = of_nat OP_DUP \<and> s ! 1 = of_nat OP_HASH160 \<and> s ! 2 = 20 \<and> s ! 23 = of_nat OP_EQUALVERIFY
         \<and> s ! 24 = of_nat OP_CHECKSIG then Some (take 20 (drop 3 s)) else None)"

definition IsToScriptID :: "script \<Rightarrow> bytes option" where
  "IsToScriptID s =
     (if length s = 23 \<and> s ! 0 = of_nat OP_HASH160 \<and> s ! 1 = 20 \<and> s ! 22 = of_nat OP_EQUAL then Some (take 20 (drop 2 s)) else None)"

definition IsToPubKey :: "pubkey_ops \<Rightarrow> script \<Rightarrow> bytes option" where
  "IsToPubKey pk s =
     (if length s = 35 \<and> s ! 0 = 33 \<and> s ! 34 = of_nat OP_CHECKSIG \<and> (s ! 1 = 2 \<or> s ! 1 = 3) then Some (take 33 (drop 1 s))
      else if length s = 67 \<and> s ! 0 = 65 \<and> s ! 66 = of_nat OP_CHECKSIG \<and> s ! 1 = 4 then
        let pubkey = take 65 (drop 1 s) in if IsFullyValid pk pubkey then Some pubkey else None
      else None)"

definition Compress :: "pubkey_ops \<Rightarrow> script \<Rightarrow> bytes option" where
  "Compress pk s =
     (case IsToKeyID s of
        Some keyID \<Rightarrow> Some (0 # keyID)
      | None \<Rightarrow>
        (case IsToScriptID s of
           Some scriptID \<Rightarrow> Some (1 # scriptID)
         | None \<Rightarrow>
           (case IsToPubKey pk s of
              Some pubkey \<Rightarrow>
                if pubkey ! 0 = 2 \<or> pubkey ! 0 = 3 then Some (pubkey ! 0 # take 32 (drop 1 pubkey))
                else if pubkey ! 0 = 4 then Some ((4 OR (pubkey ! 64 AND 1)) # take 32 (drop 1 pubkey))
                else None
            | None \<Rightarrow> None)))"

definition GetSpecialSize :: "nat \<Rightarrow> nat" where
  "GetSpecialSize nSize = (if nSize = 0 \<or> nSize = 1 then 20 else if nSize = 2 \<or> nSize = 3 \<or> nSize = 4 \<or> nSize = 5 then 32 else 0)"

text \<open>The script after the call; a failed decompression leaves it empty.\<close>

definition Decompress :: "pubkey_ops \<Rightarrow> nat \<Rightarrow> bytes \<Rightarrow> script" where
  "Decompress pk nSize inp =
     (if nSize = 0 then [of_nat OP_DUP, of_nat OP_HASH160, 20] @ take 20 inp @ [of_nat OP_EQUALVERIFY, of_nat OP_CHECKSIG]
      else if nSize = 1 then [of_nat OP_HASH160, 20] @ take 20 inp @ [of_nat OP_EQUAL]
      else if nSize = 2 \<or> nSize = 3 then [33, of_nat nSize] @ take 32 inp @ [of_nat OP_CHECKSIG]
      else if nSize = 4 \<or> nSize = 5 then
        (case DecompressKey pk (of_nat (nSize - 2) # take 32 inp) of
           None \<Rightarrow> []
         | Some pubkey \<Rightarrow> [65] @ take 65 pubkey @ [of_nat OP_CHECKSIG])
      else [])"

definition Serialize_script :: "pubkey_ops \<Rightarrow> script \<Rightarrow> bytes" where
  "Serialize_script pk s =
     (case Compress pk s of
        Some compr \<Rightarrow> compr
      | None \<Rightarrow> WriteVarInt (length s + nSpecialScripts) @ s)"

definition Unserialize_script :: "pubkey_ops \<Rightarrow> bytes \<Rightarrow> (script \<times> bytes) option" where
  "Unserialize_script pk s =
     do { (nSize, s) \<leftarrow> ReadVarInt (2 ^ 32 - 1) s;
          if nSize < nSpecialScripts then
            do { (vch, s) \<leftarrow> stream_read (GetSpecialSize nSize) s; Some (Decompress pk nSize vch, s) }
          else if MAX_SCRIPT_SIZE < nSize - nSpecialScripts then
            do { (_, s) \<leftarrow> stream_read (nSize - nSpecialScripts) s; Some ([of_nat OP_RETURN], s) }
          else stream_read (nSize - nSpecialScripts) s }"

subsection \<open>Outputs and coins\<close>

definition Serialize_CTxOutCompressor :: "pubkey_ops \<Rightarrow> CTxOut \<Rightarrow> bytes" where
  "Serialize_CTxOutCompressor pk out =
     WriteVarInt (CompressAmount (nat (nValue out mod 2 ^ 64))) @ Serialize_script pk (scriptPubKey out)"

definition Unserialize_CTxOutCompressor :: "pubkey_ops \<Rightarrow> bytes \<Rightarrow> (CTxOut \<times> bytes) option" where
  "Unserialize_CTxOutCompressor pk s =
     do { (nVal, s) \<leftarrow> ReadVarInt (2 ^ 64 - 1) s; (sc, s) \<leftarrow> Unserialize_script pk s;
          Some (\<lparr>nValue = sint (of_nat (DecompressAmount nVal) :: u64), scriptPubKey = sc\<rparr>, s) }"

record Coin =
  coin_out :: CTxOut
  coin_fCoinBase :: bool
  coin_nHeight :: nat

definition Coin_make :: "CTxOut \<Rightarrow> int \<Rightarrow> bool \<Rightarrow> Coin" where
  "Coin_make outIn nHeightIn fCoinBaseIn = \<lparr>coin_out = outIn, coin_fCoinBase = fCoinBaseIn, coin_nHeight = nat (nHeightIn mod 2 ^ 31)\<rparr>"

definition coinEmpty :: Coin where
  "coinEmpty = \<lparr>coin_out = CTxOut_null, coin_fCoinBase = False, coin_nHeight = 0\<rparr>"

definition IsSpent :: "Coin \<Rightarrow> bool" where
  "IsSpent c = CTxOut_IsNull (coin_out c)"

text \<open>The code asserts that the coin is unspent; \<open>storable_coin\<close> below implies it, and the database writes no other.\<close>

definition Serialize_Coin :: "pubkey_ops \<Rightarrow> Coin \<Rightarrow> bytes" where
  "Serialize_Coin pk c =
     WriteVarInt (coin_nHeight c * 2 + of_bool (coin_fCoinBase c)) @ Serialize_CTxOutCompressor pk (coin_out c)"

definition Unserialize_Coin :: "pubkey_ops \<Rightarrow> bytes \<Rightarrow> (Coin \<times> bytes) option" where
  "Unserialize_Coin pk s =
     do { (code, s) \<leftarrow> ReadVarInt (2 ^ 32 - 1) s; (out, s) \<leftarrow> Unserialize_CTxOutCompressor pk s;
          Some (\<lparr>coin_out = out, coin_fCoinBase = odd code, coin_nHeight = code div 2\<rparr>, s) }"

subsection \<open>Amounts round-trip below the bound of the format\<close>

lemma strip_tens_props:
  "strip_tens n e = (m, e') \<Longrightarrow> e \<le> 9 \<Longrightarrow> n = m * 10 ^ (e' - e) \<and> e \<le> e' \<and> e' \<le> 9 \<and> (e' < 9 \<longrightarrow> m mod 10 \<noteq> 0)"
proof (induction n e arbitrary: m e' rule: strip_tens.induct)
  case (1 n e)
  show ?case
  proof (cases "n mod 10 = 0 \<and> e < 9")
    case True
    then have r: "strip_tens (n div 10) (e + 1) = (m, e')" using 1(2) by (simp add: strip_tens.simps[of n e])
    from 1(1)[OF True r] True have IH: "n div 10 = m * 10 ^ (e' - (e + 1))" "e + 1 \<le> e'" "e' \<le> 9" "e' < 9 \<longrightarrow> m mod 10 \<noteq> 0"
      by auto
    have "n = 10 * (n div 10)" using True by auto
    also have "\<dots> = m * 10 ^ Suc (e' - (e + 1))" unfolding IH(1) by simp
    also have "Suc (e' - (e + 1)) = e' - e" using IH(2) by simp
    finally show ?thesis using IH by simp
  next
    case False
    then have "m = n" "e' = e" using 1(2) by (auto simp: strip_tens.simps[of n e] split: if_splits)
    with False 1(3) show ?thesis by auto
  qed
qed

lemma Decompress_digit:
  assumes "1 \<le> d" "d \<le> 9" "e < 9"
  shows "DecompressAmount (1 + (q * 9 + d - 1) * 10 + e) = (q * 10 + d) * 10 ^ e mod 2 ^ 64"
proof -
  define y where "y = q * 9 + (d - 1)"
  have "d - 1 < 9" using assms by simp
  then have y: "y mod 9 = d - 1" "y div 9 = q" unfolding y_def by simp_all
  have x: "1 + (q * 9 + d - 1) * 10 + e - 1 = y * 10 + e" using assms by (simp add: y_def)
  have "(y * 10 + e) mod 10 = e" "(y * 10 + e) div 10 = y" using assms(3) by simp_all
  then show ?thesis using assms y unfolding DecompressAmount_def Let_def x by simp
qed

lemma Decompress_nine: "1 \<le> m \<Longrightarrow> DecompressAmount (1 + (m - 1) * 10 + 9) = m * 10 ^ 9 mod 2 ^ 64"
proof -
  assume "1 \<le> m"
  have "1 + (m - 1) * 10 + 9 - 1 = (m - 1) * 10 + 9" by simp
  then have "(1 + (m - 1) * 10 + 9 - 1) mod 10 = 9" "(1 + (m - 1) * 10 + 9 - 1) div 10 = m - 1" by simp_all
  then show ?thesis using \<open>1 \<le> m\<close> unfolding DecompressAmount_def Let_def by simp
qed

lemma amount_roundtrip:
  assumes "n \<le> 2 ^ 64 div 9"
  shows "DecompressAmount (CompressAmount n) = n \<and> CompressAmount n < 2 ^ 64"
proof (cases "n = 0")
  case False
  obtain m e where r: "strip_tens n 0 = (m, e)" by fastforce
  from strip_tens_props[OF r] have n: "n = m * 10 ^ e" "e \<le> 9" "e < 9 \<longrightarrow> m mod 10 \<noteq> 0" by simp_all
  have m: "1 \<le> m" using False n(1) by (cases m) auto
  have small: "n < 2 ^ 64" "9 * n < 2 ^ 64" using assms by simp_all
  have mn: "m \<le> n" "0 < e \<longrightarrow> 10 * m \<le> n" unfolding n(1) by (cases e, auto)+
  show ?thesis
  proof (cases "e < 9")
    case True
    define q d where "q = m div 10" and "d = m mod 10"
    have d: "1 \<le> d" "d \<le> 9" "m = q * 10 + d" using n(3) True by (auto simp: q_def d_def)
    have "1 + (q * 9 + d - 1) * 10 + e < 2 ^ 64" using d mn small True by (cases "e = 0") auto
    then have c: "CompressAmount n = 1 + (q * 9 + d - 1) * 10 + e" using False True r by (simp add: CompressAmount_def q_def d_def)
    have "DecompressAmount (CompressAmount n) = n mod 2 ^ 64" using Decompress_digit[OF d(1,2) True, of q] n(1) d(3) c by simp
    then show ?thesis using small(1) \<open>1 + (q * 9 + d - 1) * 10 + e < 2 ^ 64\<close> c by simp
  next
    case False
    then have e: "e = 9" using n(2) by simp
    have "1 + (m - 1) * 10 + 9 < 2 ^ 64" using m mn small e by auto
    then have c: "CompressAmount n = 1 + (m - 1) * 10 + 9" using \<open>n \<noteq> 0\<close> False r by (simp add: CompressAmount_def)
    have "DecompressAmount (CompressAmount n) = n mod 2 ^ 64" using Decompress_nine[OF m] n(1) e c by simp
    then show ?thesis using small(1) \<open>1 + (m - 1) * 10 + 9 < 2 ^ 64\<close> c by simp
  qed
qed (simp add: CompressAmount_def DecompressAmount_def)

text \<open>C21. Amounts up to a ninth of \<open>2 ^ 64\<close> survive compression. \<open>MAX_MONEY\<close> is larger: a valid amount just above the bound
  wraps around in the compressed form and comes back as another amount.\<close>

theorem CompressAmount_bound:
  "(n \<le> 2 ^ 64 div 9 \<longrightarrow> DecompressAmount (CompressAmount n) = n)
    \<and> MoneyRange 2050000000000000001
    \<and> DecompressAmount (CompressAmount 2050000000000000001) \<noteq> 2050000000000000001"
proof (intro conjI impI)
  have "strip_tens 2050000000000000001 0 = (2050000000000000001, 0)" by (simp add: strip_tens.simps)
  then have "CompressAmount 2050000000000000001 = 3255926290448385" by (simp add: CompressAmount_def)
  moreover have "DecompressAmount 3255926290448385 \<noteq> 2050000000000000001" by (simp add: DecompressAmount_def)
  ultimately show "DecompressAmount (CompressAmount 2050000000000000001) \<noteq> 2050000000000000001" by simp
qed (use amount_roundtrip in \<open>auto simp: MoneyRange_def MAX_MONEY_def\<close>)

theorem CompressAmount_bound_witness:
  "DecompressAmount (CompressAmount 123456789) = 123456789"
  using CompressAmount_bound[of 123456789] by simp

subsection \<open>Scripts round-trip\<close>

lemma WriteVarInt_small: "n < 128 \<Longrightarrow> WriteVarInt n = [of_nat n]"
  using WriteVarInt_prefix[of n 0] by (simp add: varint_prefix_def)

lemma ReadVarInt_small: "n < 128 \<Longrightarrow> ReadVarInt (2 ^ 32 - 1) (of_nat n # rest) = Some (n, rest)"
  using var32.get_put[of n rest] by (simp add: WriteVarInt_small)

text \<open>What the library promises of a key: the compressed form of a point determines it.\<close>

definition key_decompresses :: "pubkey_ops \<Rightarrow> bytes \<Rightarrow> bool" where
  "key_decompresses pk k \<longleftrightarrow> DecompressKey pk ((2 OR (k ! 64 AND 1)) # take 32 (drop 1 k)) = Some k"

definition script_key_ok :: "pubkey_ops \<Rightarrow> script \<Rightarrow> bool" where
  "script_key_ok pk s \<longleftrightarrow> (case IsToPubKey pk s of None \<Rightarrow> True | Some k \<Rightarrow> length k = 65 \<longrightarrow> key_decompresses pk k)"

lemma take_nths: "k \<le> length s \<Longrightarrow> take k s = map ((!) s) [0..<k]"
  by (rule nth_equalityI) auto

lemma drop_nths: "drop k s = map ((!) s) [k..<length s]"
  by (rule nth_equalityI) auto

text \<open>A list as its first elements, a middle part and its last elements.\<close>

lemma split3: "i + n \<le> length s \<Longrightarrow> s = map ((!) s) [0..<i] @ take n (drop i s) @ map ((!) s) [i + n..<length s]"
proof -
  assume "i + n \<le> length s"
  then have "take i s @ take n (drop i s) @ drop (i + n) s = s" by (metis add.commute append_assoc append_take_drop_id take_add)
  then show ?thesis using take_nths[of i s] drop_nths[of "i + n" s] \<open>i + n \<le> length s\<close> by simp
qed

lemma upt_3 [simp]: "[0..<Suc 0] = [0]" "[0..<2] = [0, 1]" "[0..<3] = [0, 1, 2]"
  by (simp_all add: upt_rec)

lemma unserialize_special:
  assumes "n < 6" "length v = GetSpecialSize n"
  shows "Unserialize_script pk (of_nat n # v @ rest) = Some (Decompress pk n v, rest)"
  using assms ReadVarInt_small[of n "v @ rest"] by (simp add: Unserialize_script_def stream_read_def)

lemma low_bit_cases: "(x AND 1 :: u8) = 0 \<or> (x AND 1 :: u8) = 1"
  by (simp add: and_one_eq mod_2_eq_odd of_bool_def)

lemma IsToKeyID_script: "IsToKeyID s = Some h \<Longrightarrow> s = [118, 169, 20] @ h @ [136, 172] \<and> length h = 20"
proof -
  assume "IsToKeyID s = Some h"
  then have s: "length s = 25" "s ! 0 = 118" "s ! 1 = 169" "s ! 2 = 20" "s ! 23 = 136" "s ! 24 = 172" "h = take 20 (drop 3 s)"
    by (auto simp: IsToKeyID_def split: if_splits)
  have "s = [118, 169, 20] @ take 20 (drop 3 s) @ [136, 172]" by (rule trans[OF split3[of 3 20 s]]) (use s(1-6) in simp_all)
  moreover have "length h = 20" using s(1,7) by simp
  ultimately show ?thesis unfolding s(7) by blast
qed

lemma IsToScriptID_script: "IsToScriptID s = Some h \<Longrightarrow> s = [169, 20] @ h @ [135] \<and> length h = 20"
proof -
  assume "IsToScriptID s = Some h"
  then have s: "length s = 23" "s ! 0 = 169" "s ! 1 = 20" "s ! 22 = 135" "h = take 20 (drop 2 s)"
    by (auto simp: IsToScriptID_def split: if_splits)
  have "s = [169, 20] @ take 20 (drop 2 s) @ [135]" by (rule trans[OF split3[of 2 20 s]]) (use s(1-4) in simp_all)
  moreover have "length h = 20" using s(1,5) by simp
  ultimately show ?thesis unfolding s(5) by blast
qed

lemma IsToPubKey_script:
  assumes "IsToPubKey pk s = Some k"
  obtains "s = [33] @ k @ [172]" "length k = 33" "k ! 0 = 2 \<or> k ! 0 = 3" | "s = [65] @ k @ [172]" "length k = 65" "k ! 0 = 4"
proof -
  consider (short) "length s = 35" "s ! 0 = 33" "s ! 34 = 172" "s ! 1 = 2 \<or> s ! 1 = 3" "k = take 33 (drop 1 s)"
      | (long) "length s = 67" "s ! 0 = 65" "s ! 66 = 172" "s ! 1 = 4" "k = take 65 (drop 1 s)"
    using assms by (auto simp: IsToPubKey_def Let_def split: if_splits)
  then show thesis
  proof cases
    case short
    have "s = [33] @ take 33 (drop 1 s) @ [172]" by (rule trans[OF split3[of 1 33 s]]) (use short(1-3) in simp_all)
    moreover have "k ! 0 = s ! 1" "length k = 33" using short(1,5) by simp_all
    ultimately show thesis using that(1) short(4) unfolding short(5) by metis
  next
    case long
    have "s = [65] @ take 65 (drop 1 s) @ [172]" by (rule trans[OF split3[of 1 65 s]]) (use long(1-3) in simp_all)
    moreover have "k ! 0 = s ! 1" "length k = 65" using long(1,5) by simp_all
    ultimately show thesis using that(2) long(4) unfolding long(5) by metis
  qed
qed

lemma Compress_pubkey:
  assumes "IsToPubKey pk s = Some k" "script_key_ok pk s" "IsToKeyID s = None" "IsToScriptID s = None" "Compress pk s = Some c"
  shows "Unserialize_script pk (c @ rest) = Some (s, rest)"
  using assms(1)
proof (cases rule: IsToPubKey_script)
  case 1
  obtain a r where k: "k = a # r" "length r = 32" using 1(2) by (cases k) auto
  obtain n where n: "n = 2 \<or> n = 3" "a = of_nat n" using 1(3) k(1) by (metis nth_Cons_0 of_nat_numeral)
  have c: "c = of_nat n # r" using assms(1,3-5) 1(3) k n(2) by (auto simp: Compress_def)
  show ?thesis
    using unserialize_special[of n r pk rest] n k 1(1) unfolding c by (auto simp: GetSpecialSize_def Decompress_def)
next
  case 2
  define b r where "b = k ! 64 AND 1" and "r = take 32 (drop 1 k)"
  have b: "b = 0 \<or> b = 1" unfolding b_def by (rule low_bit_cases)
  define n where "n = (if b = 0 then 4 else 5 :: nat)"
  have n: "4 OR b = of_nat n" "(of_nat (n - 2) :: u8) = 2 OR b" "n = 4 \<or> n = 5" using b by (auto simp: n_def)
  have c: "c = of_nat n # r" using assms(1,3-5) 2(3) n(1) by (simp add: Compress_def b_def r_def)
  have "DecompressKey pk ((2 OR b) # r) = Some k"
    using assms(1,2) 2(2) by (simp add: script_key_ok_def key_decompresses_def b_def r_def)
  moreover have "length r = 32" using 2(2) by (simp add: r_def)
  ultimately have "Decompress pk n r = s" using n(2,3) 2(1,2) by (auto simp: Decompress_def)
  then show ?thesis
    using unserialize_special[of n r pk rest] n(3) \<open>length r = 32\<close> unfolding c by (auto simp: GetSpecialSize_def)
qed

lemma Compress_roundtrip:
  assumes "Compress pk s = Some c" "script_key_ok pk s"
  shows "Unserialize_script pk (c @ rest) = Some (s, rest)"
proof -
  consider (key) h where "IsToKeyID s = Some h" | (scr) h where "IsToKeyID s = None" "IsToScriptID s = Some h"
      | (pub) k where "IsToKeyID s = None" "IsToScriptID s = None" "IsToPubKey pk s = Some k"
    using assms(1) by (auto simp: Compress_def split: option.splits)
  then show ?thesis
  proof cases
    case key
    then have "c = of_nat 0 # h" using assms(1) by (simp add: Compress_def)
    then show ?thesis
      using IsToKeyID_script[OF key] unserialize_special[of 0 h pk rest] by (auto simp: GetSpecialSize_def Decompress_def)
  next
    case scr
    then have "c = of_nat 1 # h" using assms(1) by (simp add: Compress_def)
    then show ?thesis
      using IsToScriptID_script[OF scr(2)] unserialize_special[of 1 h pk rest] by (auto simp: GetSpecialSize_def Decompress_def)
  next
    case pub
    then show ?thesis using Compress_pubkey assms by blast
  qed
qed
lemma script_roundtrip:
  assumes "length s \<le> MAX_SCRIPT_SIZE" "script_key_ok pk s"
  shows "Unserialize_script pk (Serialize_script pk s @ rest) = Some (s, rest)"
proof (cases "Compress pk s")
  case None
  have "ReadVarInt (2 ^ 32 - 1) (WriteVarInt (length s + 6) @ s @ rest) = Some (length s + 6, s @ rest)"
    by (rule var32.get_put) (use assms(1) in simp)
  with None assms(1) show ?thesis by (simp add: Unserialize_script_def Serialize_script_def stream_read_def)
next
  case (Some c)
  then show ?thesis using Compress_roundtrip[OF Some assms(2)] by (simp add: Serialize_script_def)
qed

text \<open>A longer script is not kept: it comes back as a script that cannot be spent.\<close>

lemma long_script_replaced:
  assumes "MAX_SCRIPT_SIZE < length s" "length s < 2 ^ 32 - 6"
  shows "Unserialize_script pk (Serialize_script pk s @ rest) = Some ([of_nat OP_RETURN], rest)"
proof -
  have "Compress pk s = None" using assms(1) by (simp add: Compress_def IsToKeyID_def IsToScriptID_def IsToPubKey_def)
  moreover have "ReadVarInt (2 ^ 32 - 1) (WriteVarInt (length s + 6) @ s @ rest) = Some (length s + 6, s @ rest)"
    by (rule var32.get_put) (use assms(2) in simp)
  ultimately show ?thesis using assms(1) by (simp add: Unserialize_script_def Serialize_script_def stream_read_def)
qed

text \<open>The coins that the format can hold.\<close>

definition storable_coin :: "pubkey_ops \<Rightarrow> Coin \<Rightarrow> bool" where
  "storable_coin pk c \<longleftrightarrow> 0 \<le> nValue (coin_out c) \<and> nValue (coin_out c) \<le> 2 ^ 64 div 9
     \<and> length (scriptPubKey (coin_out c)) \<le> MAX_SCRIPT_SIZE \<and> script_key_ok pk (scriptPubKey (coin_out c)) \<and> coin_nHeight c < 2 ^ 31"

lemma sint_of_nat_64: "n < 2 ^ 63 \<Longrightarrow> sint (of_nat n :: u64) = int n"
  using sint_word_of_int64[of "int n"] by (simp add: int64_def)

lemma txout_roundtrip:
  assumes "0 \<le> nValue out" "nValue out \<le> 2 ^ 64 div 9" "length (scriptPubKey out) \<le> MAX_SCRIPT_SIZE" "script_key_ok pk (scriptPubKey out)"
  shows "Unserialize_CTxOutCompressor pk (Serialize_CTxOutCompressor pk out @ rest) = Some (out, rest)"
proof -
  define n where "n = nat (nValue out)"
  have n: "nValue out = int n" "n \<le> 2 ^ 64 div 9" using assms(1,2) by (simp_all add: n_def)
  then have m: "nat (nValue out mod 2 ^ 64) = n" by simp
  from amount_roundtrip[OF n(2)] have a: "DecompressAmount (CompressAmount n) = n" "CompressAmount n < 2 ^ 64" by simp_all
  have "ReadVarInt (2 ^ 64 - 1) (WriteVarInt (CompressAmount n) @ Serialize_script pk (scriptPubKey out) @ rest)
      = Some (CompressAmount n, Serialize_script pk (scriptPubKey out) @ rest)"
    by (rule var64.get_put) (use a(2) in simp)
  moreover have "sint (of_nat n :: u64) = nValue out" unfolding n(1) by (rule sint_of_nat_64) (use n(2) in simp)
  ultimately show ?thesis
    using script_roundtrip[OF assms(3,4), of rest] a(1) m by (simp add: Unserialize_CTxOutCompressor_def Serialize_CTxOutCompressor_def)
qed

lemma Coin_get_put:
  assumes "storable_coin pk c"
  shows "Unserialize_Coin pk (Serialize_Coin pk c @ rest) = Some (c, rest)"
proof -
  let ?code = "coin_nHeight c * 2 + of_bool (coin_fCoinBase c)"
  have "?code < 2 ^ 32" using assms by (cases "coin_fCoinBase c") (auto simp: storable_coin_def)
  then have "ReadVarInt (2 ^ 32 - 1) (WriteVarInt ?code @ Serialize_CTxOutCompressor pk (coin_out c) @ rest)
      = Some (?code, Serialize_CTxOutCompressor pk (coin_out c) @ rest)"
    by (intro var32.get_put) simp
  moreover have "Unserialize_CTxOutCompressor pk (Serialize_CTxOutCompressor pk (coin_out c) @ rest) = Some (coin_out c, rest)"
    using assms by (intro txout_roundtrip) (auto simp: storable_coin_def)
  moreover have "odd ?code = coin_fCoinBase c" "?code div 2 = coin_nHeight c" by (cases "coin_fCoinBase c"; simp)+
  ultimately show ?thesis by (simp add: Unserialize_Coin_def Serialize_Coin_def)
qed

text \<open>C23. A coin is read back from the database as it was written, for amounts in the range that the format holds and
  scripts that may be executed. For an output to a full public key this needs that the elliptic-curve library
  recovers the key from its compressed form.\<close>

theorem Coin_roundtrip:
  assumes "storable_coin pk c"
  shows "Unserialize_Coin pk (Serialize_Coin pk c @ rest) = Some (c, rest)"
  by (rule Coin_get_put[OF assms])

text \<open>A library with one uncompressed key, and an output to it.\<close>

definition sample_key :: bytes where
  "sample_key = 4 # replicate 64 9"

definition sample_pubkey_ops :: pubkey_ops where
  "sample_pubkey_ops = \<lparr>IsFullyValid = (\<lambda>k. k = sample_key), DecompressKey = (\<lambda>k. if k = 3 # replicate 32 9 then Some sample_key else None)\<rparr>"

definition sample_coin :: Coin where
  "sample_coin = \<lparr>coin_out = \<lparr>nValue = 5000, scriptPubKey = 65 # sample_key @ [172]\<rparr>, coin_fCoinBase = True, coin_nHeight = 77\<rparr>"

theorem Coin_roundtrip_witness:
  "Unserialize_Coin sample_pubkey_ops (Serialize_Coin sample_pubkey_ops sample_coin @ [1]) = Some (sample_coin, [1])"
proof -
  have "IsToPubKey sample_pubkey_ops (65 # sample_key @ [172]) = Some sample_key" by code_simp
  moreover have "key_decompresses sample_pubkey_ops sample_key" by code_simp
  ultimately have "storable_coin sample_pubkey_ops sample_coin"
    by (simp add: storable_coin_def sample_coin_def script_key_ok_def sample_key_def)
  then show ?thesis by (rule Coin_roundtrip)
qed

end
