(* ===== verification/Coins.thy ===== *)
theory Coins
  imports Compressor Asset_Script "HOL-Library.AList"
begin

text \<open>
  The set of unspent outputs: \<^verbatim>\<open>src/src/coins.h\<close>, \<^verbatim>\<open>src/src/coins.cpp\<close> and \<open>CCoinsViewDB\<close> of \<^verbatim>\<open>src/src/txdb.cpp\<close>.

  A view is an object with virtual functions, here a record of functions on the state of the view. A cache is a record on
  top of the state of its base, and \<open>CCoinsViewCache\<close> with any base is a view again. Reads fill caches, so they return the
  new state. The hash map of a cache is an association list; its order is the order of iteration, which the code does not
  fix, and no result depends on it. The memory that a coin uses depends on its allocation history and is an argument,
  \<open>usage\<close>.

  The locale \<open>coins_view\<close> is the contract of a view: it stands for a partial function from outpoints to unspent coins
  and a best block. A cache over any view with the contract has the contract; the database has it outright.
\<close>

subsection \<open>Views\<close>

record CCoinsCacheEntry =
  ce_coin :: Coin
  ce_DIRTY :: bool
  ce_FRESH :: bool

type_synonym CCoinsMap = "(COutPoint \<times> CCoinsCacheEntry) list"

datatype coins_error = AssertionFailed | ReplacesUnspent | FreshMisapplied

record 'v CCoinsView =
  view_GetCoin :: "COutPoint \<Rightarrow> 'v \<Rightarrow> Coin option \<times> 'v"
  view_GetBestBlock :: "'v \<Rightarrow> uint256 \<times> 'v"
  view_BatchWrite :: "CCoinsMap \<Rightarrow> uint256 \<Rightarrow> 'v \<Rightarrow> coins_error + bool \<times> 'v"

record 'v CCoinsViewCache =
  cv_base :: 'v
  hashBlock :: uint256
  cacheCoins :: CCoinsMap
  cachedCoinsUsage :: u64

definition CCoinsViewCache_make :: "'v \<Rightarrow> 'v CCoinsViewCache" where
  "CCoinsViewCache_make baseIn = \<lparr>cv_base = baseIn, hashBlock = uint256_null, cacheCoins = [], cachedCoinsUsage = 0\<rparr>"

subsection \<open>The cache\<close>

text \<open>The entry that the returned iterator points to, \<open>None\<close> for the end of the map.\<close>

definition FetchCoin :: "'v CCoinsView \<Rightarrow> (Coin \<Rightarrow> u64) \<Rightarrow> COutPoint \<Rightarrow> 'v CCoinsViewCache
    \<Rightarrow> CCoinsCacheEntry option \<times> 'v CCoinsViewCache" where
  "FetchCoin V usage outpoint c =
     (case map_of (cacheCoins c) outpoint of
        Some e \<Rightarrow> (Some e, c)
      | None \<Rightarrow>
          (case view_GetCoin V outpoint (cv_base c) of
             (None, b) \<Rightarrow> (None, c\<lparr>cv_base := b\<rparr>)
           | (Some tmp, b) \<Rightarrow>
               let ret = \<lparr>ce_coin = tmp, ce_DIRTY = False, ce_FRESH = IsSpent tmp\<rparr> in
               (Some ret, c\<lparr>cv_base := b, cacheCoins := AList.update outpoint ret (cacheCoins c),
                  cachedCoinsUsage := cachedCoinsUsage c + usage tmp\<rparr>)))"

definition cache_GetCoin :: "'v CCoinsView \<Rightarrow> (Coin \<Rightarrow> u64) \<Rightarrow> COutPoint \<Rightarrow> 'v CCoinsViewCache \<Rightarrow> Coin option \<times> 'v CCoinsViewCache" where
  "cache_GetCoin V usage outpoint c =
     (case FetchCoin V usage outpoint c of
        (Some e, c) \<Rightarrow> (if IsSpent (ce_coin e) then None else Some (ce_coin e), c)
      | (None, c) \<Rightarrow> (None, c))"

definition AddCoin :: "(Coin \<Rightarrow> u64) \<Rightarrow> COutPoint \<Rightarrow> Coin \<Rightarrow> bool \<Rightarrow> 'v CCoinsViewCache \<Rightarrow> coins_error + 'v CCoinsViewCache" where
  "AddCoin usage outpoint coin possible_overwrite c =
     (if IsSpent coin then Inl AssertionFailed
      else if IsUnspendable (scriptPubKey (coin_out coin)) then Inr c
      else
        let (inserted, e) = (case map_of (cacheCoins c) outpoint of
              None \<Rightarrow> (True, \<lparr>ce_coin = coinEmpty, ce_DIRTY = False, ce_FRESH = False\<rparr>) | Some e \<Rightarrow> (False, e));
            used = (if inserted then cachedCoinsUsage c else cachedCoinsUsage c - usage (ce_coin e))
        in if \<not> possible_overwrite \<and> \<not> IsSpent (ce_coin e) then Inl ReplacesUnspent
           else
             let fresh = (\<not> possible_overwrite \<and> \<not> ce_DIRTY e) in
             Inr (c\<lparr>cacheCoins := AList.update outpoint \<lparr>ce_coin = coin, ce_DIRTY = True, ce_FRESH = ce_FRESH e \<or> fresh\<rparr> (cacheCoins c),
               cachedCoinsUsage := used + usage coin\<rparr>))"

text \<open>The part of \<open>SpendCoin\<close> on the coins, with the coin that was there.\<close>

definition spend_entry :: "'v CCoinsView \<Rightarrow> (Coin \<Rightarrow> u64) \<Rightarrow> COutPoint \<Rightarrow> 'v CCoinsViewCache \<Rightarrow> Coin option \<times> 'v CCoinsViewCache" where
  "spend_entry V usage outpoint c =
     (case FetchCoin V usage outpoint c of
        (None, c) \<Rightarrow> (None, c)
      | (Some e, c) \<Rightarrow>
          (Some (ce_coin e),
           if ce_FRESH e then c\<lparr>cacheCoins := AList.delete outpoint (cacheCoins c), cachedCoinsUsage := cachedCoinsUsage c - usage (ce_coin e)\<rparr>
           else c\<lparr>cacheCoins := AList.update outpoint \<lparr>ce_coin = coinEmpty, ce_DIRTY = True, ce_FRESH = False\<rparr> (cacheCoins c),
                  cachedCoinsUsage := cachedCoinsUsage c - usage (ce_coin e)\<rparr>))"

text \<open>The whole function, with the asset cache as an optional object and its \<open>TrySpendCoin\<close>. It returns whether it
  succeeded, the coin for \<open>moveout\<close>, and both caches.\<close>

definition SpendCoin :: "'v CCoinsView \<Rightarrow> (Coin \<Rightarrow> u64) \<Rightarrow> bool \<Rightarrow> (COutPoint \<Rightarrow> CTxOut \<Rightarrow> 'a \<Rightarrow> bool \<times> 'a) \<Rightarrow> COutPoint \<Rightarrow> 'a option
    \<Rightarrow> 'v CCoinsViewCache \<Rightarrow> bool \<times> Coin option \<times> 'a option \<times> 'v CCoinsViewCache" where
  "SpendCoin V usage fAssetsDeployed TrySpendCoin outpoint assetsCache c =
     (case spend_entry V usage outpoint c of
        (None, c) \<Rightarrow> (False, None, assetsCache, c)
      | (Some tempCoin, c) \<Rightarrow>
          (case (if fAssetsDeployed then assetsCache else None) of
             None \<Rightarrow> (True, Some tempCoin, assetsCache, c)
           | Some a \<Rightarrow> (case TrySpendCoin outpoint (coin_out tempCoin) a of (ok, a) \<Rightarrow> (ok, Some tempCoin, Some a, c))))"

definition AccessCoin :: "'v CCoinsView \<Rightarrow> (Coin \<Rightarrow> u64) \<Rightarrow> COutPoint \<Rightarrow> 'v CCoinsViewCache \<Rightarrow> Coin \<times> 'v CCoinsViewCache" where
  "AccessCoin V usage outpoint c =
     (case FetchCoin V usage outpoint c of (None, c) \<Rightarrow> (coinEmpty, c) | (Some e, c) \<Rightarrow> (ce_coin e, c))"

definition HaveCoin :: "'v CCoinsView \<Rightarrow> (Coin \<Rightarrow> u64) \<Rightarrow> COutPoint \<Rightarrow> 'v CCoinsViewCache \<Rightarrow> bool \<times> 'v CCoinsViewCache" where
  "HaveCoin V usage outpoint c =
     (case FetchCoin V usage outpoint c of (None, c) \<Rightarrow> (False, c) | (Some e, c) \<Rightarrow> (\<not> IsSpent (ce_coin e), c))"

definition HaveCoinInCache :: "COutPoint \<Rightarrow> 'v CCoinsViewCache \<Rightarrow> bool" where
  "HaveCoinInCache outpoint c = (case map_of (cacheCoins c) outpoint of None \<Rightarrow> False | Some e \<Rightarrow> \<not> IsSpent (ce_coin e))"

definition cache_GetBestBlock :: "'v CCoinsView \<Rightarrow> 'v CCoinsViewCache \<Rightarrow> uint256 \<times> 'v CCoinsViewCache" where
  "cache_GetBestBlock V c =
     (if hashBlock c = uint256_null then
        (case view_GetBestBlock V (cv_base c) of (h, b) \<Rightarrow> (h, c\<lparr>cv_base := b, hashBlock := h\<rparr>))
      else (hashBlock c, c))"

definition SetBestBlock :: "uint256 \<Rightarrow> 'v CCoinsViewCache \<Rightarrow> 'v CCoinsViewCache" where
  "SetBestBlock hashBlockIn c = c\<lparr>hashBlock := hashBlockIn\<rparr>"

text \<open>One entry of a batch of changes from the cache above.\<close>

definition write_entry :: "(Coin \<Rightarrow> u64) \<Rightarrow> COutPoint \<Rightarrow> CCoinsCacheEntry \<Rightarrow> 'v CCoinsViewCache \<Rightarrow> coins_error + 'v CCoinsViewCache" where
  "write_entry usage outpoint it c =
     (if \<not> ce_DIRTY it then Inr c
      else case map_of (cacheCoins c) outpoint of
        None \<Rightarrow>
          if ce_FRESH it \<and> IsSpent (ce_coin it) then Inr c
          else Inr (c\<lparr>cacheCoins := AList.update outpoint \<lparr>ce_coin = ce_coin it, ce_DIRTY = True, ce_FRESH = ce_FRESH it\<rparr> (cacheCoins c),
                 cachedCoinsUsage := cachedCoinsUsage c + usage (ce_coin it)\<rparr>)
      | Some us \<Rightarrow>
          if ce_FRESH it \<and> \<not> IsSpent (ce_coin us) then Inl FreshMisapplied
          else if ce_FRESH us \<and> IsSpent (ce_coin it) then
            Inr (c\<lparr>cacheCoins := AList.delete outpoint (cacheCoins c), cachedCoinsUsage := cachedCoinsUsage c - usage (ce_coin us)\<rparr>)
          else
            Inr (c\<lparr>cacheCoins := AList.update outpoint (us\<lparr>ce_coin := ce_coin it, ce_DIRTY := True\<rparr>) (cacheCoins c),
                   cachedCoinsUsage := cachedCoinsUsage c - usage (ce_coin us) + usage (ce_coin it)\<rparr>))"

fun write_entries :: "(Coin \<Rightarrow> u64) \<Rightarrow> CCoinsMap \<Rightarrow> 'v CCoinsViewCache \<Rightarrow> coins_error + 'v CCoinsViewCache" where
  "write_entries usage [] c = Inr c"
| "write_entries usage ((outpoint, it) # mapCoins) c =
     (case write_entry usage outpoint it c of Inl e \<Rightarrow> Inl e | Inr c \<Rightarrow> write_entries usage mapCoins c)"

definition cache_BatchWrite :: "(Coin \<Rightarrow> u64) \<Rightarrow> CCoinsMap \<Rightarrow> uint256 \<Rightarrow> 'v CCoinsViewCache \<Rightarrow> coins_error + bool \<times> 'v CCoinsViewCache" where
  "cache_BatchWrite usage mapCoins hashBlockIn c =
     (case write_entries usage mapCoins c of Inl e \<Rightarrow> Inl e | Inr c \<Rightarrow> Inr (True, c\<lparr>hashBlock := hashBlockIn\<rparr>))"

definition cache_view :: "'v CCoinsView \<Rightarrow> (Coin \<Rightarrow> u64) \<Rightarrow> 'v CCoinsViewCache CCoinsView" where
  "cache_view V usage = \<lparr>view_GetCoin = cache_GetCoin V usage, view_GetBestBlock = cache_GetBestBlock V,
     view_BatchWrite = cache_BatchWrite usage\<rparr>"

definition Flush :: "'v CCoinsView \<Rightarrow> 'v CCoinsViewCache \<Rightarrow> coins_error + bool \<times> 'v CCoinsViewCache" where
  "Flush V c =
     (case view_BatchWrite V (cacheCoins c) (hashBlock c) (cv_base c) of
        Inl e \<Rightarrow> Inl e
      | Inr (fOk, b) \<Rightarrow> Inr (fOk, c\<lparr>cv_base := b, cacheCoins := [], cachedCoinsUsage := 0\<rparr>))"

definition Uncache :: "(Coin \<Rightarrow> u64) \<Rightarrow> COutPoint \<Rightarrow> 'v CCoinsViewCache \<Rightarrow> 'v CCoinsViewCache" where
  "Uncache usage outpoint c =
     (case map_of (cacheCoins c) outpoint of
        None \<Rightarrow> c
      | Some e \<Rightarrow>
          if \<not> ce_DIRTY e \<and> \<not> ce_FRESH e then
            c\<lparr>cacheCoins := AList.delete outpoint (cacheCoins c), cachedCoinsUsage := cachedCoinsUsage c - usage (ce_coin e)\<rparr>
          else c)"

definition GetCacheSize :: "'v CCoinsViewCache \<Rightarrow> u32" where
  "GetCacheSize c = of_nat (length (cacheCoins c))"

subsection \<open>Transactions\<close>

text \<open>\<open>None\<close> is the overflow of the sum, a \<open>CAmount\<close> of 64 bits.\<close>

fun sum_inputs :: "'v CCoinsView \<Rightarrow> (Coin \<Rightarrow> u64) \<Rightarrow> CTxIn list \<Rightarrow> int \<Rightarrow> 'v CCoinsViewCache \<Rightarrow> int option \<times> 'v CCoinsViewCache" where
  "sum_inputs V usage [] nResult c = (Some nResult, c)"
| "sum_inputs V usage (i # ins) nResult c =
     (case AccessCoin V usage (prevout i) c of
        (coin, c) \<Rightarrow>
          let nResult = nResult + nValue (coin_out coin) in
          if int64 nResult then sum_inputs V usage ins nResult c else (None, c))"

definition GetValueIn :: "'v CCoinsView \<Rightarrow> (Coin \<Rightarrow> u64) \<Rightarrow> CTransaction \<Rightarrow> 'v CCoinsViewCache \<Rightarrow> int option \<times> 'v CCoinsViewCache" where
  "GetValueIn V usage tx c = (if IsCoinBase tx then (Some 0, c) else sum_inputs V usage (vin tx) 0 c)"

fun have_all :: "'v CCoinsView \<Rightarrow> (Coin \<Rightarrow> u64) \<Rightarrow> CTxIn list \<Rightarrow> 'v CCoinsViewCache \<Rightarrow> bool \<times> 'v CCoinsViewCache" where
  "have_all V usage [] c = (True, c)"
| "have_all V usage (i # ins) c =
     (case HaveCoin V usage (prevout i) c of (ok, c) \<Rightarrow> if \<not> ok then (False, c) else have_all V usage ins c)"

definition HaveInputs :: "'v CCoinsView \<Rightarrow> (Coin \<Rightarrow> u64) \<Rightarrow> CTransaction \<Rightarrow> 'v CCoinsViewCache \<Rightarrow> bool \<times> 'v CCoinsViewCache" where
  "HaveInputs V usage tx c = (if \<not> IsCoinBase tx then have_all V usage (vin tx) c else (True, c))"

text \<open>The loop of \<open>AddCoins\<close> over the outputs, from output \<open>i\<close> on; the bookkeeping of assets between the calls is not part
  of it.\<close>

fun add_outputs :: "'v CCoinsView \<Rightarrow> (Coin \<Rightarrow> u64) \<Rightarrow> uint256 \<Rightarrow> int \<Rightarrow> bool \<Rightarrow> bool \<Rightarrow> nat \<Rightarrow> CTxOut list \<Rightarrow> 'v CCoinsViewCache
    \<Rightarrow> coins_error + 'v CCoinsViewCache" where
  "add_outputs V usage txid nHeight fCoinbase check i [] c = Inr c"
| "add_outputs V usage txid nHeight fCoinbase check i (out # outs) c =
     (let outpoint = \<lparr>out_hash = txid, out_n = of_nat i\<rparr>;
          (overwrite, c) = (if check then HaveCoin V usage outpoint c else (fCoinbase, c))
      in case AddCoin usage outpoint (Coin_make out nHeight fCoinbase) overwrite c of
           Inl e \<Rightarrow> Inl e
         | Inr c \<Rightarrow> add_outputs V usage txid nHeight fCoinbase check (i + 1) outs c)"

definition AddCoins :: "'v CCoinsView \<Rightarrow> (Coin \<Rightarrow> u64) \<Rightarrow> (bytes \<Rightarrow> uint256) \<Rightarrow> CTransaction \<Rightarrow> int \<Rightarrow> bool \<Rightarrow> 'v CCoinsViewCache
    \<Rightarrow> coins_error + 'v CCoinsViewCache" where
  "AddCoins V usage Hash tx nHeight check c =
     add_outputs V usage (ComputeHash Hash tx) nHeight (IsCoinBase tx) check 0 (vout tx) c"

definition MIN_TRANSACTION_OUTPUT_WEIGHT :: nat where
  "MIN_TRANSACTION_OUTPUT_WEIGHT = 4 * length (Serialize_CTxOut CTxOut_null)"

function access_from :: "'v CCoinsView \<Rightarrow> (Coin \<Rightarrow> u64) \<Rightarrow> nat \<Rightarrow> uint256 \<Rightarrow> nat \<Rightarrow> 'v CCoinsViewCache \<Rightarrow> Coin \<times> 'v CCoinsViewCache" where
  "access_from V usage nMax txid n c =
     (if n < nMax then
        (case AccessCoin V usage \<lparr>out_hash = txid, out_n = of_nat n\<rparr> c of
           (alternate, c) \<Rightarrow> if \<not> IsSpent alternate then (alternate, c) else access_from V usage nMax txid (n + 1) c)
      else (coinEmpty, c))"
  by pat_completeness auto
termination
  by (relation "measure (\<lambda>(V, usage, nMax, txid, n, c). nMax - n)") auto

definition AccessByTxid :: "'v CCoinsView \<Rightarrow> (Coin \<Rightarrow> u64) \<Rightarrow> nat \<Rightarrow> uint256 \<Rightarrow> 'v CCoinsViewCache \<Rightarrow> Coin \<times> 'v CCoinsViewCache" where
  "AccessByTxid V usage nMaxBlockWeight txid c =
     access_from V usage (nMaxBlockWeight div MIN_TRANSACTION_OUTPUT_WEIGHT) txid 0 c"

declare access_from.simps [simp del]

subsection \<open>The database\<close>

text \<open>\<^verbatim>\<open>src/src/dbwrapper.h\<close> over a key-value store, which writes the operations of a batch in order and as a whole. Values
  are stored xored with the obfuscation key of the database (\<open>CDataStream::Xor\<close> of \<^verbatim>\<open>src/src/streams.h\<close>).\<close>

record CDBWrapper =
  db_data :: "bytes \<rightharpoonup> bytes"
  obfuscate_key :: bytes

fun xor_from :: "bytes \<Rightarrow> nat \<Rightarrow> bytes \<Rightarrow> bytes" where
  "xor_from key j [] = []"
| "xor_from key j (x # vch) = (x XOR key ! j) # xor_from key (if j + 1 = length key then 0 else j + 1) vch"

definition Xor :: "bytes \<Rightarrow> bytes \<Rightarrow> bytes" where
  "Xor key vch = (if length key = 0 then vch else xor_from key 0 vch)"

definition db_Read :: "bytes \<Rightarrow> (bytes \<Rightarrow> ('a \<times> bytes) option) \<Rightarrow> CDBWrapper \<Rightarrow> 'a option" where
  "db_Read key unser db =
     (case db_data db key of
        None \<Rightarrow> None
      | Some strValue \<Rightarrow> map_option fst (unser (Xor (obfuscate_key db) strValue)))"

datatype batch_op = Put bytes bytes | Delete bytes

record CDBBatch =
  batch_ops :: "batch_op list"
  size_estimate :: nat

definition batch_Clear :: CDBBatch where
  "batch_Clear = \<lparr>batch_ops = [], size_estimate = 0\<rparr>"

definition batch_Write :: "CDBWrapper \<Rightarrow> bytes \<Rightarrow> bytes \<Rightarrow> CDBBatch \<Rightarrow> CDBBatch" where
  "batch_Write parent slKey ssValue batch =
     (let slValue = Xor (obfuscate_key parent) ssValue in
      \<lparr>batch_ops = batch_ops batch @ [Put slKey slValue],
       size_estimate = size_estimate batch + (3 + of_bool (127 < length slKey) + length slKey + of_bool (127 < length slValue) + length slValue)\<rparr>)"

definition batch_Erase :: "bytes \<Rightarrow> CDBBatch \<Rightarrow> CDBBatch" where
  "batch_Erase slKey batch =
     \<lparr>batch_ops = batch_ops batch @ [Delete slKey],
      size_estimate = size_estimate batch + (2 + of_bool (127 < length slKey) + length slKey)\<rparr>"

fun apply_op :: "batch_op \<Rightarrow> (bytes \<rightharpoonup> bytes) \<Rightarrow> (bytes \<rightharpoonup> bytes)" where
  "apply_op (Put k v) d = d(k \<mapsto> v)"
| "apply_op (Delete k) d = d(k := None)"

definition WriteBatch :: "CDBBatch \<Rightarrow> CDBWrapper \<Rightarrow> CDBWrapper" where
  "WriteBatch batch db = db\<lparr>db_data := fold apply_op (batch_ops batch) (db_data db)\<rparr>"

subsection \<open>The coin database\<close>

abbreviation (input) DB_COIN :: u8 where "DB_COIN \<equiv> 67"
abbreviation (input) DB_BEST_BLOCK :: bytes where "DB_BEST_BLOCK \<equiv> [66]"
abbreviation (input) DB_HEAD_BLOCKS :: bytes where "DB_HEAD_BLOCKS \<equiv> [72]"

definition CoinEntry :: "COutPoint \<Rightarrow> bytes" where
  "CoinEntry outpoint = DB_COIN # out_hash outpoint @ WriteVarInt (unat (out_n outpoint))"

definition DB_GetCoin :: "pubkey_ops \<Rightarrow> COutPoint \<Rightarrow> CDBWrapper \<Rightarrow> Coin option" where
  "DB_GetCoin pk outpoint db = db_Read (CoinEntry outpoint) (Unserialize_Coin pk) db"

definition DB_HaveCoin :: "COutPoint \<Rightarrow> CDBWrapper \<Rightarrow> bool" where
  "DB_HaveCoin outpoint db = (db_data db (CoinEntry outpoint) \<noteq> None)"

definition DB_GetBestBlock :: "CDBWrapper \<Rightarrow> uint256" where
  "DB_GetBestBlock db = (case db_Read DB_BEST_BLOCK (stream_read 32) db of None \<Rightarrow> uint256_null | Some hashBestChain \<Rightarrow> hashBestChain)"

definition GetHeadBlocks :: "CDBWrapper \<Rightarrow> uint256 list" where
  "GetHeadBlocks db = (case db_Read DB_HEAD_BLOCKS (Unserialize_vector (stream_read 32)) db of None \<Rightarrow> [] | Some vhashHeadBlocks \<Rightarrow> vhashHeadBlocks)"

text \<open>The loop over the entries. \<open>crash k\<close> says whether the process exits after partial batch number \<open>k\<close>: the simulated crash
  of \<^verbatim>\<open>-dbcrashratio\<close>, or any interruption between two writes.\<close>

datatype db_outcome = Exit CDBWrapper | Return bool CDBWrapper

definition batch_entry :: "pubkey_ops \<Rightarrow> CDBWrapper \<Rightarrow> COutPoint \<Rightarrow> CCoinsCacheEntry \<Rightarrow> CDBBatch \<Rightarrow> CDBBatch" where
  "batch_entry pk db outpoint it batch =
     (if ce_DIRTY it then
        if IsSpent (ce_coin it) then batch_Erase (CoinEntry outpoint) batch
        else batch_Write db (CoinEntry outpoint) (Serialize_Coin pk (ce_coin it)) batch
      else batch)"

fun batch_loop :: "pubkey_ops \<Rightarrow> nat \<Rightarrow> (nat \<Rightarrow> bool) \<Rightarrow> uint256 \<Rightarrow> nat \<Rightarrow> CCoinsMap \<Rightarrow> CDBBatch \<Rightarrow> CDBWrapper \<Rightarrow> db_outcome" where
  "batch_loop pk batch_size crash h k [] batch db =
     Return True (WriteBatch (batch_Write db DB_BEST_BLOCK h (batch_Erase DB_HEAD_BLOCKS batch)) db)"
| "batch_loop pk batch_size crash h k ((outpoint, it) # mapCoins) batch db =
     (let batch = batch_entry pk db outpoint it batch in
      if batch_size < size_estimate batch then
        let db = WriteBatch batch db in
        if crash k then Exit db else batch_loop pk batch_size crash h (k + 1) mapCoins batch_Clear db
      else batch_loop pk batch_size crash h k mapCoins batch db)"

definition DB_BatchWrite :: "pubkey_ops \<Rightarrow> nat \<Rightarrow> (nat \<Rightarrow> bool) \<Rightarrow> CCoinsMap \<Rightarrow> uint256 \<Rightarrow> CDBWrapper \<Rightarrow> coins_error + db_outcome" where
  "DB_BatchWrite pk batch_size crash mapCoins h db =
     (if h = uint256_null then Inl AssertionFailed
      else
        let old_tip = DB_GetBestBlock db;
            old_heads = (if old_tip = uint256_null then GetHeadBlocks db else [])
        in if length old_heads = 2 \<and> old_heads ! 0 \<noteq> h then Inl AssertionFailed
           else
             let old_tip = (if length old_heads = 2 then old_heads ! 1 else old_tip);
                 batch = batch_Write db DB_HEAD_BLOCKS (Serialize_vector (\<lambda>hash. hash) [h, old_tip]) (batch_Erase DB_BEST_BLOCK batch_Clear)
             in Inr (batch_loop pk batch_size crash h 0 mapCoins batch db))"

text \<open>The virtual functions of the database, with no interruption.\<close>

definition db_view :: "pubkey_ops \<Rightarrow> nat \<Rightarrow> CDBWrapper CCoinsView" where
  "db_view pk batch_size = \<lparr>view_GetCoin = (\<lambda>outpoint db. (DB_GetCoin pk outpoint db, db)), view_GetBestBlock = (\<lambda>db. (DB_GetBestBlock db, db)),
     view_BatchWrite = (\<lambda>mapCoins h db. case DB_BatchWrite pk batch_size (\<lambda>_. False) mapCoins h db of
        Inl e \<Rightarrow> Inl e | Inr (Exit db) \<Rightarrow> Inr (False, db) | Inr (Return ok db) \<Rightarrow> Inr (ok, db))\<rparr>"

subsection \<open>The store\<close>

lemma xor_from_involution: "j < length key \<Longrightarrow> xor_from key j (xor_from key j v) = v"
proof (induction v arbitrary: j)
  case (Cons x v)
  have "(x XOR key ! j) XOR key ! j = x" by (simp add: xor.assoc)
  moreover have "(if j + 1 = length key then 0 else j + 1) < length key" using Cons.prems by auto
  ultimately show ?case using Cons.IH by simp
qed simp

lemma Xor_involution [simp]: "Xor key (Xor key v) = v"
  by (auto simp: Xor_def xor_from_involution)

lemma CoinEntry_inj:
  assumes "valid_outpoint p" "valid_outpoint q" "CoinEntry p = CoinEntry q"
  shows "p = q"
proof -
  have l: "length (out_hash p) = length (out_hash q)" using assms by (simp add: valid_outpoint_def)
  then have h: "out_hash p = out_hash q" "WriteVarInt (unat (out_n p)) = WriteVarInt (unat (out_n q))"
    using assms(3) by (simp_all add: CoinEntry_def)
  have b: "unat (w :: u32) \<le> 2 ^ 32 - 1" for w using unsigned_less[of w, where 'a=nat] by simp
  have "unat (out_n p) = unat (out_n q)" using var32.put_inj[OF b b, of "out_n p" "[]" "out_n q" "[]"] h(2) by simp
  then have "out_n p = out_n q" by (simp add: word_unat_eq_iff)
  then show ?thesis using h(1) by simp
qed

lemma CoinEntry_special [simp]:
  "CoinEntry p \<noteq> DB_BEST_BLOCK" "CoinEntry p \<noteq> DB_HEAD_BLOCKS" "DB_BEST_BLOCK \<noteq> CoinEntry p" "DB_HEAD_BLOCKS \<noteq> CoinEntry p"
  by (simp_all add: CoinEntry_def)

text \<open>The operations that a list of entries adds to a batch.\<close>

definition entry_ops :: "pubkey_ops \<Rightarrow> bytes \<Rightarrow> CCoinsMap \<Rightarrow> batch_op list" where
  "entry_ops pk key m = concat (map (\<lambda>(p, e). if ce_DIRTY e then
     [if IsSpent (ce_coin e) then Delete (CoinEntry p) else Put (CoinEntry p) (Xor key (Serialize_Coin pk (ce_coin e)))] else []) m)"

lemma entry_ops_simps [simp]:
  "entry_ops pk key [] = []"
  "entry_ops pk key ((p, e) # m) = (if ce_DIRTY e then
     [if IsSpent (ce_coin e) then Delete (CoinEntry p) else Put (CoinEntry p) (Xor key (Serialize_Coin pk (ce_coin e)))] else []) @ entry_ops pk key m"
  by (simp_all add: entry_ops_def)

lemma batch_ops_simps [simp]:
  "batch_ops batch_Clear = []"
  "batch_ops (batch_Erase k b) = batch_ops b @ [Delete k]"
  "batch_ops (batch_Write db k v b) = batch_ops b @ [Put k (Xor (obfuscate_key db) v)]"
  by (simp_all add: batch_Clear_def batch_Erase_def batch_Write_def Let_def)

lemma batch_ops_entry [simp]: "batch_ops (batch_entry pk db p e b) = batch_ops b @ entry_ops pk (obfuscate_key db) [(p, e)]"
  by (simp add: batch_entry_def)

lemma WriteBatch_simps [simp]:
  "obfuscate_key (WriteBatch b db) = obfuscate_key db"
  "db_data (WriteBatch b db) = fold apply_op (batch_ops b) (db_data db)"
  by (simp_all add: WriteBatch_def)

lemma entry_ops_other: "\<forall>p. k \<noteq> CoinEntry p \<Longrightarrow> fold apply_op (entry_ops pk key m) d k = d k"
  by (induction m arbitrary: d) (auto simp: fun_upd_def)

lemma entry_ops_untouched:
  assumes "valid_outpoint p" "list_all (\<lambda>(q, e). valid_outpoint q) m" "p \<notin> fst ` set m"
  shows "fold apply_op (entry_ops pk key m) d (CoinEntry p) = d (CoinEntry p)"
  using assms(2,3)
proof (induction m arbitrary: d)
  case (Cons x m)
  then have "CoinEntry p \<noteq> CoinEntry (fst x)" using CoinEntry_inj[OF assms(1)] by (cases x) auto
  then show ?case using Cons by (cases x) auto
qed simp

lemma entry_ops_coin:
  assumes "valid_outpoint p" "list_all (\<lambda>(q, e). valid_outpoint q) m" "distinct (map fst m)"
  shows "fold apply_op (entry_ops pk key m) d (CoinEntry p) = (case map_of m p of
      None \<Rightarrow> d (CoinEntry p)
    | Some e \<Rightarrow> if \<not> ce_DIRTY e then d (CoinEntry p) else if IsSpent (ce_coin e) then None
                else Some (Xor key (Serialize_Coin pk (ce_coin e))))"
  using assms(2,3)
proof (induction m arbitrary: d)
  case (Cons x m)
  obtain q e where x: "x = (q, e)" by (cases x)
  show ?case
  proof (cases "p = q")
    case True
    then have "p \<notin> fst ` set m" using Cons.prems(2) x by simp
    then show ?thesis using True x entry_ops_untouched[OF assms(1), of m] Cons.prems(1) by simp
  next
    case False
    then have "CoinEntry p \<noteq> CoinEntry q" using CoinEntry_inj[OF assms(1)] Cons.prems(1) x by auto
    then show ?thesis using False x Cons by (simp split: option.splits)
  qed
qed simp

text \<open>The two ways the loop ends.\<close>

lemma batch_loop_Return:
  assumes "batch_loop pk bs crash h k m b db = Return ok db'"
  shows "ok" "obfuscate_key db' = obfuscate_key db"
    "db_data db' = fold apply_op (batch_ops b @ entry_ops pk (obfuscate_key db) m @ [Delete DB_HEAD_BLOCKS, Put DB_BEST_BLOCK (Xor (obfuscate_key db) h)]) (db_data db)"
  using assms by (induction pk bs crash h k m b db rule: batch_loop.induct) (auto simp: Let_def split: if_splits)

lemma batch_loop_Exit:
  assumes "batch_loop pk bs crash h k m b db = Exit db'"
  shows "\<exists>j. db_data db' = fold apply_op (batch_ops b @ entry_ops pk (obfuscate_key db) (take j m)) (db_data db)
    \<and> obfuscate_key db' = obfuscate_key db \<and> (\<exists>i. crash i)"
  using assms
proof (induction pk bs crash h k m b db rule: batch_loop.induct)
  case (2 pk bs crash h k p e m b db)
  let ?b = "batch_entry pk db p e b"
  consider (stop) "bs < size_estimate ?b" "crash k" | (part) "bs < size_estimate ?b" "\<not> crash k" | (go) "\<not> bs < size_estimate ?b" by blast
  then show ?case
  proof cases
    case stop
    then show ?thesis using "2.prems" by (intro exI[of _ 1]) (auto simp: Let_def)
  next
    case part
    then obtain j where "db_data db' = fold apply_op (batch_ops batch_Clear @ entry_ops pk (obfuscate_key db) (take j m)) (db_data (WriteBatch ?b db))
        \<and> obfuscate_key db' = obfuscate_key db \<and> (\<exists>i. crash i)"
      using "2.IH"(1)[OF refl part(1) refl part(2)] "2.prems" by (auto simp: Let_def)
    then show ?thesis by (intro exI[of _ "Suc j"]) auto
  next
    case go
    then obtain j where "db_data db' = fold apply_op (batch_ops ?b @ entry_ops pk (obfuscate_key db) (take j m)) (db_data db)
        \<and> obfuscate_key db' = obfuscate_key db \<and> (\<exists>i. crash i)"
      using "2.IH"(2)[OF refl go] "2.prems" by (auto simp: Let_def)
    then show ?thesis by (intro exI[of _ "Suc j"]) auto
  qed
qed simp

subsection \<open>What a batch means\<close>

text \<open>The coins of a view, the effect of a batch on them, and the batches that a cache may write. A view is only asked for
  outpoints whose hash has its 32 bytes, and \<open>ok\<close> says which coins the views below can store.\<close>

type_synonym coins = "COutPoint \<Rightarrow> Coin option"

definition apply_batch :: "CCoinsMap \<Rightarrow> coins \<Rightarrow> coins" where
  "apply_batch m f p =
     (case map_of m p of
        Some e \<Rightarrow> if ce_DIRTY e then (if IsSpent (ce_coin e) then None else Some (ce_coin e)) else f p
      | None \<Rightarrow> f p)"

definition batch_wf :: "(Coin \<Rightarrow> bool) \<Rightarrow> CCoinsMap \<Rightarrow> bool" where
  "batch_wf ok m \<longleftrightarrow> distinct (map fst m) \<and>
     list_all (\<lambda>(p, e). valid_outpoint p \<and> (ce_DIRTY e \<and> \<not> IsSpent (ce_coin e) \<longrightarrow> ok (ce_coin e))) m"

definition fresh_ok :: "CCoinsMap \<Rightarrow> coins \<Rightarrow> bool" where
  "fresh_ok m f \<longleftrightarrow> list_all (\<lambda>(p, e). ce_DIRTY e \<and> ce_FRESH e \<longrightarrow> f p = None) m"

definition db_coins :: "pubkey_ops \<Rightarrow> CDBWrapper \<Rightarrow> coins" where
  "db_coins pk db p = (if valid_outpoint p then DB_GetCoin pk p db else None)"

text \<open>The tip that the database is at, or is moving from, and the tips it can be moved to.\<close>

definition old_tip_of :: "CDBWrapper \<Rightarrow> uint256" where
  "old_tip_of db = (if DB_GetBestBlock db = uint256_null \<and> length (GetHeadBlocks db) = 2 then GetHeadBlocks db ! 1 else DB_GetBestBlock db)"

definition writable :: "uint256 \<Rightarrow> CDBWrapper \<Rightarrow> bool" where
  "writable h db \<longleftrightarrow> h \<noteq> uint256_null \<and> length h = 32
     \<and> (DB_GetBestBlock db = uint256_null \<and> length (GetHeadBlocks db) = 2 \<longrightarrow> GetHeadBlocks db ! 0 = h)"

lemma length_uint256_null [simp]: "length uint256_null = 32"
  by (simp add: uint256_null_def)

lemma length_best [simp]: "length (DB_GetBestBlock db) = 32"
  by (auto simp: DB_GetBestBlock_def db_Read_def stream_read_def split: option.splits if_splits)

interpretation hashc: codec "\<lambda>hash. hash" "stream_read 32" "\<lambda>hash. length hash = 32"
  by unfold_locales (auto simp: stream_read_iff)

lemma length_heads: "hash \<in> set (GetHeadBlocks db) \<Longrightarrow> length hash = 32"
  by (auto simp: GetHeadBlocks_def db_Read_def Unserialize_vector_def hashc.read_n_iff list_all_iff map_option_case
      split: option.splits bind_splits)

lemma length_old_tip [simp]: "length (old_tip_of db) = 32"
  using length_heads[of "GetHeadBlocks db ! 1" db] by (auto simp: old_tip_of_def)

lemma DB_BatchWrite_loop:
  assumes "writable h db"
  shows "DB_BatchWrite pk bs crash m h db = Inr (batch_loop pk bs crash h 0 m
    (batch_Write db DB_HEAD_BLOCKS (Serialize_vector (\<lambda>hash. hash) [h, old_tip_of db]) (batch_Erase DB_BEST_BLOCK batch_Clear)) db)"
  using assms by (auto simp: DB_BatchWrite_def writable_def old_tip_of_def Let_def)

lemma DB_BatchWrite_other:
  "DB_BatchWrite pk bs crash m h db = Inl e \<Longrightarrow> e = AssertionFailed"
  by (auto simp: DB_BatchWrite_def Let_def split: if_splits)

lemma batch_loop_never: "\<forall>k. \<not> crash k \<Longrightarrow> \<exists>db'. batch_loop pk bs crash h k m b db = Return True db'"
  by (induction pk bs crash h k m b db rule: batch_loop.induct) (auto simp: Let_def)

lemma entry_ops_coins:
  assumes "batch_wf (storable_coin pk) m" "\<And>p. db_data db' (CoinEntry p) = fold apply_op (entry_ops pk (obfuscate_key db) m) d (CoinEntry p)"
    "obfuscate_key db' = obfuscate_key db" "\<And>p. d (CoinEntry p) = db_data db (CoinEntry p)"
  shows "db_coins pk db' = apply_batch m (db_coins pk db)"
proof
  fix p
  have l: "list_all (\<lambda>(q, e). valid_outpoint q) m" "distinct (map fst m)" using assms(1) by (auto simp: batch_wf_def list_all_iff)
  show "db_coins pk db' p = apply_batch m (db_coins pk db) p"
  proof (cases "valid_outpoint p")
    case True
    have "storable_coin pk (ce_coin e)" if "map_of m p = Some e" "ce_DIRTY e" "\<not> IsSpent (ce_coin e)" for e
      using that assms(1) map_of_SomeD[of m p e] by (auto simp: batch_wf_def list_all_iff)
    moreover have "db_data db' (CoinEntry p) = (case map_of m p of
        None \<Rightarrow> db_data db (CoinEntry p)
      | Some e \<Rightarrow> if \<not> ce_DIRTY e then db_data db (CoinEntry p) else if IsSpent (ce_coin e) then None
                  else Some (Xor (obfuscate_key db) (Serialize_Coin pk (ce_coin e))))"
      unfolding assms(2) entry_ops_coin[OF True l] assms(4) ..
    ultimately show ?thesis using True Coin_get_put[of pk _ "[]"]
      by (auto simp: db_coins_def DB_GetCoin_def db_Read_def apply_batch_def assms(3) split: option.splits)
  next
    case False
    then have "map_of m p = None" using l(1) by (auto simp: map_of_eq_None_iff list_all_iff)
    then show ?thesis using False by (simp add: db_coins_def apply_batch_def)
  qed
qed

subsection \<open>The two outcomes of a write to the database\<close>

lemma heads_roundtrip:
  assumes "db_data db DB_HEAD_BLOCKS = Some (Xor (obfuscate_key db) (Serialize_vector (\<lambda>hash. hash) [h, g]))" "length h = 32" "length g = 32"
  shows "GetHeadBlocks db = [h, g]"
proof -
  have "ReadCompactSize (WriteCompactSize 2 @ h @ g) = Some (2, h @ g)" by (rule csize.get_put) (simp add: MAX_SIZE_def)
  moreover have "read_n (stream_read 32) 2 (h @ g) = Some ([h, g], [])" using assms(2,3) by (simp add: hashc.read_n_iff)
  ultimately show ?thesis
    using assms(1) by (simp add: GetHeadBlocks_def db_Read_def Unserialize_vector_def Serialize_vector_def numeral_2_eq_2)
qed

lemma apply_batch_prefix:
  assumes "distinct (map fst m)"
  shows "apply_batch (take j m) f p \<in> {f p, apply_batch m f p}"
proof (cases "map_of (take j m) p")
  case None
  then show ?thesis by (simp add: apply_batch_def)
next
  case (Some e)
  then have "(p, e) \<in> set m" using map_of_SomeD[of "take j m" p e] in_set_takeD by metis
  then have "map_of m p = Some e" using assms by simp
  then show ?thesis using Some by (simp add: apply_batch_def)
qed

lemma batch_wf_take: "batch_wf ok m \<Longrightarrow> batch_wf ok (take j m)"
  by (auto simp: batch_wf_def list_all_iff distinct_take simp flip: take_map dest: in_set_takeD)

lemma DB_BatchWrite_Return:
  assumes "writable h db" "batch_wf (storable_coin pk) m" "DB_BatchWrite pk bs crash m h db = Inr (Return r db')"
  shows "r" "DB_GetBestBlock db' = h" "GetHeadBlocks db' = []" "db_coins pk db' = apply_batch m (db_coins pk db)"
proof -
  note loop = assms(3)[unfolded DB_BatchWrite_loop[OF assms(1)], simplified]
  note R = batch_loop_Return[OF loop]
  have h: "length h = 32" using assms(1) by (simp add: writable_def)
  show r by (rule R(1))
  show "DB_GetBestBlock db' = h" using h stream_read_iff[of 32 h h "[]"] by (simp add: DB_GetBestBlock_def db_Read_def R(2,3))
  show "GetHeadBlocks db' = []" by (simp add: GetHeadBlocks_def db_Read_def R(3))
  show "db_coins pk db' = apply_batch m (db_coins pk db)"
    by (rule entry_ops_coins[OF assms(2) _ R(2), of "fold apply_op [Delete DB_BEST_BLOCK,
      Put DB_HEAD_BLOCKS (Xor (obfuscate_key db) (Serialize_vector (\<lambda>hash. hash) [h, old_tip_of db]))] (db_data db)"]) (simp_all add: R(3))
qed

lemma DB_BatchWrite_Exit:
  assumes "writable h db" "batch_wf (storable_coin pk) m" "DB_BatchWrite pk bs crash m h db = Inr (Exit db')"
  shows "DB_GetBestBlock db' = uint256_null" "GetHeadBlocks db' = [h, old_tip_of db]"
    "\<exists>j. db_coins pk db' = apply_batch (take j m) (db_coins pk db)" "\<exists>i. crash i"
proof -
  note loop = assms(3)[unfolded DB_BatchWrite_loop[OF assms(1)], simplified]
  obtain j where R: "db_data db' = fold apply_op ([Delete DB_BEST_BLOCK,
      Put DB_HEAD_BLOCKS (Xor (obfuscate_key db) (Serialize_vector (\<lambda>hash. hash) [h, old_tip_of db]))]
      @ entry_ops pk (obfuscate_key db) (take j m)) (db_data db)" "obfuscate_key db' = obfuscate_key db" "\<exists>i. crash i"
    using batch_loop_Exit[OF loop] by auto
  have h: "length h = 32" using assms(1) by (simp add: writable_def)
  have "db_data db' DB_BEST_BLOCK = None" unfolding R(1) by (simp add: entry_ops_other)
  then show "DB_GetBestBlock db' = uint256_null" by (simp add: DB_GetBestBlock_def db_Read_def)
  have "db_data db' DB_HEAD_BLOCKS = Some (Xor (obfuscate_key db') (Serialize_vector (\<lambda>hash. hash) [h, old_tip_of db]))"
    unfolding R(1,2) by (simp add: entry_ops_other)
  then show "GetHeadBlocks db' = [h, old_tip_of db]" using h by (intro heads_roundtrip) simp_all
  have "db_coins pk db' = apply_batch (take j m) (db_coins pk db)"
    by (rule entry_ops_coins[OF batch_wf_take[OF assms(2)] _ R(2), of _ "fold apply_op [Delete DB_BEST_BLOCK,
      Put DB_HEAD_BLOCKS (Xor (obfuscate_key db) (Serialize_vector (\<lambda>hash. hash) [h, old_tip_of db]))] (db_data db)"]) (simp_all add: R(1))
  then show "\<exists>j. db_coins pk db' = apply_batch (take j m) (db_coins pk db)" ..
  show "\<exists>i. crash i" by (rule R(3))
qed

lemma DB_BatchWrite_never:
  assumes "writable h db" "\<forall>k. \<not> crash k"
  shows "\<exists>db'. DB_BatchWrite pk bs crash m h db = Inr (Return True db')"
  unfolding DB_BatchWrite_loop[OF assms(1)] using batch_loop_never[OF assms(2)] by auto

subsection \<open>The contract of a view\<close>

locale coins_view =
  fixes V :: "'v CCoinsView"
    and inv :: "'v \<Rightarrow> bool"
    and coins_of :: "'v \<Rightarrow> coins"
    and best :: "'v \<Rightarrow> uint256"
    and ok :: "Coin \<Rightarrow> bool"
  assumes coins_ok: "inv b \<Longrightarrow> coins_of b p = Some coin \<Longrightarrow> \<not> IsSpent coin \<and> ok coin"
    and GetCoin_result: "inv b \<Longrightarrow> valid_outpoint p \<Longrightarrow> fst (view_GetCoin V p b) = coins_of b p"
    and GetCoin_state: "inv b \<Longrightarrow> valid_outpoint p \<Longrightarrow> inv (snd (view_GetCoin V p b))
      \<and> coins_of (snd (view_GetCoin V p b)) = coins_of b \<and> best (snd (view_GetCoin V p b)) = best b"
    and GetBestBlock_result: "inv b \<Longrightarrow> fst (view_GetBestBlock V b) = best b"
    and GetBestBlock_state: "inv b \<Longrightarrow> inv (snd (view_GetBestBlock V b))
      \<and> coins_of (snd (view_GetBestBlock V b)) = coins_of b \<and> best (snd (view_GetBestBlock V b)) = best b"
    and BatchWrite: "inv b \<Longrightarrow> batch_wf ok m \<Longrightarrow> fresh_ok m (coins_of b) \<Longrightarrow> h \<noteq> uint256_null \<Longrightarrow> length h = 32 \<Longrightarrow>
      \<exists>b'. view_BatchWrite V m h b = Inr (True, b') \<and> inv b' \<and> coins_of b' = apply_batch m (coins_of b) \<and> best b' = h"

definition db_inv :: "pubkey_ops \<Rightarrow> CDBWrapper \<Rightarrow> bool" where
  "db_inv pk db \<longleftrightarrow> (\<forall>p coin. db_coins pk db p = Some coin \<longrightarrow> \<not> IsSpent coin \<and> storable_coin pk coin)
     \<and> (DB_GetBestBlock db = uint256_null \<longrightarrow> length (GetHeadBlocks db) \<noteq> 2)"

lemma apply_batch_ok:
  assumes "batch_wf ok m" "\<And>coin. f p = Some coin \<Longrightarrow> \<not> IsSpent coin \<and> ok coin" "apply_batch m f p = Some coin"
  shows "\<not> IsSpent coin \<and> ok coin"
proof -
  consider "f p = Some coin" | e where "map_of m p = Some e" "ce_DIRTY e" "\<not> IsSpent coin" "ce_coin e = coin"
    using assms(3) by (auto simp: apply_batch_def split: option.splits if_splits)
  then show ?thesis using assms(1,2) by cases (auto simp: batch_wf_def list_all_iff dest: map_of_SomeD)
qed

interpretation dbv: coins_view "db_view pk bs" "db_inv pk" "db_coins pk" DB_GetBestBlock "storable_coin pk" for pk bs
proof (unfold_locales, goal_cases)
  case (6 db m h)
  then have w: "writable h db" by (auto simp: writable_def db_inv_def)
  obtain db' where db': "DB_BatchWrite pk bs (\<lambda>_. False) m h db = Inr (Return True db')"
    using DB_BatchWrite_never[OF w, of "\<lambda>_. False" pk bs m] by auto
  note R = DB_BatchWrite_Return[OF w 6(2) db']
  have "db_inv pk db'" unfolding db_inv_def R using 6(1,4) apply_batch_ok[OF 6(2)] by (metis db_inv_def)
  then show ?case using db' R by (simp add: db_view_def)
qed (auto simp: db_view_def db_inv_def db_coins_def)

subsection \<open>A cache over a view with the contract\<close>

definition entry_coin :: "CCoinsCacheEntry \<Rightarrow> Coin option" where
  "entry_coin e = (if IsSpent (ce_coin e) then None else Some (ce_coin e))"

definition cache_coins :: "('v \<Rightarrow> coins) \<Rightarrow> 'v CCoinsViewCache \<Rightarrow> coins" where
  "cache_coins coins_of c p = (case map_of (cacheCoins c) p of Some e \<Rightarrow> entry_coin e | None \<Rightarrow> coins_of (cv_base c) p)"

definition cache_best :: "('v \<Rightarrow> uint256) \<Rightarrow> 'v CCoinsViewCache \<Rightarrow> uint256" where
  "cache_best best c = (if hashBlock c = uint256_null then best (cv_base c) else hashBlock c)"

text \<open>What the flags of an entry promise about the coins of the base.\<close>

definition entry_ok :: "(Coin \<Rightarrow> bool) \<Rightarrow> coins \<Rightarrow> COutPoint \<Rightarrow> CCoinsCacheEntry \<Rightarrow> bool" where
  "entry_ok ok f p e \<longleftrightarrow> valid_outpoint p \<and> (\<not> IsSpent (ce_coin e) \<longrightarrow> ok (ce_coin e))
     \<and> (\<not> ce_DIRTY e \<longrightarrow> f p = entry_coin e) \<and> (ce_FRESH e \<longrightarrow> f p = None)"

definition entries_ok :: "(Coin \<Rightarrow> bool) \<Rightarrow> coins \<Rightarrow> CCoinsMap \<Rightarrow> bool" where
  "entries_ok ok f m \<longleftrightarrow> distinct (map fst m) \<and> (\<forall>p e. map_of m p = Some e \<longrightarrow> entry_ok ok f p e)"

definition usage_sum :: "(Coin \<Rightarrow> u64) \<Rightarrow> CCoinsMap \<Rightarrow> u64" where
  "usage_sum usage m = sum_list (map (\<lambda>(p, e). usage (ce_coin e)) m)"

definition cache_inv :: "('v \<Rightarrow> bool) \<Rightarrow> ('v \<Rightarrow> coins) \<Rightarrow> (Coin \<Rightarrow> bool) \<Rightarrow> (Coin \<Rightarrow> u64) \<Rightarrow> 'v CCoinsViewCache \<Rightarrow> bool" where
  "cache_inv binv coins_of ok usage c \<longleftrightarrow> binv (cv_base c) \<and> entries_ok ok (coins_of (cv_base c)) (cacheCoins c)
     \<and> cachedCoinsUsage c = usage_sum usage (cacheCoins c)"

lemma usage_sum_new: "map_of m p = None \<Longrightarrow> usage_sum usage (AList.update p e m) = usage_sum usage m + usage (ce_coin e)"
  by (induction m) (auto simp: usage_sum_def split: if_splits)

lemma usage_sum_update:
  "map_of m p = Some e' \<Longrightarrow> usage_sum usage (AList.update p e m) = usage_sum usage m - usage (ce_coin e') + usage (ce_coin e)"
  by (induction m) (auto simp: usage_sum_def algebra_simps split: if_splits)

lemma delete_absent: "p \<notin> fst ` set m \<Longrightarrow> AList.delete p m = m"
  by (induction m) auto

lemma usage_sum_delete:
  "distinct (map fst m) \<Longrightarrow> map_of m p = Some e \<Longrightarrow> usage_sum usage (AList.delete p m) = usage_sum usage m - usage (ce_coin e)"
  by (induction m) (auto simp: usage_sum_def delete_absent algebra_simps split: if_splits)

lemma entries_ok_update:
  "entries_ok ok f m \<Longrightarrow> entry_ok ok f p e \<Longrightarrow> entries_ok ok f (AList.update p e m)"
  by (auto simp: entries_ok_def update_conv' distinct_update)

lemma entries_ok_delete: "entries_ok ok f m \<Longrightarrow> entries_ok ok f (AList.delete p m)"
  by (auto simp: entries_ok_def delete_conv' distinct_delete map_of_eq_None_iff split: if_splits)

lemma entries_ok_entry: "entries_ok ok f m \<Longrightarrow> map_of m p = Some e \<Longrightarrow> entry_ok ok f p e"
  by (simp add: entries_ok_def)

lemma entries_ok_distinct: "entries_ok ok f m \<Longrightarrow> distinct (map fst m)"
  by (simp add: entries_ok_def)

lemma entries_ok_batch:
  assumes "entries_ok ok f m"
  shows "batch_wf ok m \<and> fresh_ok m f"
proof -
  have "entry_ok ok f p e" if "(p, e) \<in> set m" for p e
    using assms that map_of_is_SomeI[of m p e] by (simp add: entries_ok_def)
  then show ?thesis using entries_ok_distinct[OF assms] by (auto simp: batch_wf_def fresh_ok_def list_all_iff entry_ok_def)
qed

lemma apply_batch_entries:
  assumes "entries_ok ok f m"
  shows "apply_batch m f p = (case map_of m p of Some e \<Rightarrow> entry_coin e | None \<Rightarrow> f p)"
  using entries_ok_entry[OF assms, of p] by (auto simp: apply_batch_def entry_ok_def entry_coin_def split: option.splits)

lemma entry_coin_simps [simp]:
  "entry_coin e = None \<longleftrightarrow> IsSpent (ce_coin e)" "None = entry_coin e \<longleftrightarrow> IsSpent (ce_coin e)" "\<not> IsSpent (ce_coin e) \<Longrightarrow> entry_coin e = Some (ce_coin e)"
  by (auto simp: entry_coin_def)

lemma IsSpent_coinEmpty [simp]: "IsSpent coinEmpty"
  by (simp add: IsSpent_def coinEmpty_def CTxOut_IsNull_def CTxOut_null_def)

lemma cache_coins_update:
  "cache_coins coins_of (c\<lparr>cacheCoins := AList.update p e (cacheCoins c), cachedCoinsUsage := u\<rparr>) = (cache_coins coins_of c)(p := entry_coin e)"
  by (rule ext) (simp add: cache_coins_def update_conv' split: option.split)

lemma cache_coins_delete:
  "cache_coins coins_of (c\<lparr>cacheCoins := AList.delete p (cacheCoins c), cachedCoinsUsage := u\<rparr>) = (cache_coins coins_of c)(p := coins_of (cv_base c) p)"
  by (rule ext) (simp add: cache_coins_def delete_conv' split: option.split)

lemma write_entry_ok:
  assumes I: "cache_inv binv coins_of ok usage c" and v: "valid_outpoint p" and k: "ce_DIRTY it \<and> \<not> IsSpent (ce_coin it) \<longrightarrow> ok (ce_coin it)"
    and fr: "ce_DIRTY it \<and> ce_FRESH it \<longrightarrow> cache_coins coins_of c p = None"
  shows "\<exists>c'. write_entry usage p it c = Inr c' \<and> cache_inv binv coins_of ok usage c'
    \<and> cache_coins coins_of c' = (if ce_DIRTY it then (cache_coins coins_of c)(p := entry_coin it) else cache_coins coins_of c)"
proof (cases "ce_DIRTY it")
  case dirty: True
  note E = I[unfolded cache_inv_def]
  let ?f = "coins_of (cv_base c)"
  show ?thesis
  proof (cases "map_of (cacheCoins c) p")
    case None
    then have f: "cache_coins coins_of c p = ?f p" by (simp add: cache_coins_def)
    show ?thesis
    proof (cases "ce_FRESH it \<and> IsSpent (ce_coin it)")
      case True
      then show ?thesis using None dirty I fr f by (auto simp: write_entry_def fun_eq_iff)
    next
      case False
      then have "write_entry usage p it c = Inr (c\<lparr>cacheCoins := AList.update p \<lparr>ce_coin = ce_coin it, ce_DIRTY = True, ce_FRESH = ce_FRESH it\<rparr> (cacheCoins c),
          cachedCoinsUsage := cachedCoinsUsage c + usage (ce_coin it)\<rparr>)" using None dirty by (auto simp: write_entry_def)
      moreover have "entry_ok ok ?f p \<lparr>ce_coin = ce_coin it, ce_DIRTY = True, ce_FRESH = ce_FRESH it\<rparr>" using v k fr f dirty by (simp add: entry_ok_def)
      ultimately show ?thesis using E None dirty
        by (simp add: cache_inv_def cache_coins_update entries_ok_update usage_sum_new) (simp add: entry_coin_def)
    qed
  next
    case (Some us)
    note us = entries_ok_entry[OF E[THEN conjunct2, THEN conjunct1] Some]
    have nf: "\<not> (ce_FRESH it \<and> \<not> IsSpent (ce_coin us))" using fr dirty Some by (auto simp: cache_coins_def)
    show ?thesis
    proof (cases "ce_FRESH us \<and> IsSpent (ce_coin it)")
      case True
      then show ?thesis using Some dirty nf E us
        by (auto simp: write_entry_def cache_inv_def cache_coins_delete entries_ok_delete usage_sum_delete entries_ok_distinct entry_ok_def)
    next
      case False
      then have "write_entry usage p it c = Inr (c\<lparr>cacheCoins := AList.update p (us\<lparr>ce_coin := ce_coin it, ce_DIRTY := True\<rparr>) (cacheCoins c),
          cachedCoinsUsage := cachedCoinsUsage c - usage (ce_coin us) + usage (ce_coin it)\<rparr>)" using Some dirty nf by (auto simp: write_entry_def)
      moreover have "entry_ok ok ?f p (us\<lparr>ce_coin := ce_coin it, ce_DIRTY := True\<rparr>)" using v k us dirty by (simp add: entry_ok_def)
      ultimately show ?thesis using E Some dirty
        by (simp add: cache_inv_def cache_coins_update entries_ok_update usage_sum_update) (simp add: entry_coin_def)
    qed
  qed
qed (use I in \<open>simp add: write_entry_def\<close>)

lemma apply_batch_Cons:
  assumes "p \<notin> fst ` set m"
  shows "apply_batch ((p, e) # m) f = apply_batch m (if ce_DIRTY e then f(p := entry_coin e) else f)"
proof
  fix q
  have "map_of m p = None" using assms by (simp only: map_of_eq_None_iff not_False_eq_True)
  then show "apply_batch ((p, e) # m) f q = apply_batch m (if ce_DIRTY e then f(p := entry_coin e) else f) q"
    by (cases "q = p") (simp_all add: apply_batch_def entry_coin_def split: option.split)
qed

lemma fresh_ok_cong:
  assumes "\<And>q. q \<in> fst ` set m \<Longrightarrow> f q = g q"
  shows "fresh_ok m f = fresh_ok m g"
proof -
  have "(case x of (p, e) \<Rightarrow> ce_DIRTY e \<and> ce_FRESH e \<longrightarrow> f p = None) = (case x of (p, e) \<Rightarrow> ce_DIRTY e \<and> ce_FRESH e \<longrightarrow> g p = None)"
    if "x \<in> set m" for x using assms[of "fst x"] that by (simp add: case_prod_beta)
  then show ?thesis unfolding fresh_ok_def by (intro list.pred_cong refl)
qed

lemma write_entries_ok:
  assumes "cache_inv binv coins_of ok usage c" "batch_wf ok m" "fresh_ok m (cache_coins coins_of c)"
  shows "\<exists>c'. write_entries usage m c = Inr c' \<and> cache_inv binv coins_of ok usage c' \<and> cache_coins coins_of c' = apply_batch m (cache_coins coins_of c)"
  using assms
proof (induction m arbitrary: c)
  case Nil
  then show ?case by (simp add: apply_batch_def fun_eq_iff)
next
  case (Cons x m)
  obtain p it where x: "x = (p, it)" by (cases x)
  have p: "p \<notin> fst ` set m" "valid_outpoint p" "ce_DIRTY it \<and> \<not> IsSpent (ce_coin it) \<longrightarrow> ok (ce_coin it)" "batch_wf ok m"
    "ce_DIRTY it \<and> ce_FRESH it \<longrightarrow> cache_coins coins_of c p = None"
    using Cons.prems(2,3) by (auto simp: batch_wf_def fresh_ok_def x)
  from write_entry_ok[OF Cons.prems(1) p(2,3,5)] obtain c' where c': "write_entry usage p it c = Inr c'" "cache_inv binv coins_of ok usage c'"
    "cache_coins coins_of c' = (if ce_DIRTY it then (cache_coins coins_of c)(p := entry_coin it) else cache_coins coins_of c)" by blast
  have "q \<noteq> p" if "q \<in> fst ` set m" for q using that p(1) by blast
  then have "fresh_ok m (cache_coins coins_of c') = fresh_ok m (cache_coins coins_of c)"
    by (intro fresh_ok_cong) (simp add: c'(3))
  then have "fresh_ok m (cache_coins coins_of c')" using Cons.prems(3) by (simp add: fresh_ok_def)
  then show ?case using Cons.IH[OF c'(2) p(4)] c'(1,3) by (simp add: x apply_batch_Cons[OF p(1)])
qed

lemma cache_best_simps [simp]:
  "cache_best best (c\<lparr>cacheCoins := m, cachedCoinsUsage := u\<rparr>) = cache_best best c"
  by (simp add: cache_best_def)

lemma cache_coins_base: "coins_of b = coins_of (cv_base c) \<Longrightarrow> cache_coins coins_of (c\<lparr>cv_base := b\<rparr>) = cache_coins coins_of c"
  by (rule ext) (simp add: cache_coins_def split: option.split)

lemma cache_coins_hashBlock [simp]: "cache_coins coins_of (c\<lparr>hashBlock := h\<rparr>) = cache_coins coins_of c"
  by (rule ext) (simp add: cache_coins_def split: option.split)

context coins_view
begin

abbreviation (input) "cinv \<equiv> cache_inv inv coins_of ok"

lemma FetchCoin_spec:
  assumes I: "cinv usage c" and v: "valid_outpoint p" and F: "FetchCoin V usage p c = (r, c')"
  shows "cinv usage c'" "cache_coins coins_of c' = cache_coins coins_of c" "cache_best best c' = cache_best best c"
    "r = map_of (cacheCoins c') p" "cache_coins coins_of c p = Option.bind r entry_coin" "hashBlock c' = hashBlock c"
proof -
  note E = I[unfolded cache_inv_def]
  obtain b where rs: "view_GetCoin V p (cv_base c) = (coins_of (cv_base c) p, b)"
    using GetCoin_result[of "cv_base c" p] E v by (metis prod.collapse)
  then have st: "inv b" "coins_of b = coins_of (cv_base c)" "best b = best (cv_base c)" using GetCoin_state[of "cv_base c" p] E v by simp_all
  have "cinv usage c' \<and> cache_coins coins_of c' = cache_coins coins_of c \<and> cache_best best c' = cache_best best c
    \<and> r = map_of (cacheCoins c') p \<and> cache_coins coins_of c p = Option.bind r entry_coin \<and> hashBlock c' = hashBlock c"
  proof (cases "map_of (cacheCoins c) p")
    case (Some e)
    then have "r = Some e" "c' = c" using F by (auto simp: FetchCoin_def)
    then show ?thesis using I Some by (simp add: cache_coins_def)
  next
    case miss: None
    show ?thesis
    proof (cases "coins_of (cv_base c) p")
      case None
      then have "r = None" "c' = c\<lparr>cv_base := b\<rparr>" using F miss rs by (auto simp: FetchCoin_def)
      then show ?thesis using E miss st None
        by (simp add: cache_inv_def cache_coins_base cache_best_def) (simp add: cache_coins_def)
    next
      case (Some coin)
      let ?e = "\<lparr>ce_coin = coin, ce_DIRTY = False, ce_FRESH = IsSpent coin\<rparr>"
      have k: "\<not> IsSpent coin" "ok coin" using coins_ok[of "cv_base c" p] E Some by auto
      have rc: "r = Some ?e" "c' = c\<lparr>cv_base := b, cacheCoins := AList.update p ?e (cacheCoins c), cachedCoinsUsage := cachedCoinsUsage c + usage coin\<rparr>"
        using F miss rs Some by (auto simp: FetchCoin_def Let_def)
      have "entry_ok ok (coins_of (cv_base c)) p ?e" using k v Some by (simp add: entry_ok_def)
      then have "cinv usage c'" using E st miss by (simp add: rc cache_inv_def entries_ok_update usage_sum_new)
      moreover have "cache_coins coins_of c' = cache_coins coins_of c"
        using st(2) Some miss k(1) by (auto simp: rc cache_coins_def update_conv' fun_eq_iff split: option.split)
      ultimately show ?thesis using st(3) Some miss k(1) by (simp add: rc cache_best_def cache_coins_def update_conv')
    qed
  qed
  then show "cinv usage c'" "cache_coins coins_of c' = cache_coins coins_of c" "cache_best best c' = cache_best best c"
    "r = map_of (cacheCoins c') p" "cache_coins coins_of c p = Option.bind r entry_coin" "hashBlock c' = hashBlock c" by blast+
qed

lemma cache_coins_ok:
  assumes "cinv usage c" "cache_coins coins_of c p = Some coin"
  shows "\<not> IsSpent coin \<and> ok coin"
  using assms entries_ok_entry[of ok "coins_of (cv_base c)" "cacheCoins c" p] coins_ok[of "cv_base c" p coin]
  by (auto simp: cache_inv_def cache_coins_def entry_coin_def entry_ok_def split: option.splits if_splits)

lemma cache_GetCoin_spec:
  assumes I: "cinv usage c" and v: "valid_outpoint p" and G: "cache_GetCoin V usage p c = (r, c')"
  shows "r = cache_coins coins_of c p" "cinv usage c'" "cache_coins coins_of c' = cache_coins coins_of c" "cache_best best c' = cache_best best c"
proof -
  obtain q c2 where F: "FetchCoin V usage p c = (q, c2)" by force
  note S = FetchCoin_spec[OF I v F]
  have "c' = c2" "r = Option.bind q entry_coin" using G F by (auto simp: cache_GetCoin_def entry_coin_def split: option.splits)
  then show "r = cache_coins coins_of c p" "cinv usage c'" "cache_coins coins_of c' = cache_coins coins_of c" "cache_best best c' = cache_best best c"
    using S by simp_all
qed

lemma cache_GetBestBlock_spec:
  assumes I: "cinv usage c" and G: "cache_GetBestBlock V c = (h, c')"
  shows "h = cache_best best c" "cinv usage c'" "cache_coins coins_of c' = cache_coins coins_of c" "cache_best best c' = cache_best best c"
proof -
  obtain b where b: "view_GetBestBlock V (cv_base c) = (best (cv_base c), b)"
    using GetBestBlock_result[of "cv_base c"] I by (metis cache_inv_def prod.collapse)
  then have st: "inv b" "coins_of b = coins_of (cv_base c)" "best b = best (cv_base c)"
    using GetBestBlock_state[of "cv_base c"] I by (simp_all add: cache_inv_def)
  have "h = cache_best best c \<and> cinv usage c' \<and> cache_coins coins_of c' = cache_coins coins_of c \<and> cache_best best c' = cache_best best c"
  proof (cases "hashBlock c = uint256_null")
    case True
    then have "h = best (cv_base c)" "c' = c\<lparr>cv_base := b, hashBlock := best (cv_base c)\<rparr>" using G b by (auto simp: cache_GetBestBlock_def)
    then show ?thesis using True st I by (simp add: cache_best_def cache_inv_def cache_coins_base)
  qed (use I G in \<open>auto simp: cache_GetBestBlock_def cache_best_def\<close>)
  then show "h = cache_best best c" "cinv usage c'" "cache_coins coins_of c' = cache_coins coins_of c" "cache_best best c' = cache_best best c" by blast+
qed

lemma cache_BatchWrite_spec:
  assumes "cinv usage c" "batch_wf ok m" "fresh_ok m (cache_coins coins_of c)" "h \<noteq> uint256_null"
  shows "\<exists>c'. cache_BatchWrite usage m h c = Inr (True, c') \<and> cinv usage c'
    \<and> cache_coins coins_of c' = apply_batch m (cache_coins coins_of c) \<and> cache_best best c' = h"
proof -
  obtain c' where c': "write_entries usage m c = Inr c'" "cinv usage c'" "cache_coins coins_of c' = apply_batch m (cache_coins coins_of c)"
    using write_entries_ok[OF assms(1-3)] by blast
  then show ?thesis using assms(4) by (simp add: cache_BatchWrite_def cache_inv_def cache_best_def)
qed

text \<open>A cache is a view again.\<close>

lemma cache_is_view: "coins_view (cache_view V usage) (cinv usage) (cache_coins coins_of) (cache_best best) ok"
proof (unfold_locales, goal_cases)
  case (1 c p coin)
  then show ?case by (rule cache_coins_ok)
next
  case (2 c p)
  then show ?case using cache_GetCoin_spec(1)[OF 2] by (simp add: cache_view_def prod_eq_iff)
next
  case (3 c p)
  then show ?case using cache_GetCoin_spec(2-4)[OF 3] by (metis cache_view_def CCoinsView.select_convs(1) prod.collapse)
next
  case (4 c)
  then show ?case using cache_GetBestBlock_spec(1)[OF 4] by (simp add: cache_view_def prod_eq_iff)
next
  case (5 c)
  then show ?case using cache_GetBestBlock_spec(2-4)[OF 5] by (metis cache_view_def CCoinsView.select_convs(2) prod.collapse)
next
  case (6 c m h)
  then show ?case using cache_BatchWrite_spec[of usage c m h] by (simp add: cache_view_def)
qed

end

subsection \<open>The operations of a cache\<close>

context coins_view
begin

lemma AddCoin_spec:
  assumes I: "cache_inv inv coins_of ok usage c" and v: "valid_outpoint p" and k: "\<not> IsSpent coin" "ok coin"
    and s: "\<not> IsUnspendable (scriptPubKey (coin_out coin))" and w: "ow \<or> cache_coins coins_of c p = None"
  shows "\<exists>c'. AddCoin usage p coin ow c = Inr c' \<and> cache_inv inv coins_of ok usage c'
    \<and> cache_coins coins_of c' = (cache_coins coins_of c)(p := Some coin) \<and> cache_best best c' = cache_best best c"
proof -
  note E = I[unfolded cache_inv_def]
  let ?f = "coins_of (cv_base c)"
  show ?thesis
  proof (cases "map_of (cacheCoins c) p")
    case None
    let ?e = "\<lparr>ce_coin = coin, ce_DIRTY = True, ce_FRESH = \<not> ow\<rparr>"
    have "AddCoin usage p coin ow c = Inr (c\<lparr>cacheCoins := AList.update p ?e (cacheCoins c), cachedCoinsUsage := cachedCoinsUsage c + usage coin\<rparr>)"
      using None k s by (simp add: AddCoin_def Let_def)
    moreover have "entry_ok ok ?f p ?e" using None k v w by (auto simp: entry_ok_def cache_coins_def)
    ultimately show ?thesis using E None k(1)
      by (simp add: cache_inv_def cache_coins_update entries_ok_update usage_sum_new)
  next
    case (Some e)
    let ?e = "\<lparr>ce_coin = coin, ce_DIRTY = True, ce_FRESH = ce_FRESH e \<or> \<not> ow \<and> \<not> ce_DIRTY e\<rparr>"
    have sp: "ow \<or> IsSpent (ce_coin e)" using w Some by (auto simp: cache_coins_def)
    have "AddCoin usage p coin ow c = Inr (c\<lparr>cacheCoins := AList.update p ?e (cacheCoins c),
        cachedCoinsUsage := cachedCoinsUsage c - usage (ce_coin e) + usage coin\<rparr>)"
      using Some k s sp by (auto simp: AddCoin_def Let_def)
    moreover have "entry_ok ok ?f p ?e"
      using entries_ok_entry[OF E[THEN conjunct2, THEN conjunct1] Some] k v sp by (auto simp: entry_ok_def)
    ultimately show ?thesis using E Some k(1)
      by (simp add: cache_inv_def cache_coins_update entries_ok_update usage_sum_update)
  qed
qed

lemma spend_entry_spec:
  assumes I: "cache_inv inv coins_of ok usage c" and v: "valid_outpoint p" and z: "usage coinEmpty = 0"
    and S: "spend_entry V usage p c = (r, c')"
  shows "cache_inv inv coins_of ok usage c'" "cache_coins coins_of c' = (cache_coins coins_of c)(p := None)"
    "cache_best best c' = cache_best best c" "cache_coins coins_of c p = Option.bind r (\<lambda>coin. if IsSpent coin then None else Some coin)"
proof -
  obtain q c2 where F: "FetchCoin V usage p c = (q, c2)" by force
  note D = FetchCoin_spec[OF I v F]
  note E = D(1)[unfolded cache_inv_def]
  have "cache_inv inv coins_of ok usage c' \<and> cache_coins coins_of c' = (cache_coins coins_of c)(p := None)
    \<and> cache_best best c' = cache_best best c \<and> cache_coins coins_of c p = Option.bind r (\<lambda>coin. if IsSpent coin then None else Some coin)"
  proof (cases q)
    case None
    then have "r = None" "c' = c2" using S F by (auto simp: spend_entry_def)
    then show ?thesis using D None by (simp add: fun_upd_idem)
  next
    case (Some e)
    then have m: "map_of (cacheCoins c2) p = Some e" using D(4) by simp
    note eo = entries_ok_entry[OF E[THEN conjunct2, THEN conjunct1] m]
    have r: "r = Some (ce_coin e)" using S F Some by (auto simp: spend_entry_def)
    show ?thesis
    proof (cases "ce_FRESH e")
      case True
      then have c': "c' = c2\<lparr>cacheCoins := AList.delete p (cacheCoins c2), cachedCoinsUsage := cachedCoinsUsage c2 - usage (ce_coin e)\<rparr>"
        using S F Some by (auto simp: spend_entry_def)
      have "coins_of (cv_base c2) p = None" using eo True by (simp add: entry_ok_def)
      then show ?thesis using E D r Some m entries_ok_distinct[OF E[THEN conjunct2, THEN conjunct1]]
        by (simp add: c' cache_inv_def cache_coins_delete entries_ok_delete usage_sum_delete entry_coin_def)
    next
      case False
      let ?e = "\<lparr>ce_coin = coinEmpty, ce_DIRTY = True, ce_FRESH = False\<rparr>"
      have c': "c' = c2\<lparr>cacheCoins := AList.update p ?e (cacheCoins c2), cachedCoinsUsage := cachedCoinsUsage c2 - usage (ce_coin e)\<rparr>"
        using S F Some False by (auto simp: spend_entry_def)
      have "entry_ok ok (coins_of (cv_base c2)) p ?e" using v by (simp add: entry_ok_def)
      moreover have "entry_coin ?e = None" by simp
      ultimately show ?thesis using E D r Some m z
        by (simp add: c' cache_inv_def cache_coins_update entries_ok_update usage_sum_update) (simp add: entry_coin_def)
    qed
  qed
  then show "cache_inv inv coins_of ok usage c'" "cache_coins coins_of c' = (cache_coins coins_of c)(p := None)"
    "cache_best best c' = cache_best best c" "cache_coins coins_of c p = Option.bind r (\<lambda>coin. if IsSpent coin then None else Some coin)"
    by blast+
qed

lemma Uncache_spec:
  assumes I: "cache_inv inv coins_of ok usage c"
  shows "cache_inv inv coins_of ok usage (Uncache usage p c)" "cache_coins coins_of (Uncache usage p c) = cache_coins coins_of c"
    "cache_best best (Uncache usage p c) = cache_best best c"
proof -
  note E = I[unfolded cache_inv_def]
  have "cache_inv inv coins_of ok usage (Uncache usage p c) \<and> cache_coins coins_of (Uncache usage p c) = cache_coins coins_of c
    \<and> cache_best best (Uncache usage p c) = cache_best best c"
  proof (cases "map_of (cacheCoins c) p")
    case None
    then show ?thesis using I by (simp add: Uncache_def)
  next
    case (Some e)
    show ?thesis
    proof (cases "\<not> ce_DIRTY e \<and> \<not> ce_FRESH e")
      case True
      then have "coins_of (cv_base c) p = cache_coins coins_of c p"
        using Some entries_ok_entry[OF E[THEN conjunct2, THEN conjunct1] Some] by (simp add: entry_ok_def cache_coins_def)
      then show ?thesis using E Some True entries_ok_distinct[OF E[THEN conjunct2, THEN conjunct1]]
        by (simp add: Uncache_def cache_inv_def cache_coins_delete entries_ok_delete usage_sum_delete)
    qed (use I Some in \<open>auto simp: Uncache_def\<close>)
  qed
  then show "cache_inv inv coins_of ok usage (Uncache usage p c)" "cache_coins coins_of (Uncache usage p c) = cache_coins coins_of c"
    "cache_best best (Uncache usage p c) = cache_best best c" by blast+
qed

lemma Flush_spec:
  assumes I: "cache_inv inv coins_of ok usage c" and h: "hashBlock c \<noteq> uint256_null" "length (hashBlock c) = 32"
  shows "\<exists>c'. Flush V c = Inr (True, c') \<and> cache_inv inv coins_of ok usage c' \<and> cache_coins coins_of c' = cache_coins coins_of c
    \<and> cache_best best c' = cache_best best c \<and> coins_of (cv_base c') = cache_coins coins_of c \<and> best (cv_base c') = hashBlock c"
proof -
  note E = I[unfolded cache_inv_def]
  let ?m = "cacheCoins c"
  obtain b where b: "view_BatchWrite V ?m (hashBlock c) (cv_base c) = Inr (True, b)" "inv b"
      "coins_of b = apply_batch ?m (coins_of (cv_base c))" "best b = hashBlock c"
    using BatchWrite[of "cv_base c" ?m "hashBlock c"] E h entries_ok_batch[of ok "coins_of (cv_base c)" ?m] by blast
  have eq: "coins_of b = cache_coins coins_of c"
    by (rule ext) (use E in \<open>simp add: b(3) cache_coins_def apply_batch_entries[of ok]\<close>)
  let ?c = "c\<lparr>cv_base := b, cacheCoins := [], cachedCoinsUsage := 0\<rparr>"
  have "cache_coins coins_of ?c = coins_of b" by (rule ext) (simp add: cache_coins_def)
  then show ?thesis using b h eq
    by (simp add: Flush_def cache_inv_def entries_ok_def usage_sum_def cache_best_def)
qed

end

subsection \<open>Sequences of operations\<close>

text \<open>The operations that validation performs on a cache, what each shows to its caller, and the same operations on a
  partial function with a best block. A spend shows the unspent coin that it removes. The boolean of \<open>SpendCoin\<close> is not shown:
  where there is no unspent coin it is true or false depending on whether a spent entry is still cached, which callers
  must not rely on. A flush is preceded by a read of the best block, which loads it from the base.\<close>

datatype cache_op =
  OpGet COutPoint
| OpAdd COutPoint Coin bool
| OpSpend COutPoint
| OpUncache COutPoint
| OpGetBest
| OpSetBest uint256
| OpFlush

datatype cache_obs = ObsCoin "Coin option" | ObsHash uint256 | ObsDone

definition step_cache :: "'v CCoinsView \<Rightarrow> (Coin \<Rightarrow> u64) \<Rightarrow> cache_op \<Rightarrow> 'v CCoinsViewCache \<Rightarrow> (cache_obs \<times> 'v CCoinsViewCache) option" where
  "step_cache V usage oper c =
     (case oper of
        OpGet p \<Rightarrow> (case cache_GetCoin V usage p c of (r, c) \<Rightarrow> Some (ObsCoin r, c))
      | OpAdd p coin ow \<Rightarrow> (case AddCoin usage p coin ow c of Inl _ \<Rightarrow> None | Inr c \<Rightarrow> Some (ObsDone, c))
      | OpSpend p \<Rightarrow> (case spend_entry V usage p c of
          (r, c) \<Rightarrow> Some (ObsCoin (Option.bind r (\<lambda>coin. if IsSpent coin then None else Some coin)), c))
      | OpUncache p \<Rightarrow> Some (ObsDone, Uncache usage p c)
      | OpGetBest \<Rightarrow> (case cache_GetBestBlock V c of (h, c) \<Rightarrow> Some (ObsHash h, c))
      | OpSetBest h \<Rightarrow> Some (ObsDone, SetBestBlock h c)
      | OpFlush \<Rightarrow> (case Flush V (snd (cache_GetBestBlock V c)) of Inl _ \<Rightarrow> None | Inr (fOk, c) \<Rightarrow> if fOk then Some (ObsDone, c) else None))"

definition step_spec :: "cache_op \<Rightarrow> coins \<times> uint256 \<Rightarrow> cache_obs \<times> coins \<times> uint256" where
  "step_spec oper s =
     (case s of (f, h) \<Rightarrow>
       (case oper of
          OpGet p \<Rightarrow> (ObsCoin (f p), s)
        | OpAdd p coin ow \<Rightarrow> (ObsDone, f(p := Some coin), h)
        | OpSpend p \<Rightarrow> (ObsCoin (f p), f(p := None), h)
        | OpUncache p \<Rightarrow> (ObsDone, s)
        | OpGetBest \<Rightarrow> (ObsHash h, s)
        | OpSetBest h \<Rightarrow> (ObsDone, f, h)
        | OpFlush \<Rightarrow> (ObsDone, s)))"

text \<open>What a caller must keep to: a coin is added without \<open>possible_overwrite\<close> only where there is none, and a flush needs a
  best block.\<close>

definition may_do :: "(Coin \<Rightarrow> bool) \<Rightarrow> cache_op \<Rightarrow> coins \<times> uint256 \<Rightarrow> bool" where
  "may_do ok oper s =
     (case s of (f, h) \<Rightarrow>
       (case oper of
          OpGet p \<Rightarrow> valid_outpoint p
        | OpAdd p coin ow \<Rightarrow> valid_outpoint p \<and> \<not> IsSpent coin \<and> ok coin \<and> \<not> IsUnspendable (scriptPubKey (coin_out coin)) \<and> (ow \<or> f p = None)
        | OpSpend p \<Rightarrow> valid_outpoint p
        | OpSetBest h \<Rightarrow> h \<noteq> uint256_null \<and> length h = 32
        | OpFlush \<Rightarrow> h \<noteq> uint256_null \<and> length h = 32
        | _ \<Rightarrow> True))"

fun run_cache :: "'v CCoinsView \<Rightarrow> (Coin \<Rightarrow> u64) \<Rightarrow> cache_op list \<Rightarrow> 'v CCoinsViewCache \<Rightarrow> (cache_obs list \<times> 'v CCoinsViewCache) option" where
  "run_cache V usage [] c = Some ([], c)"
| "run_cache V usage (oper # opers) c =
     (case step_cache V usage oper c of
        None \<Rightarrow> None
      | Some (ob, c) \<Rightarrow> map_option (\<lambda>(obs, c). (ob # obs, c)) (run_cache V usage opers c))"

fun run_spec :: "cache_op list \<Rightarrow> coins \<times> uint256 \<Rightarrow> cache_obs list \<times> coins \<times> uint256" where
  "run_spec [] s = ([], s)"
| "run_spec (oper # opers) s =
     (case step_spec oper s of (ob, s) \<Rightarrow> case run_spec opers s of (obs, s) \<Rightarrow> (ob # obs, s))"

fun may_run :: "(Coin \<Rightarrow> bool) \<Rightarrow> cache_op list \<Rightarrow> coins \<times> uint256 \<Rightarrow> bool" where
  "may_run ok [] s = True"
| "may_run ok (oper # opers) s = (may_do ok oper s \<and> may_run ok opers (snd (step_spec oper s)))"

context coins_view
begin

lemma flush_step:
  assumes I: "cache_inv inv coins_of ok usage c" and h: "cache_best best c \<noteq> uint256_null" "length (cache_best best c) = 32"
  shows "\<exists>c'. Flush V (snd (cache_GetBestBlock V c)) = Inr (True, c') \<and> cache_inv inv coins_of ok usage c'
    \<and> cache_coins coins_of c' = cache_coins coins_of c \<and> cache_best best c' = cache_best best c
    \<and> coins_of (cv_base c') = cache_coins coins_of c \<and> best (cv_base c') = cache_best best c"
proof -
  obtain g c2 where G: "cache_GetBestBlock V c = (g, c2)" by force
  note B = cache_GetBestBlock_spec[OF I G]
  have "hashBlock c2 = g" using G by (auto simp: cache_GetBestBlock_def split: if_splits prod.splits)
  then show ?thesis using Flush_spec[OF B(2)] B h by (auto simp: G)
qed

lemma step_refines:
  assumes I: "cache_inv inv coins_of ok usage c" and z: "usage coinEmpty = 0"
    and m: "may_do ok oper (cache_coins coins_of c, cache_best best c)"
  shows "\<exists>ob c'. step_cache V usage oper c = Some (ob, c') \<and> cache_inv inv coins_of ok usage c'
    \<and> step_spec oper (cache_coins coins_of c, cache_best best c) = (ob, cache_coins coins_of c', cache_best best c')"
proof (cases oper)
  case (OpGet p)
  obtain r c' where "cache_GetCoin V usage p c = (r, c')" by force
  then show ?thesis using cache_GetCoin_spec[OF I, of p r c'] m by (simp add: OpGet step_cache_def step_spec_def may_do_def)
next
  case (OpAdd p coin ow)
  then show ?thesis using AddCoin_spec[OF I, of p coin ow] m by (auto simp: step_cache_def step_spec_def may_do_def)
next
  case (OpSpend p)
  obtain r c' where "spend_entry V usage p c = (r, c')" by force
  then show ?thesis using spend_entry_spec[OF I _ z, of p r c'] m by (simp add: OpSpend step_cache_def step_spec_def may_do_def)
next
  case (OpUncache p)
  then show ?thesis using Uncache_spec[OF I, of p] by (simp add: step_cache_def step_spec_def)
next
  case OpGetBest
  obtain h c' where "cache_GetBestBlock V c = (h, c')" by force
  then show ?thesis using cache_GetBestBlock_spec[OF I, of h c'] by (simp add: OpGetBest step_cache_def step_spec_def)
next
  case (OpSetBest h)
  then show ?thesis using I m by (simp add: step_cache_def step_spec_def may_do_def SetBestBlock_def cache_inv_def cache_best_def)
next
  case OpFlush
  then show ?thesis using flush_step[OF I] m by (auto simp: step_cache_def step_spec_def may_do_def)
qed

lemma run_refines:
  assumes "cache_inv inv coins_of ok usage c" "usage coinEmpty = 0" "may_run ok opers (cache_coins coins_of c, cache_best best c)"
  shows "\<exists>obs c'. run_cache V usage opers c = Some (obs, c') \<and> cache_inv inv coins_of ok usage c'
    \<and> run_spec opers (cache_coins coins_of c, cache_best best c) = (obs, cache_coins coins_of c', cache_best best c')"
  using assms(1,3)
proof (induction opers arbitrary: c)
  case (Cons oper opers)
  obtain ob c2 where S: "step_cache V usage oper c = Some (ob, c2)" "cache_inv inv coins_of ok usage c2"
      "step_spec oper (cache_coins coins_of c, cache_best best c) = (ob, cache_coins coins_of c2, cache_best best c2)"
    using step_refines[OF Cons.prems(1) assms(2)] Cons.prems(2) by fastforce
  then show ?case using Cons.IH[OF S(2)] Cons.prems(2) by auto
qed simp

end

text \<open>The stack that validation uses: a cache for the block at hand, over the cache of the node, over the database.\<close>

interpretation tipv: coins_view "cache_view (db_view pk bs) usage" "cache_inv (db_inv pk) (db_coins pk) (storable_coin pk) usage"
    "cache_coins (db_coins pk)" "cache_best DB_GetBestBlock" "storable_coin pk" for pk bs usage
  by (rule dbv.cache_is_view)

subsection \<open>Inputs\<close>

context coins_view
begin

lemma AccessCoin_spec:
  assumes I: "cache_inv inv coins_of ok usage c" and v: "valid_outpoint p" and A: "AccessCoin V usage p c = (coin, c')"
  shows "cache_inv inv coins_of ok usage c'" "cache_coins coins_of c' = cache_coins coins_of c" "cache_best best c' = cache_best best c"
    "cache_coins coins_of c p = (if IsSpent coin then None else Some coin)"
proof -
  obtain q c2 where F: "FetchCoin V usage p c = (q, c2)" by force
  note D = FetchCoin_spec[OF I v F]
  have "c' = c2" "coin = (case q of None \<Rightarrow> coinEmpty | Some e \<Rightarrow> ce_coin e)" using A F by (auto simp: AccessCoin_def split: option.splits)
  then show "cache_inv inv coins_of ok usage c'" "cache_coins coins_of c' = cache_coins coins_of c" "cache_best best c' = cache_best best c"
    "cache_coins coins_of c p = (if IsSpent coin then None else Some coin)"
    using D by (auto simp: entry_coin_def split: option.splits)
qed

lemma HaveCoin_spec:
  assumes I: "cache_inv inv coins_of ok usage c" and v: "valid_outpoint p" and A: "HaveCoin V usage p c = (b, c')"
  shows "cache_inv inv coins_of ok usage c'" "cache_coins coins_of c' = cache_coins coins_of c" "cache_best best c' = cache_best best c"
    "b \<longleftrightarrow> cache_coins coins_of c p \<noteq> None"
proof -
  obtain q c2 where F: "FetchCoin V usage p c = (q, c2)" by force
  note D = FetchCoin_spec[OF I v F]
  have "c' = c2" "b = (case q of None \<Rightarrow> False | Some e \<Rightarrow> \<not> IsSpent (ce_coin e))" using A F by (auto simp: HaveCoin_def split: option.splits)
  then show "cache_inv inv coins_of ok usage c'" "cache_coins coins_of c' = cache_coins coins_of c" "cache_best best c' = cache_best best c"
    "b \<longleftrightarrow> cache_coins coins_of c p \<noteq> None"
    using D by (auto simp: entry_coin_def split: option.splits if_splits)
qed

lemma have_all_spec:
  assumes "cache_inv inv coins_of ok usage c" "list_all (\<lambda>i. valid_outpoint (prevout i)) ins" "have_all V usage ins c = (b, c')"
  shows "cache_inv inv coins_of ok usage c' \<and> cache_coins coins_of c' = cache_coins coins_of c \<and> cache_best best c' = cache_best best c
    \<and> (b \<longleftrightarrow> list_all (\<lambda>i. cache_coins coins_of c (prevout i) \<noteq> None) ins)"
  using assms
proof (induction ins arbitrary: c)
  case (Cons i ins)
  obtain a c2 where H: "HaveCoin V usage (prevout i) c = (a, c2)" by force
  note S = HaveCoin_spec[OF Cons.prems(1) _ H]
  show ?case
  proof (cases a)
    case True
    then show ?thesis using S Cons.IH[of c2] Cons.prems H by auto
  next
    case False
    then show ?thesis using S Cons.prems H by auto
  qed
qed simp

lemma sum_inputs_spec:
  assumes "cache_inv inv coins_of ok usage c" "list_all (\<lambda>i. valid_outpoint (prevout i)) ins"
    "list_all (\<lambda>i. cache_coins coins_of c (prevout i) \<noteq> None) ins" "sum_inputs V usage ins n c = (r, c')"
  shows "cache_inv inv coins_of ok usage c' \<and> cache_coins coins_of c' = cache_coins coins_of c \<and> cache_best best c' = cache_best best c
    \<and> (r \<noteq> None \<longrightarrow> r = Some (n + (\<Sum>i\<leftarrow>ins. nValue (coin_out (the (cache_coins coins_of c (prevout i)))))))"
  using assms
proof (induction ins arbitrary: c n)
  case (Cons i ins)
  obtain a c2 where H: "AccessCoin V usage (prevout i) c = (a, c2)" by force
  note S = AccessCoin_spec[OF Cons.prems(1) _ H]
  have a: "cache_coins coins_of c (prevout i) = Some a" using S(4) Cons.prems(2,3) by (auto split: if_splits)
  show ?case
  proof (cases "int64 (n + nValue (coin_out a))")
    case True
    then show ?thesis using S Cons.IH[of c2 "n + nValue (coin_out a)"] Cons.prems H a by (auto simp: list_all_iff add.assoc)
  next
    case False
    then show ?thesis using S Cons.prems H by auto
  qed
qed simp

lemma HaveInputs_spec:
  assumes "cache_inv inv coins_of ok usage c" "list_all (\<lambda>i. valid_outpoint (prevout i)) (vin tx)" "\<not> IsCoinBase tx" "HaveInputs V usage tx c = (b, c')"
  shows "cache_inv inv coins_of ok usage c'" "cache_coins coins_of c' = cache_coins coins_of c" "cache_best best c' = cache_best best c"
    "b \<longleftrightarrow> list_all (\<lambda>i. cache_coins coins_of c (prevout i) \<noteq> None) (vin tx)"
  using have_all_spec[OF assms(1,2), of b c'] assms(3,4) by (auto simp: HaveInputs_def)

lemma GetValueIn_spec:
  assumes "cache_inv inv coins_of ok usage c" "list_all (\<lambda>i. valid_outpoint (prevout i)) (vin tx)" "\<not> IsCoinBase tx"
    "list_all (\<lambda>i. cache_coins coins_of c (prevout i) \<noteq> None) (vin tx)" "GetValueIn V usage tx c = (r, c')"
  shows "cache_inv inv coins_of ok usage c'" "cache_coins coins_of c' = cache_coins coins_of c" "cache_best best c' = cache_best best c"
    "r \<noteq> None \<Longrightarrow> r = Some (\<Sum>i\<leftarrow>vin tx. nValue (coin_out (the (cache_coins coins_of c (prevout i)))))"
  using sum_inputs_spec[OF assms(1,2,4), of 0 r c'] assms(3,5) by (auto simp: GetValueIn_def)

end

subsection \<open>Properties\<close>

definition tip_view :: "pubkey_ops \<Rightarrow> nat \<Rightarrow> (Coin \<Rightarrow> u64) \<Rightarrow> CDBWrapper CCoinsViewCache CCoinsView" where
  "tip_view pk bs usage = cache_view (db_view pk bs) usage"

definition stack_inv :: "pubkey_ops \<Rightarrow> (Coin \<Rightarrow> u64) \<Rightarrow> CDBWrapper CCoinsViewCache CCoinsViewCache \<Rightarrow> bool" where
  "stack_inv pk usage = cache_inv (cache_inv (db_inv pk) (db_coins pk) (storable_coin pk) usage) (cache_coins (db_coins pk)) (storable_coin pk) usage"

definition stack_coins :: "pubkey_ops \<Rightarrow> CDBWrapper CCoinsViewCache CCoinsViewCache \<Rightarrow> coins" where
  "stack_coins pk = cache_coins (cache_coins (db_coins pk))"

definition stack_best :: "CDBWrapper CCoinsViewCache CCoinsViewCache \<Rightarrow> uint256" where
  "stack_best = cache_best (cache_best DB_GetBestBlock)"

lemmas stack_defs = tip_view_def stack_inv_def stack_coins_def stack_best_def

text \<open>A small database, two tips, an outpoint, and a map with one new coin.\<close>

definition sample_db :: CDBWrapper where
  "sample_db = \<lparr>db_data = Map.empty, obfuscate_key = [1, 2, 3]\<rparr>"

definition sample_stack :: "CDBWrapper CCoinsViewCache CCoinsViewCache" where
  "sample_stack = CCoinsViewCache_make (CCoinsViewCache_make sample_db)"

definition sample_tip :: uint256 where
  "sample_tip = replicate 32 7"

definition sample_outpoint :: COutPoint where
  "sample_outpoint = \<lparr>out_hash = replicate 32 1, out_n = 3\<rparr>"

definition sample_map :: CCoinsMap where
  "sample_map = [(sample_outpoint, \<lparr>ce_coin = sample_coin, ce_DIRTY = True, ce_FRESH = True\<rparr>)]"

definition sample_usage :: "Coin \<Rightarrow> u64" where
  "sample_usage coin = of_nat (length (scriptPubKey (coin_out coin)))"

lemma sample_tip_simps [simp]: "sample_tip \<noteq> uint256_null" "length sample_tip = 32"
  by (simp_all add: sample_tip_def uint256_null_def)

lemma sample_outpoint_valid [simp]: "valid_outpoint sample_outpoint"
  by (simp add: sample_outpoint_def valid_outpoint_def)

lemma sample_coin_unspent [simp]: "\<not> IsSpent sample_coin"
  by (simp add: sample_coin_def IsSpent_def CTxOut_IsNull_def)

lemma sample_usage_zero [simp]: "sample_usage coinEmpty = 0"
  by (simp add: sample_usage_def coinEmpty_def CTxOut_null_def)

lemma sample_coin_storable [simp]: "storable_coin sample_pubkey_ops sample_coin"
proof -
  have "IsToPubKey sample_pubkey_ops (65 # sample_key @ [172]) = Some sample_key" by code_simp
  moreover have "key_decompresses sample_pubkey_ops sample_key" by code_simp
  ultimately show ?thesis by (simp add: storable_coin_def sample_coin_def script_key_ok_def sample_key_def)
qed

lemma sample_coin_spendable [simp]: "\<not> IsUnspendable (scriptPubKey (coin_out sample_coin))"
  by code_simp

lemma sample_db_simps [simp]:
  "db_coins pk sample_db = (\<lambda>_. None)" "DB_GetBestBlock sample_db = uint256_null" "GetHeadBlocks sample_db = []" "obfuscate_key sample_db = [1, 2, 3]"
  by (simp_all add: sample_db_def db_coins_def DB_GetCoin_def db_Read_def DB_GetBestBlock_def GetHeadBlocks_def fun_eq_iff)

lemma sample_map_wf [simp]: "batch_wf (storable_coin sample_pubkey_ops) sample_map"
  by (simp add: batch_wf_def sample_map_def)

lemma sample_writable [simp]: "writable sample_tip sample_db" "old_tip_of sample_db = uint256_null"
  by (simp_all add: writable_def old_tip_of_def)

lemma sample_stack_inv: "stack_inv pk usage sample_stack"
  by (simp add: stack_inv_def sample_stack_def CCoinsViewCache_make_def cache_inv_def entries_ok_def usage_sum_def db_inv_def)

lemma sample_stack_coins: "stack_coins pk sample_stack = (\<lambda>_. None)" "stack_best sample_stack = uint256_null"
  by (auto simp: stack_coins_def stack_best_def sample_stack_def CCoinsViewCache_make_def cache_coins_def cache_best_def fun_eq_iff)

lemma cache_inv_SetBestBlock [simp]: "cache_inv binv coins_of ok usage (SetBestBlock h c) = cache_inv binv coins_of ok usage c"
  by (simp add: cache_inv_def SetBestBlock_def)

lemma Flush_clears: "Flush V c = Inr (fOk, c') \<Longrightarrow> cacheCoins c' = []"
  by (auto simp: Flush_def split: sum.splits)

text \<open>C6. The caches implement a partial function from outpoints to coins together with a best block. A cache over the
  cache of the node over the database, in a state with the invariant, carries out every sequence of reads, additions,
  spends, evictions and flushes that keeps to the rules for callers, no matter which entries are cached at which level and
  with which flags. Every observation is the one on the partial function, and the invariant holds again at the end; it
  says what the flags DIRTY and FRESH promise and that the memory accounted for is the memory used.\<close>

theorem cache_refines_coins:
  assumes "stack_inv pk usage c" "usage coinEmpty = 0" "may_run (storable_coin pk) opers (stack_coins pk c, stack_best c)"
  shows "\<exists>obs c'. run_cache (tip_view pk bs usage) usage opers c = Some (obs, c') \<and> stack_inv pk usage c'
    \<and> run_spec opers (stack_coins pk c, stack_best c) = (obs, stack_coins pk c', stack_best c')"
  using tipv.run_refines[of pk usage usage c opers bs] assms by (simp add: stack_defs)

theorem cache_refines_coins_witness:
  "\<exists>c'. run_cache (tip_view sample_pubkey_ops 100 sample_usage) sample_usage
     [OpSetBest sample_tip, OpAdd sample_outpoint sample_coin False, OpFlush, OpGet sample_outpoint, OpSpend sample_outpoint,
      OpFlush, OpGet sample_outpoint, OpGetBest] sample_stack
   = Some ([ObsDone, ObsDone, ObsDone, ObsCoin (Some sample_coin), ObsCoin (Some sample_coin), ObsDone, ObsCoin None, ObsHash sample_tip], c')"
  using cache_refines_coins[of sample_pubkey_ops sample_usage sample_stack "[OpSetBest sample_tip, OpAdd sample_outpoint sample_coin False,
      OpFlush, OpGet sample_outpoint, OpSpend sample_outpoint, OpFlush, OpGet sample_outpoint, OpGetBest]" 100]
  by (auto simp: sample_stack_inv sample_stack_coins may_do_def step_spec_def)

text \<open>C17. Flushing the cache of a block and then the cache of the node brings the database to exactly the coins and the best
  block that the stack of caches stood for; nothing stays behind in either cache.\<close>

theorem flush_reaches_database:
  assumes "stack_inv pk usage c" "stack_best c \<noteq> uint256_null" "length (stack_best c) = 32"
  shows "\<exists>c' t. Flush (tip_view pk bs usage) (snd (cache_GetBestBlock (tip_view pk bs usage) c)) = Inr (True, c') \<and> cacheCoins c' = []
    \<and> Flush (db_view pk bs) (snd (cache_GetBestBlock (db_view pk bs) (cv_base c'))) = Inr (True, t) \<and> cacheCoins t = []
    \<and> db_coins pk (cv_base t) = stack_coins pk c \<and> DB_GetBestBlock (cv_base t) = stack_best c"
proof -
  obtain c' where c': "Flush (tip_view pk bs usage) (snd (cache_GetBestBlock (tip_view pk bs usage) c)) = Inr (True, c')"
      "cache_inv (db_inv pk) (db_coins pk) (storable_coin pk) usage (cv_base c')"
      "cache_coins (db_coins pk) (cv_base c') = stack_coins pk c" "cache_best DB_GetBestBlock (cv_base c') = stack_best c"
    using tipv.flush_step[of pk usage usage c bs] assms by (auto simp: stack_defs cache_inv_def)
  obtain t where t: "Flush (db_view pk bs) (snd (cache_GetBestBlock (db_view pk bs) (cv_base c'))) = Inr (True, t)"
      "db_coins pk (cv_base t) = stack_coins pk c" "DB_GetBestBlock (cv_base t) = stack_best c"
    using dbv.flush_step[OF c'(2), of bs] assms(2,3) c'(3,4) by auto
  show ?thesis using c'(1) t Flush_clears[OF c'(1)] Flush_clears[OF t(1)] by blast
qed

theorem flush_reaches_database_witness:
  "\<exists>c' t. Flush (tip_view sample_pubkey_ops 0 sample_usage)
       (snd (cache_GetBestBlock (tip_view sample_pubkey_ops 0 sample_usage) (SetBestBlock sample_tip sample_stack))) = Inr (True, c')
    \<and> Flush (db_view sample_pubkey_ops 0) (snd (cache_GetBestBlock (db_view sample_pubkey_ops 0) (cv_base c'))) = Inr (True, t)
    \<and> DB_GetBestBlock (cv_base t) = sample_tip"
proof -
  have "stack_inv sample_pubkey_ops sample_usage (SetBestBlock sample_tip sample_stack)"
    using sample_stack_inv[of sample_pubkey_ops sample_usage] by (simp add: stack_inv_def)
  moreover have b: "stack_best (SetBestBlock sample_tip sample_stack) = sample_tip" by (simp add: stack_best_def SetBestBlock_def cache_best_def)
  ultimately show ?thesis using flush_reaches_database[of sample_pubkey_ops sample_usage "SetBestBlock sample_tip sample_stack" 0] by auto
qed

lemma Exit_coins:
  assumes "writable h db" "batch_wf (storable_coin pk) m" "DB_BatchWrite pk bs crash m h db = Inr (Exit db')"
  shows "db_coins pk db' p \<in> {db_coins pk db p, apply_batch m (db_coins pk db) p}"
proof -
  obtain j where j: "db_coins pk db' = apply_batch (take j m) (db_coins pk db)" using DB_BatchWrite_Exit(3)[OF assms] by blast
  have "distinct (map fst m)" using assms(2) by (simp only: batch_wf_def)
  then show ?thesis unfolding j by (rule apply_batch_prefix)
qed

text \<open>C12. A write of coins to the database that is interrupted between two of its batches leaves a database that says so. It has
  no best block, its head blocks are the new tip and the tip it moves from, and every coin is the old one or the new
  one. A write towards another tip is then refused.\<close>

theorem interrupted_write_is_marked:
  assumes "writable h db" "batch_wf (storable_coin pk) m" "DB_BatchWrite pk bs crash m h db = Inr (Exit db')"
  shows "DB_GetBestBlock db' = uint256_null \<and> GetHeadBlocks db' = [h, old_tip_of db]
    \<and> (\<forall>p. db_coins pk db' p \<in> {db_coins pk db p, apply_batch m (db_coins pk db) p})
    \<and> (\<forall>m' h' crash'. h' \<noteq> h \<longrightarrow> DB_BatchWrite pk bs crash' m' h' db' = Inl AssertionFailed)"
proof -
  note E = DB_BatchWrite_Exit[OF assms]
  note C = Exit_coins[OF assms]
  have "DB_BatchWrite pk bs crash' m' h' db' = Inl AssertionFailed" if "h' \<noteq> h" for m' h' crash'
    using that E(1,2) by (simp add: DB_BatchWrite_def)
  then show ?thesis using E(1,2) C by blast
qed

theorem interrupted_write_is_marked_witness:
  "\<exists>db'. DB_BatchWrite sample_pubkey_ops 0 (\<lambda>_. True) sample_map sample_tip sample_db = Inr (Exit db')
    \<and> GetHeadBlocks db' = [sample_tip, uint256_null] \<and> DB_GetBestBlock db' = uint256_null"
proof -
  have "\<exists>db'. DB_BatchWrite sample_pubkey_ops 0 (\<lambda>_. True) sample_map sample_tip sample_db = Inr (Exit db')"
    by (simp add: DB_BatchWrite_loop sample_map_def batch_entry_def batch_Write_def Let_def)
  then show ?thesis using interrupted_write_is_marked[OF sample_writable(1) sample_map_wf] by fastforce
qed

text \<open>The write attempted again after each interruption, once for every member of a list that says when each attempt is
  interrupted.\<close>

fun attempts :: "pubkey_ops \<Rightarrow> nat \<Rightarrow> CCoinsMap \<Rightarrow> uint256 \<Rightarrow> (nat \<Rightarrow> bool) list \<Rightarrow> CDBWrapper \<Rightarrow> CDBWrapper option" where
  "attempts pk bs m h [] db = None"
| "attempts pk bs m h (crash # crashes) db =
     (case DB_BatchWrite pk bs crash m h db of
        Inl _ \<Rightarrow> None
      | Inr (Exit db) \<Rightarrow> attempts pk bs m h crashes db
      | Inr (Return ret db) \<Rightarrow> if ret then Some db else None)"

lemma writable_after_Exit:
  assumes "writable h db" "batch_wf (storable_coin pk) m" "DB_BatchWrite pk bs crash m h db = Inr (Exit db')"
  shows "writable h db'" "apply_batch m (db_coins pk db') = apply_batch m (db_coins pk db)"
proof -
  note E = DB_BatchWrite_Exit[OF assms]
  show "writable h db'" using E(1,2) assms(1) by (simp add: writable_def)
  show "apply_batch m (db_coins pk db') = apply_batch m (db_coins pk db)"
  proof
    fix p
    show "apply_batch m (db_coins pk db') p = apply_batch m (db_coins pk db) p"
      using Exit_coins[OF assms, of p] by (auto simp: apply_batch_def split: option.splits if_splits)
  qed
qed

text \<open>C13. However often a write is interrupted, it completes as soon as one attempt runs through: the database then has the coins of
  the original database changed by the batch, the new tip as its best block and no head blocks.\<close>

theorem write_completes:
  assumes "writable h db" "batch_wf (storable_coin pk) m" "\<exists>crash\<in>set crashes. \<forall>k. \<not> crash k"
  shows "\<exists>db'. attempts pk bs m h crashes db = Some db' \<and> db_coins pk db' = apply_batch m (db_coins pk db)
    \<and> DB_GetBestBlock db' = h \<and> GetHeadBlocks db' = []"
  using assms(1,3)
proof (induction crashes arbitrary: db)
  case (Cons crash crashes)
  obtain r where r: "DB_BatchWrite pk bs crash m h db = Inr r" using DB_BatchWrite_loop[OF Cons.prems(1)] by blast
  show ?case
  proof (cases r)
    case (Exit db2)
    note X = r[unfolded Exit]
    have "\<exists>crash\<in>set crashes. \<forall>k. \<not> crash k" using Cons.prems(2) DB_BatchWrite_Exit(4)[OF Cons.prems(1) assms(2) X] by auto
    then show ?thesis using Cons.IH[OF writable_after_Exit(1)[OF Cons.prems(1) assms(2) X]]
        writable_after_Exit(2)[OF Cons.prems(1) assms(2) X] X by simp
  next
    case (Return ret db2)
    then show ?thesis using DB_BatchWrite_Return[OF Cons.prems(1) assms(2) r[unfolded Return]] r by simp
  qed
qed simp

theorem write_completes_witness:
  "\<exists>db'. attempts sample_pubkey_ops 0 sample_map sample_tip [\<lambda>_. True, \<lambda>k. k = 0, \<lambda>_. False] sample_db = Some db'
    \<and> db_coins sample_pubkey_ops db' sample_outpoint = Some sample_coin \<and> DB_GetBestBlock db' = sample_tip"
proof -
  have "apply_batch sample_map (\<lambda>_. None) sample_outpoint = Some sample_coin" by (simp add: apply_batch_def sample_map_def)
  then show ?thesis
    using write_completes[OF sample_writable(1) sample_map_wf, of "[\<lambda>_. True, \<lambda>k. k = 0, \<lambda>_. False]" 0] by auto
qed

end
