(* ===== verification/Spec2Isabelle.thy ===== *)
theory Spec2Isabelle
  imports Version_Bits Merkle Bool_Expr Interpreter Asset_Script Coins
begin

text \<open>
  A verification development for the consensus code of the HookersAndBlow node, a fork of Ravencoin and Bitcoin Core.

  \<^bold>\<open>The program.\<close> The node keeps a tree of block headers (\<^verbatim>\<open>chain.cpp\<close>, \<^verbatim>\<open>validation.cpp\<close>), follows the branch with the most
  work (\<^verbatim>\<open>pow.cpp\<close>, \<^verbatim>\<open>arith_uint256.cpp\<close>), decides from the version bits of past blocks which rules are active
  (\<^verbatim>\<open>versionbits.cpp\<close>), checks the transactions of a block against its Merkle root (\<^verbatim>\<open>consensus/merkle.cpp\<close>), reads them
  from bytes (\<^verbatim>\<open>serialize.h\<close>, \<^verbatim>\<open>primitives/transaction.h\<close>) and runs their scripts (\<^verbatim>\<open>script/\<close>). Unspent outputs live in a
  database behind a stack of caches (\<^verbatim>\<open>coins.cpp\<close>, \<^verbatim>\<open>txdb.cpp\<close>, \<^verbatim>\<open>compressor.cpp\<close>). Assets are named, carried in
  scripts and restricted by verifier strings (\<^verbatim>\<open>assets/\<close>, \<^verbatim>\<open>LibBoolEE.cpp\<close>). All paths are below \<^verbatim>\<open>src/src/\<close>.

  \<^bold>\<open>Conventions.\<close> Integers with a width that matters are words; a C++ pointer into the block tree is an address into a
  store; an exception, a failed assertion or undefined behaviour is \<open>None\<close> or an \<open>Inl\<close> value with its error. Hash
  functions, the elliptic-curve library and the clock are arguments. Loops are recursive functions with a termination
  proof; a loop that could run forever on a malformed store is a \<open>partial_function\<close> and is shown to return on every store
  that the operations build.

  \<^bold>\<open>Theories.\<close>
  \<^item> \<open>Prelude\<close>: integer types, byte order, facts on words and lists that several theories use.
  \<^item> \<open>Arith_Uint256\<close>: \<open>base_uint\<close> with every operator as its loop over limbs, and the compact form of targets. The lemmas
    show that each operator is arithmetic modulo \<open>2 ^ 256\<close>, that division is exact, and what the compact form keeps.
  \<^item> \<open>Block_Index\<close>: block headers, \<open>CBlockIndex\<close> with the skip list, chain work and median time, \<open>AddToBlockIndex\<close>. The
    invariant of the tree holds in every store that insertions build; the skip-list search finds the ancestor that a
    walk along the parents finds; chain work is the sum of the proofs along a branch.
  \<^item> \<open>Active_Chain\<close>: \<open>CChain\<close>, fork points, locators and the search by time, each against its definition on branches.
  \<^item> \<open>Pow\<close>: both retargeting rules, their choice by height, and the check of a header hash against its target. The
    required target never exceeds the limit of the network.
  \<^item> \<open>Version_Bits\<close>: the state machine of a deployment with its cache, equal to a reference without the cache; the latches
    of \<^verbatim>\<open>validation.cpp\<close>.
  \<^item> \<open>Merkle\<close>: the incremental algorithm for roots, mutation flag and branches, equal to the tree built level by level.
  \<^item> \<open>Bool_Expr\<close>: the evaluator of verifier strings against a syntax tree with its printer.
  \<^item> \<open>Script\<close>: opcodes, script numbers, reading and appending, \<open>FindAndDelete\<close>, templates, signature-operation counts.
  \<^item> \<open>Interpreter\<close>: \<open>EvalScript\<close> and \<open>VerifyScript\<close> complete, over a signature checker. Limits on stacks and operations,
    multisignature matching against a reference, flags that only restrict, and spending from a key hash.
  \<^item> \<open>Serialize\<close>: integers, sizes, vectors, variable-length integers; the locale \<open>codec\<close> states what a writer and a reader
    of one type owe each other, and every serialised type interprets it.
  \<^item> \<open>Transaction\<close>: transactions in both formats, their hashes and output sums.
  \<^item> \<open>Asset_Names\<close>: patterns, types, owners and parents of asset names.
  \<^item> \<open>Base58\<close>: the base-58 form of byte strings with its checksum, and destinations as addresses. Encoding and decoding are
    inverse for every string of bytes.
  \<^item> \<open>Standard\<close>: the templates of output scripts: \<open>Solver\<close>, \<open>ExtractDestination\<close> and the constructors of scripts for a
    destination, of which the first two recognise what the last builds.
  \<^item> \<open>Asset_Script\<close>: the asset payloads of output scripts. What the constructors write, the readers return, and the amount
    read from a script is the amount in its payload.
  \<^item> \<open>Compressor\<close>: the compressed form of amounts, scripts and coins. A storable coin is read back as written; the bound on
    amounts is below \<open>MAX_MONEY\<close>.
  \<^item> \<open>Coins\<close>: the database of coins as a map from byte strings to obfuscated byte strings, with writes in several batches,
    and the caches above it. The locale \<open>coins_view\<close> is the contract of a view. The database has it, a cache over any
    view with the contract has it, and so does the stack of two caches that validation uses: every sequence of
    operations behaves as on a partial function from outpoints to coins. An interrupted write is recognisable, and
    writing again completes it. \<open>usage\<close>, the memory of a coin, is assumed to be zero for the empty coin, since clearing
    a script releases its storage.

  \<^bold>\<open>Bounds.\<close> Recursion follows the data or a measure; the retargeting loop counts down the blocks it still has to look at. A
  script number has at most eight bytes and is computed in 64 bits. Hashes have 32 bytes: \<open>valid_outpoint\<close>, \<open>valid_tx\<close> and
  their like say so where it matters, since a model of byte strings also has shorter ones.

  \<^bold>\<open>Not modelled.\<close> The asset cache and its databases, including what \<open>AddCoins\<close> and \<open>SpendCoin\<close> do with it: it is an argument where
  a result depends on it. The contextual checks of transactions and blocks and the signature hash: the interpreter takes
  the signature checker as an argument. Block files, the mempool and mining. Database cursors and upgrades.
  Networking, wallet, user interface, RPC and process control are input and output around the code above.
  Cryptographic primitives and the bundled libraries are arguments: nothing proved here depends on how they work.
\<close>

end
